(* ===== verification/Prelude.thy ===== *)
theory Prelude
  imports Main "HOL-Library.Word"
begin

text \<open>
  Shared vocabulary of the development.

  \<^item> the machine types of the Rust code (\<open>u8\<close>, \<open>u64\<close>, \<open>i64\<close>, bit patterns of \<open>f32\<close> and
    \<open>f64\<close>) as words, and the error-or-value result type;
  \<^item> \<open>ordering\<close>, the three-valued result of Rust's \<open>Ord::cmp\<close>, with \<open>then\<close> and \<open>reverse\<close>,
    the comparison of a linear order, and the lexicographic comparison of slices;
  \<^item> the contract of Rust's \<open>Ord\<close> trait as the locale \<open>total_cmp\<close> (and \<open>linear_cmp\<close>, where
    \<open>Equal\<close> means equality), with its interpretations;
  \<^item> big-endian encoding of unsigned integers and its order and round-trip lemmas;
  \<^item> the state-threading combinators for loops that can fail.
\<close>

named_theorems ord_simps \<open>simplification rules for comparisons\<close>
named_theorems codec_simps \<open>round-trip rules of the byte codecs\<close>

type_synonym u8 = "8 word"
type_synonym u32 = "32 word"
type_synonym u64 = "64 word"
type_synonym i64 = "64 word" \<comment> \<open>read with \<open>sint\<close>\<close>
type_synonym f32 = "32 word" \<comment> \<open>the IEEE 754 bit pattern\<close>
type_synonym f64 = "64 word" \<comment> \<open>the IEEE 754 bit pattern\<close>
type_synonym bytes = "8 word list"

section \<open>Three-way comparison\<close>

datatype ordering = Less | Equal | Greater

fun ordering_then :: "ordering \<Rightarrow> ordering \<Rightarrow> ordering" where
  "ordering_then Equal r = r"
| "ordering_then l r = l"

fun ordering_swap :: "ordering \<Rightarrow> ordering" where
  "ordering_swap Less = Greater"
| "ordering_swap Equal = Equal"
| "ordering_swap Greater = Less"

definition cmp_ord :: "'a::linorder \<Rightarrow> 'a \<Rightarrow> ordering" where
  "cmp_ord x y = (if x < y then Less else if x = y then Equal else Greater)"

fun lex_cmp :: "('a \<Rightarrow> 'a \<Rightarrow> ordering) \<Rightarrow> 'a list \<Rightarrow> 'a list \<Rightarrow> ordering" where
  "lex_cmp f [] [] = Equal"
| "lex_cmp f [] (y # ys) = Less"
| "lex_cmp f (x # xs) [] = Greater"
| "lex_cmp f (x # xs) (y # ys) = ordering_then (f x y) (lex_cmp f xs ys)"

lemma lex_cmp_cong [fundef_cong]:
  assumes "xs = xs'" and "ys = ys'"
    and "\<And>x y. x \<in> set xs' \<Longrightarrow> y \<in> set ys' \<Longrightarrow> f x y = g x y"
  shows "lex_cmp f xs ys = lex_cmp g xs' ys'"
proof -
  have "(\<And>x y. x \<in> set xs \<Longrightarrow> y \<in> set ys \<Longrightarrow> f x y = g x y) \<Longrightarrow> lex_cmp f xs ys = lex_cmp g xs ys"
    by (induction f xs ys rule: lex_cmp.induct) auto
  with assms show ?thesis by simp
qed

abbreviation cmp_bytes :: "bytes \<Rightarrow> bytes \<Rightarrow> ordering" where
  "cmp_bytes \<equiv> lex_cmp cmp_ord"

lemma ordering_then_Equal [simp]: "ordering_then c Equal = c"
  by (cases c) auto

lemma ordering_then_assoc [simp]:
  "ordering_then (ordering_then a b) c = ordering_then a (ordering_then b c)"
  by (cases a) auto

lemma ordering_then_eq_Equal [simp]: "ordering_then a b = Equal \<longleftrightarrow> a = Equal \<and> b = Equal"
  by (cases a) auto

lemma ordering_then_neq: "c \<noteq> Equal \<Longrightarrow> ordering_then c r = c"
  by (cases c) auto

lemma ordering_swap_swap [simp]: "ordering_swap (ordering_swap c) = c"
  by (cases c) auto

lemma ordering_swap_then [simp]:
  "ordering_swap (ordering_then a b) = ordering_then (ordering_swap a) (ordering_swap b)"
  by (cases a) auto

lemma ordering_swap_eq [simp]:
  "ordering_swap c = Less \<longleftrightarrow> c = Greater"
  "ordering_swap c = Greater \<longleftrightarrow> c = Less"
  "ordering_swap c = Equal \<longleftrightarrow> c = Equal"
  by (cases c; simp)+

lemma cmp_ord_simps [simp, ord_simps]:
  "cmp_ord x y = Less \<longleftrightarrow> x < y"
  "cmp_ord x y = Equal \<longleftrightarrow> x = y"
  "cmp_ord x y = Greater \<longleftrightarrow> y < x"
  by (auto simp: cmp_ord_def)

lemma cmp_ord_refl [simp]: "cmp_ord x x = Equal"
  by simp

lemma cmp_ord_strict: "x < y \<Longrightarrow> cmp_ord x y = Less" "y < x \<Longrightarrow> cmp_ord x y = Greater"
  by simp_all

lemma cmp_ord_eqI:
  "(x < y \<longleftrightarrow> x' < y') \<Longrightarrow> (y < x \<longleftrightarrow> y' < x') \<Longrightarrow> cmp_ord x y = cmp_ord x' y'"
  for x y :: "'a::linorder" and x' y' :: "'b::linorder"
  by (auto simp: cmp_ord_def)

lemma ordering_then_cong:
  "c = c' \<Longrightarrow> (c' = Equal \<Longrightarrow> r = r') \<Longrightarrow> ordering_then c r = ordering_then c' r'"
  by (cases c') auto

text \<open>Comparing slices with a common prefix, and slices whose first parts have equal length.\<close>

lemma lex_cmp_append_same:
  "length xs = length xs' \<Longrightarrow>
   lex_cmp f (xs @ ys) (xs' @ ys') = ordering_then (lex_cmp f xs xs') (lex_cmp f ys ys')"
  by (induction xs xs' rule: list_induct2) auto

lemma lex_cmp_append_refl:
  "(\<And>x. f x x = Equal) \<Longrightarrow> lex_cmp f (xs @ ys) (xs @ zs) = lex_cmp f ys zs"
  by (induction xs) auto

section \<open>The contract of \<open>Ord\<close>\<close>

locale total_cmp =
  fixes cmp :: "'a \<Rightarrow> 'a \<Rightarrow> ordering"
  assumes cmp_refl: "cmp x x = Equal"
    and cmp_swap: "cmp y x = ordering_swap (cmp x y)"
    and cmp_trans_less: "cmp x y = Less \<Longrightarrow> cmp y z = Less \<Longrightarrow> cmp x z = Less"
    and cmp_eq_left: "cmp x y = Equal \<Longrightarrow> cmp x z = cmp y z"
begin

lemma cmp_eq_right: "cmp x y = Equal \<Longrightarrow> cmp z x = cmp z y"
  using cmp_eq_left [of x y z] cmp_swap [of z x] cmp_swap [of z y] by simp

lemma cmp_Greater: "cmp x y = Greater \<longleftrightarrow> cmp y x = Less"
  using cmp_swap [of x y] by simp

lemma cmp_Equal_sym: "cmp x y = Equal \<longleftrightarrow> cmp y x = Equal"
  using cmp_swap [of x y] by simp

lemma cmp_irrefl: "cmp x x \<noteq> Less" "cmp x x \<noteq> Greater"
  by (simp_all add: cmp_refl)

lemma cmp_le_trans:
  assumes "cmp x y \<noteq> Greater" and "cmp y z \<noteq> Greater"
  shows "cmp x z \<noteq> Greater"
proof (cases "cmp x y = Equal")
  case True
  from cmp_eq_left [OF this, of z] assms(2) show ?thesis by simp
next
  case False
  with assms(1) have xy: "cmp x y = Less" by (cases "cmp x y") auto
  show ?thesis
  proof (cases "cmp y z = Equal")
    case True
    from cmp_eq_right [OF this, of x] xy show ?thesis by simp
  next
    case False
    with assms(2) have "cmp y z = Less" by (cases "cmp y z") auto
    from cmp_trans_less [OF xy this] show ?thesis by simp
  qed
qed

lemma cmp_less_le_trans:
  assumes "cmp x y = Less" and "cmp y z \<noteq> Greater"
  shows "cmp x z = Less"
proof (cases "cmp y z = Equal")
  case True
  from cmp_eq_right [OF this, of x] assms(1) show ?thesis by simp
next
  case False
  with assms(2) have "cmp y z = Less" by (cases "cmp y z") auto
  with assms(1) show ?thesis by (rule cmp_trans_less)
qed

lemma cmp_le_less_trans:
  assumes "cmp x y \<noteq> Greater" and "cmp y z = Less"
  shows "cmp x z = Less"
proof (cases "cmp x y = Equal")
  case True
  from cmp_eq_left [OF this, of z] assms(2) show ?thesis by simp
next
  case False
  with assms(1) have "cmp x y = Less" by (cases "cmp x y") auto
  then show ?thesis using assms(2) by (rule cmp_trans_less)
qed

end

locale linear_cmp = total_cmp +
  assumes cmp_EqualD: "cmp x y = Equal \<Longrightarrow> x = y"
begin

lemma cmp_Equal_iff: "cmp x y = Equal \<longleftrightarrow> x = y"
  using cmp_EqualD cmp_refl by blast

lemma cmp_neq_cases: "x \<noteq> y \<Longrightarrow> cmp x y = Less \<or> cmp y x = Less"
  using cmp_Equal_iff cmp_Greater by (cases "cmp x y") auto

end

text \<open>
  The laws with the first argument fixed, in the form an induction over a recursive type needs:
  \<open>total_cmp\<close> holds exactly when every element satisfies them.
\<close>

definition cmp_laws_at :: "('a \<Rightarrow> 'a \<Rightarrow> ordering) \<Rightarrow> 'a \<Rightarrow> bool" where
  "cmp_laws_at f x \<longleftrightarrow>
     f x x = Equal \<and>
     (\<forall>y. f y x = ordering_swap (f x y)) \<and>
     (\<forall>y z. f x y = Less \<longrightarrow> f y z = Less \<longrightarrow> f x z = Less) \<and>
     (\<forall>y z. f x y = Equal \<longrightarrow> f x z = f y z) \<and>
     (\<forall>y z. f x y = Less \<longrightarrow> f y z = Equal \<longrightarrow> f x z = Less)"

lemma cmp_laws_atD:
  assumes "cmp_laws_at f x"
  shows "f x x = Equal" "f y x = ordering_swap (f x y)"
    "f x y = Less \<Longrightarrow> f y z = Less \<Longrightarrow> f x z = Less"
    "f x y = Equal \<Longrightarrow> f x z = f y z"
    "f x y = Less \<Longrightarrow> f y z = Equal \<Longrightarrow> f x z = Less"
  using assms unfolding cmp_laws_at_def by blast+

lemma total_cmp_iff: "total_cmp f \<longleftrightarrow> (\<forall>x. cmp_laws_at f x)"
proof
  assume f: "total_cmp f"
  have "f x y = Less \<Longrightarrow> f y z = Equal \<Longrightarrow> f x z = Less" for x y z
    using total_cmp.cmp_eq_right [OF f, of y z x] by simp
  then show "\<forall>x. cmp_laws_at f x"
    unfolding cmp_laws_at_def
    using total_cmp.cmp_refl [OF f] total_cmp.cmp_swap [OF f] total_cmp.cmp_trans_less [OF f]
      total_cmp.cmp_eq_left [OF f] by blast
next
  assume "\<forall>x. cmp_laws_at f x"
  then have laws: "cmp_laws_at f x" for x by blast
  show "total_cmp f"
    by standard (rule cmp_laws_atD [OF laws]; assumption)+
qed

text \<open>Orders induced by a key, the comparison of a linear order, and slices.\<close>

lemma linear_cmp_key:
  fixes key :: "'a \<Rightarrow> 'b::linorder"
  assumes "\<And>x y. cmp x y = cmp_ord (key x) (key y)" and "inj key"
  shows "linear_cmp cmp"
proof
  fix x y
  show "cmp y x = ordering_swap (cmp x y)"
    unfolding assms(1) by (auto simp: cmp_ord_def)
  show "cmp x y = Equal \<Longrightarrow> x = y"
    using assms(2) by (simp add: assms(1) inj_eq)
qed (auto simp: assms(1))

interpretation ord: linear_cmp "cmp_ord :: 'a::linorder \<Rightarrow> 'a \<Rightarrow> ordering"
  by (rule linear_cmp_key [where key = "\<lambda>x. x"]) auto

lemma lex_cmp_refl_on: "(\<And>x. x \<in> set xs \<Longrightarrow> f x x = Equal) \<Longrightarrow> lex_cmp f xs xs = Equal"
  by (induction xs) auto

lemma lex_cmp_swap_on:
  "(\<And>x y. x \<in> set xs \<Longrightarrow> y \<in> set ys \<Longrightarrow> f y x = ordering_swap (f x y)) \<Longrightarrow>
   lex_cmp f ys xs = ordering_swap (lex_cmp f xs ys)"
  by (induction f xs ys rule: lex_cmp.induct) auto

lemma lex_cmp_eq_left_on:
  "(\<And>x y z. x \<in> set xs \<Longrightarrow> f x y = Equal \<Longrightarrow> f x z = f y z) \<Longrightarrow>
   lex_cmp f xs ys = Equal \<Longrightarrow> lex_cmp f xs zs = lex_cmp f ys zs"
proof (induction f xs ys arbitrary: zs rule: lex_cmp.induct)
  case (1 f)
  show ?case by simp
next
  case (2 f y ys)
  from "2.prems"(2) show ?case by simp
next
  case (3 f x xs)
  from "3.prems"(2) show ?case by simp
next
  case (4 f x xs y ys)
  from "4.prems"(2) have xy: "f x y = Equal" and eq: "lex_cmp f xs ys = Equal"
    by simp_all
  have IH: "lex_cmp f xs zs' = lex_cmp f ys zs'" for zs'
    by (rule "4.IH" [OF _ eq]) (rule "4.prems"(1), simp_all)
  have head: "f x z = f y z" for z
    by (rule "4.prems"(1) [OF _ xy]) simp
  show ?case
    by (cases zs) (simp_all add: IH head)
qed

lemma lex_cmp_trans_less_on:
  assumes "\<And>x y z. x \<in> set xs \<Longrightarrow> f x y = Less \<Longrightarrow> f y z = Less \<Longrightarrow> f x z = Less"
    and "\<And>x y z. x \<in> set xs \<Longrightarrow> f x y = Equal \<Longrightarrow> f x z = f y z"
    and "\<And>x y z. x \<in> set xs \<Longrightarrow> f x y = Less \<Longrightarrow> f y z = Equal \<Longrightarrow> f x z = Less"
  shows "lex_cmp f xs ys = Less \<Longrightarrow> lex_cmp f ys zs = Less \<Longrightarrow> lex_cmp f xs zs = Less"
  using assms
proof (induction f xs ys arbitrary: zs rule: lex_cmp.induct)
  case (1 f)
  from "1.prems"(1) show ?case by simp
next
  case (2 f y ys)
  from "2.prems"(2) show ?case by (cases zs) simp_all
next
  case (3 f x xs)
  from "3.prems"(1) show ?case by simp
next
  case (4 f x xs y ys)
  obtain z zs' where zs: "zs = z # zs'"
    using "4.prems"(2) by (cases zs) simp_all
  have IH: "lex_cmp f xs ys = Less \<Longrightarrow> lex_cmp f ys zs' = Less \<Longrightarrow> lex_cmp f xs zs' = Less"
  proof (erule "4.IH", assumption)
    fix a b c
    assume "a \<in> set xs"
    then have a: "a \<in> set (x # xs)" by simp
    show "f a b = Less \<Longrightarrow> f b c = Less \<Longrightarrow> f a c = Less" by (rule "4.prems"(3) [OF a])
    show "f a b = Equal \<Longrightarrow> f a c = f b c" by (rule "4.prems"(4) [OF a])
    show "f a b = Less \<Longrightarrow> f b c = Equal \<Longrightarrow> f a c = Less" by (rule "4.prems"(5) [OF a])
  qed
  have tr: "f x y = Less \<Longrightarrow> f y z = Less \<Longrightarrow> f x z = Less"
    by (rule "4.prems"(3) [of x y z]) simp_all
  have el: "f x y = Equal \<Longrightarrow> f x z = f y z"
    by (rule "4.prems"(4)) simp_all
  have er: "f x y = Less \<Longrightarrow> f y z = Equal \<Longrightarrow> f x z = Less"
    by (rule "4.prems"(5) [of x y z]) simp_all
  show ?case
    using "4.prems"(1,2) IH tr el er unfolding zs
    by (cases "f x y"; cases "f y z"; cases "f x z") simp_all
qed

lemma lex_cmp_less_eq_on:
  assumes "lex_cmp f xs ys = Less" and "lex_cmp f ys zs = Equal"
    and "\<And>x y z. x \<in> set xs \<Longrightarrow> f x y = Equal \<Longrightarrow> f x z = f y z"
    and "\<And>x y z. x \<in> set xs \<Longrightarrow> f x y = Less \<Longrightarrow> f y z = Equal \<Longrightarrow> f x z = Less"
  shows "lex_cmp f xs zs = Less"
  using assms
proof (induction f xs ys arbitrary: zs rule: lex_cmp.induct)
  case (1 f)
  from "1.prems"(1) show ?case by simp
next
  case (2 f y ys)
  from "2.prems"(2) show ?case by (cases zs) simp_all
next
  case (3 f x xs)
  from "3.prems"(1) show ?case by simp
next
  case (4 f x xs y ys)
  obtain z zs' where zs: "zs = z # zs'"
    using "4.prems"(2) by (cases zs) simp_all
  have IH: "lex_cmp f xs ys = Less \<Longrightarrow> lex_cmp f ys zs' = Equal \<Longrightarrow> lex_cmp f xs zs' = Less"
  proof (erule "4.IH", assumption)
    fix a b c
    assume "a \<in> set xs"
    then have a: "a \<in> set (x # xs)" by simp
    show "f a b = Equal \<Longrightarrow> f a c = f b c" by (rule "4.prems"(3) [OF a])
    show "f a b = Less \<Longrightarrow> f b c = Equal \<Longrightarrow> f a c = Less" by (rule "4.prems"(4) [OF a])
  qed
  have el: "f x y = Equal \<Longrightarrow> f x z = f y z"
    by (rule "4.prems"(3)) simp_all
  have er: "f x y = Less \<Longrightarrow> f y z = Equal \<Longrightarrow> f x z = Less"
    by (rule "4.prems"(4) [of x y z]) simp_all
  show ?case
    using "4.prems"(1,2) IH el er unfolding zs
    by (cases "f x y"; cases "f y z"; cases "f x z") simp_all
qed

lemma cmp_laws_at_lex:
  assumes "\<And>x. x \<in> set xs \<Longrightarrow> cmp_laws_at f x"
  shows "cmp_laws_at (lex_cmp f) xs"
proof -
  note laws = cmp_laws_atD [OF assms]
  have er: "lex_cmp f xs ys = Less \<Longrightarrow> lex_cmp f ys zs = Equal \<Longrightarrow> lex_cmp f xs zs = Less" for ys zs
    by (erule lex_cmp_less_eq_on, assumption) (rule laws, assumption+)+
  have "lex_cmp f xs ys = Less \<Longrightarrow> lex_cmp f ys zs = Less \<Longrightarrow> lex_cmp f xs zs = Less" for ys zs
    by (rule lex_cmp_trans_less_on [of xs f ys zs]) (rule laws, assumption+ | assumption)+
  moreover have "lex_cmp f xs ys = Equal \<Longrightarrow> lex_cmp f xs zs = lex_cmp f ys zs" for ys zs
    by (rule lex_cmp_eq_left_on [of xs f ys zs]) (rule laws, assumption+ | assumption)+
  moreover have "lex_cmp f xs xs = Equal"
    by (rule lex_cmp_refl_on) (rule laws)
  moreover have "lex_cmp f ys xs = ordering_swap (lex_cmp f xs ys)" for ys
    by (rule lex_cmp_swap_on) (rule laws)
  ultimately show ?thesis using er unfolding cmp_laws_at_def by blast
qed

lemma total_cmp_lex: "total_cmp f \<Longrightarrow> total_cmp (lex_cmp f)"
  unfolding total_cmp_iff by (blast intro: cmp_laws_at_lex)

text \<open>Comparing by one order and then by another, and comparing images.\<close>

lemma total_cmp_then:
  assumes "total_cmp f" and "total_cmp g"
  shows "total_cmp (\<lambda>x y. ordering_then (f x y) (g x y))"
proof
  fix x y z
  show "ordering_then (f x x) (g x x) = Equal"
    by (simp add: total_cmp.cmp_refl [OF assms(1)] total_cmp.cmp_refl [OF assms(2)])
  show "ordering_then (f y x) (g y x) = ordering_swap (ordering_then (f x y) (g x y))"
    by (simp add: total_cmp.cmp_swap [OF assms(1), of y x] total_cmp.cmp_swap [OF assms(2), of y x])
  show "ordering_then (f x y) (g x y) = Equal \<Longrightarrow>
      ordering_then (f x z) (g x z) = ordering_then (f y z) (g y z)"
    using total_cmp.cmp_eq_left [OF assms(1), of x y z] total_cmp.cmp_eq_left [OF assms(2), of x y z]
    by simp
  assume xy: "ordering_then (f x y) (g x y) = Less" and yz: "ordering_then (f y z) (g y z) = Less"
  show "ordering_then (f x z) (g x z) = Less"
  proof (cases "f x y = Equal")
    case True
    with xy have g: "g x y = Less" by simp
    have "f x z = f y z" using True by (rule total_cmp.cmp_eq_left [OF assms(1)])
    with yz total_cmp.cmp_trans_less [OF assms(2) g, of z] show ?thesis
      by (cases "f y z") simp_all
  next
    case False
    with xy have f: "f x y = Less" by (cases "f x y") simp_all
    have "f y z \<noteq> Greater" using yz by (cases "f y z") simp_all
    with f have "f x z = Less" by (rule total_cmp.cmp_less_le_trans [OF assms(1)])
    then show ?thesis by simp
  qed
qed

lemma total_cmp_image: "total_cmp f \<Longrightarrow> total_cmp (\<lambda>x y. f (h x) (h y))"
  unfolding total_cmp_iff cmp_laws_at_def by blast

text \<open>A derived \<open>Ord\<close> compares the variants first, and two values of one variant by contents.\<close>

lemma cmp_laws_at_variant:
  fixes idx :: "'a \<Rightarrow> nat" and C :: "'b \<Rightarrow> 'a"
  assumes cross: "\<And>v w. idx v \<noteq> idx w \<Longrightarrow> f v w = cmp_ord (idx v) (idx w)"
    and same: "\<And>a b. f (C a) (C b) = c a b"
    and inv: "\<And>w. idx w = idx (C a) \<Longrightarrow> \<exists>b. w = C b"
    and laws: "cmp_laws_at c a"
  shows "cmp_laws_at f (C a)"
proof -
  let ?k = "idx (C a)"
  have less: "idx v < idx w \<Longrightarrow> f v w = Less" for v w using cross [of v w] by simp
  have le: "f v w \<noteq> Greater \<Longrightarrow> idx v \<le> idx w" for v w
    using cross [of v w] by (cases "idx v = idx w") auto
  have eq: "f v w = Equal \<Longrightarrow> idx v = idx w" for v w
    using cross [of v w] by (cases "idx v = idx w") auto
  note L = cmp_laws_atD [OF laws]
  have refl: "f (C a) (C a) = Equal" by (simp add: same L(1))
  have swap: "f y (C a) = ordering_swap (f (C a) y)" for y
  proof (cases "idx y = ?k")
    case True
    then obtain b where "y = C b" using inv by blast
    then show ?thesis using L(2) by (simp add: same)
  next
    case False
    then show ?thesis using cross [of y "C a"] cross [of "C a" y] ord.cmp_swap [of "idx y" ?k] by simp
  qed
  have step: "f (C a) z = Less"
    if xy: "f (C a) y = Less" and yz: "f y z \<noteq> Greater"
      and pay: "\<And>b d. y = C b \<Longrightarrow> z = C d \<Longrightarrow> c a d = Less" for y z
  proof (cases "?k = idx z")
    case True
    with le [of "C a" y] le [of y z] xy yz have "idx y = ?k" "idx z = ?k" by auto
    then obtain b d where "y = C b" "z = C d" using inv by blast
    then show ?thesis using pay by (simp add: same)
  next
    case False
    with le [of "C a" y] le [of y z] xy yz have "?k < idx z" by auto
    then show ?thesis by (rule less)
  qed
  have tr: "f (C a) z = Less" if "f (C a) y = Less" "f y z = Less" for y z
    by (rule step [OF that(1)]) (use that L(3) same in auto)
  have er: "f (C a) z = Less" if "f (C a) y = Less" "f y z = Equal" for y z
    by (rule step [OF that(1)]) (use that L(5) same in auto)
  have el: "f (C a) z = f y z" if "f (C a) y = Equal" for y z
  proof -
    from eq [OF that] have y: "idx y = ?k" by simp
    then obtain b where b: "y = C b" using inv by blast
    show ?thesis
    proof (cases "idx z = ?k")
      case True
      then obtain d where "z = C d" using inv by blast
      then show ?thesis using that L(4) by (simp add: b same)
    next
      case False
      then show ?thesis using cross [of "C a" z] cross [of y z] y by simp
    qed
  qed
  from refl swap tr el er show ?thesis unfolding cmp_laws_at_def by blast
qed

lemma lex_cmp_EqualD:
  "(\<And>x y. f x y = Equal \<Longrightarrow> x = y) \<Longrightarrow> lex_cmp f xs ys = Equal \<Longrightarrow> xs = ys"
  by (induction f xs ys rule: lex_cmp.induct) auto

lemma linear_cmp_lex:
  assumes "linear_cmp f"
  shows "linear_cmp (lex_cmp f)"
proof -
  from assms have tot: "total_cmp f" by (rule linear_cmp.axioms)
  show ?thesis
  proof (rule linear_cmp.intro)
    show "total_cmp (lex_cmp f)" using tot by (rule total_cmp_lex)
    show "linear_cmp_axioms (lex_cmp f)"
      by standard (rule lex_cmp_EqualD [OF linear_cmp.cmp_EqualD [OF assms]])
  qed
qed

interpretation bytes_ord: linear_cmp cmp_bytes
  by (rule linear_cmp_lex) (rule ord.linear_cmp_axioms)

section \<open>Big-endian integers\<close>

text \<open>
  \<open>be_bytes n v\<close> is the \<open>n\<close>-byte big-endian form of \<open>v\<close> (the byteorder crate's
  \<open>write_u64::<BigEndian>\<close> is the case \<open>n = 8\<close>); \<open>be_value\<close> reads it back.
\<close>

fun be_bytes :: "nat \<Rightarrow> nat \<Rightarrow> bytes" where
  "be_bytes 0 v = []"
| "be_bytes (Suc n) v = word_of_nat (v div 256 ^ n) # be_bytes n (v mod 256 ^ n)"

definition be_value :: "bytes \<Rightarrow> nat" where
  "be_value bs = foldl (\<lambda>acc b. acc * 256 + unat b) 0 bs"

lemma length_be_bytes [simp]: "length (be_bytes n v) = n"
  by (induction n arbitrary: v) auto

lemma be_value_foldl:
  "foldl (\<lambda>acc b. acc * 256 + unat b) a bs = a * 256 ^ length bs + be_value bs" for bs :: bytes
proof (induction bs arbitrary: a)
  case (Cons b bs)
  have "foldl (\<lambda>acc b. acc * 256 + unat b) a (b # bs) = (a * 256 + unat b) * 256 ^ length bs + be_value bs"
    by (simp add: Cons.IH)
  moreover have "be_value (b # bs) = unat b * 256 ^ length bs + be_value bs"
    using Cons.IH [of "unat b"] by (simp add: be_value_def)
  ultimately show ?case by (simp add: algebra_simps)
qed (simp add: be_value_def)

lemma be_value_Cons: "be_value (b # bs) = unat b * 256 ^ length bs + be_value bs"
  using be_value_foldl [of 0 "b # bs"] be_value_foldl [of "unat b" bs] by (simp add: be_value_def)

lemma be_value_be_bytes: "v < 256 ^ n \<Longrightarrow> be_value (be_bytes n v) = v"
proof (induction n arbitrary: v)
  case (Suc n)
  have small: "v div 256 ^ n < 256"
    using Suc.prems by (simp add: less_mult_imp_div_less mult.commute)
  have "be_value (be_bytes n (v mod 256 ^ n)) = v mod 256 ^ n"
    by (rule Suc.IH) simp
  with small show ?case
    by (simp add: be_value_Cons unat_of_nat take_bit_eq_mod div_mult_mod_eq)
qed (simp add: be_value_def)

lemma cmp_ord_div_mod:
  fixes a b m :: nat
  assumes "0 < m"
  shows "ordering_then (cmp_ord (a div m) (b div m)) (cmp_ord (a mod m) (b mod m)) = cmp_ord a b"
proof (cases "a div m = b div m")
  case True
  then have "a < b \<longleftrightarrow> a mod m < b mod m" and "b < a \<longleftrightarrow> b mod m < a mod m"
    using div_mult_mod_eq [of a m] div_mult_mod_eq [of b m] by (metis nat_add_left_cancel_less)+
  then have "cmp_ord (a mod m) (b mod m) = cmp_ord a b"
    by (intro cmp_ord_eqI) auto
  with True show ?thesis by simp
next
  case False
  have "a div m < b div m \<longleftrightarrow> a < b"
    using False by (metis div_le_mono leD le_less_linear less_le)
  moreover have "b div m < a div m \<longleftrightarrow> b < a"
    using False by (metis div_le_mono leD le_less_linear less_le)
  ultimately have "cmp_ord (a div m) (b div m) = cmp_ord a b"
    by (intro cmp_ord_eqI)
  moreover from False have "cmp_ord (a div m) (b div m) \<noteq> Equal"
    by simp
  then have "ordering_then (cmp_ord (a div m) (b div m)) (cmp_ord (a mod m) (b mod m))
      = cmp_ord (a div m) (b div m)"
    by (rule ordering_then_neq)
  ultimately show ?thesis by (rule trans [rotated])
qed

lemma cmp_be_bytes:
  "v < 256 ^ n \<Longrightarrow> w < 256 ^ n \<Longrightarrow> cmp_bytes (be_bytes n v) (be_bytes n w) = cmp_ord v w"
proof (induction n arbitrary: v w)
  case (Suc n)
  have v: "v div 256 ^ n < 256" and w: "w div 256 ^ n < 256"
    using Suc.prems by (simp_all add: less_mult_imp_div_less mult.commute)
  have "cmp_ord (word_of_nat (v div 256 ^ n) :: u8) (word_of_nat (w div 256 ^ n))
    = cmp_ord (v div 256 ^ n) (w div 256 ^ n)"
    using v w by (intro cmp_ord_eqI) (simp_all add: word_less_nat_alt unat_of_nat take_bit_eq_mod)
  then show ?case
    using Suc.IH [of "v mod 256 ^ n" "w mod 256 ^ n"] by (simp add: cmp_ord_div_mod)
qed auto

definition write_u64 :: "u64 \<Rightarrow> bytes" where
  "write_u64 w = be_bytes 8 (unat w)"

definition read_u64 :: "bytes \<Rightarrow> u64" where
  "read_u64 bs = word_of_nat (be_value bs)"

definition write_u32 :: "u32 \<Rightarrow> bytes" where
  "write_u32 w = be_bytes 4 (unat w)"

definition read_u32 :: "bytes \<Rightarrow> u32" where
  "read_u32 bs = word_of_nat (be_value bs)"

lemma length_write_u64 [simp]: "length (write_u64 w) = 8"
  by (simp add: write_u64_def)

lemma length_write_u32 [simp]: "length (write_u32 w) = 4"
  by (simp add: write_u32_def)

lemma unat_u64_bound: "unat (w :: u64) < 256 ^ 8"
  using unsigned_less [of w] by simp

lemma unat_u32_bound: "unat (w :: u32) < 256 ^ 4"
  using unsigned_less [of w] by simp

lemma read_write_u64 [simp, codec_simps]: "read_u64 (write_u64 w) = w"
  using be_value_be_bytes [OF unat_u64_bound, of w] by (simp add: read_u64_def write_u64_def)

lemma read_write_u32 [simp, codec_simps]: "read_u32 (write_u32 w) = w"
  using be_value_be_bytes [OF unat_u32_bound, of w] by (simp add: read_u32_def write_u32_def)

lemma cmp_write_u64 [ord_simps]: "cmp_bytes (write_u64 a) (write_u64 b) = cmp_ord a b"
  using cmp_be_bytes [OF unat_u64_bound unat_u64_bound, of a b]
  by (simp add: write_u64_def cmp_ord_def word_less_nat_alt word_unat_eq_iff)

text \<open>\<open>split_at\<close> of a slice panics past the end: no result.\<close>

definition split_at :: "nat \<Rightarrow> 'a list \<Rightarrow> ('a list \<times> 'a list) option" where
  "split_at n xs = (if n \<le> length xs then Some (take n xs, drop n xs) else None)"

lemma split_at_append [simp]: "length xs = n \<Longrightarrow> split_at n (xs @ ys) = Some (xs, ys)"
  by (simp add: split_at_def)

lemma split_at_Some: "split_at n xs = Some (ys, zs) \<longleftrightarrow> n \<le> length xs \<and> ys = take n xs \<and> zs = drop n xs"
  by (auto simp: split_at_def)

lemma option_eq_SomeI: "(\<And>v. a = Some v \<longleftrightarrow> b = Some v) \<Longrightarrow> a = b"
  by (cases a; cases b) auto

section \<open>Results and texts\<close>

definition str_bytes :: "string \<Rightarrow> bytes" where
  "str_bytes s = map of_char s"

text \<open>\<open>iter().map(f).try_collect()\<close>: the first error, or all results.\<close>

fun try_collect :: "('a \<Rightarrow> 'e + 'b) \<Rightarrow> 'a list \<Rightarrow> 'e + 'b list" where
  "try_collect f [] = Inr []"
| "try_collect f (x # xs) =
     (case f x of
        Inl e \<Rightarrow> Inl e
      | Inr y \<Rightarrow> (case try_collect f xs of Inl e \<Rightarrow> Inl e | Inr ys \<Rightarrow> Inr (y # ys)))"

lemma try_collect_cong [fundef_cong]:
  "xs = ys \<Longrightarrow> (\<And>x. x \<in> set ys \<Longrightarrow> f x = g x) \<Longrightarrow> try_collect f xs = try_collect g ys"
  by (induction xs arbitrary: ys) (auto split: sum.split)

definition ok_or :: "'a option \<Rightarrow> 'e \<Rightarrow> 'e + 'a" where
  "ok_or x e = (case x of None \<Rightarrow> Inl e | Some v \<Rightarrow> Inr v)"

definition map_ok :: "('a \<Rightarrow> 'b) \<Rightarrow> 'e + 'a \<Rightarrow> 'e + 'b" where
  "map_ok f r = (case r of Inl e \<Rightarrow> Inl e | Inr x \<Rightarrow> Inr (f x))"

text \<open>The \<open>?\<close> operator: an error returns early.\<close>

definition and_then :: "'e + 'a \<Rightarrow> ('a \<Rightarrow> 'e + 'b) \<Rightarrow> 'e + 'b" where
  "and_then r f = (case r of Inl e \<Rightarrow> Inl e | Inr x \<Rightarrow> f x)"

text \<open>A loop over a list whose body may return early with an error.\<close>

fun try_fold :: "('s \<Rightarrow> 'a \<Rightarrow> 'e + 's) \<Rightarrow> 's \<Rightarrow> 'a list \<Rightarrow> 'e + 's" where
  "try_fold f s [] = Inr s"
| "try_fold f s (x # xs) = (case f s x of Inl e \<Rightarrow> Inl e | Inr s' \<Rightarrow> try_fold f s' xs)"

lemma map_ok_Inr [simp]: "map_ok f r = Inr y \<longleftrightarrow> (\<exists>x. r = Inr x \<and> y = f x)"
  by (auto simp: map_ok_def split: sum.splits)

lemma map_ok_simps [simp]: "map_ok f (Inr x) = Inr (f x)" "map_ok f (Inl e) = Inl e"
  by (simp_all add: map_ok_def)

lemma ok_or_Inr [simp]: "ok_or v e = Inr x \<longleftrightarrow> v = Some x"
  by (auto simp: ok_or_def split: option.splits)

lemma ok_or_Some [simp]: "ok_or (Some x) e = Inr x"
  by (simp add: ok_or_def)

lemma try_collect_Inr: "try_collect f xs = Inr ys \<longleftrightarrow> list_all2 (\<lambda>x y. f x = Inr y) xs ys"
proof (induction xs arbitrary: ys)
  case (Cons x xs)
  have "try_collect f (x # xs) = Inr ys \<longleftrightarrow> (\<exists>y zs. f x = Inr y \<and> try_collect f xs = Inr zs \<and> ys = y # zs)"
    by (auto split: sum.splits)
  then show ?case by (auto simp: Cons.IH list_all2_Cons1)
qed auto

lemma and_then_simps [simp]: "and_then (Inr x) f = f x" "and_then (Inl e) f = Inl e"
  by (simp_all add: and_then_def)

lemma and_then_Inr: "and_then r f = Inr y \<longleftrightarrow> (\<exists>x. r = Inr x \<and> f x = Inr y)"
  by (cases r) simp_all

lemma try_fold_append:
  "try_fold f s (xs @ ys) = and_then (try_fold f s xs) (\<lambda>s'. try_fold f s' ys)"
  by (induction xs arbitrary: s) (auto split: sum.split)

lemma try_fold_snoc: "try_fold f s (xs @ [x]) = and_then (try_fold f s xs) (\<lambda>s'. f s' x)"
  by (cases "try_fold f s xs") (auto simp: try_fold_append split: sum.split)

end
