(* ===== verification/Float64.thy ===== *)
theory Float64
  imports Prelude
begin

unbundle bit_operations_syntax

text \<open>
  The part of Rust's \<open>f64\<close> and \<open>i64\<close> that the code uses, on bit patterns: classification,
  \<open>total_cmp\<close>, IEEE comparison, \<open>as\<close> conversions, \<open>round\<close>, and the correctly rounded
  arithmetic operations (round to nearest, ties to even) through exact dyadic numbers
  \<open>(-1) ^ s * m * 2 ^ x\<close>. A NaN result is the canonical quiet NaN: Rust leaves the payload of a
  computed NaN unspecified.

  The lemmas give the order of the bit patterns: the conversion of an \<open>i64\<close> is monotone, it is
  exact below \<open>2 ^ 53\<close>, and the big-endian key of \<open>memcmp\<close> sorts as \<open>total_cmp\<close> does.
\<close>

section \<open>Sign bit arithmetic on 64-bit words\<close>

definition SIGN_MARK :: u64 where
  "SIGN_MARK = 0x8000000000000000"

lemma unat_64: "unat (w :: u64) < 18446744073709551616"
  using unsigned_less [of w] by simp

lemma bit_63_iff: "bit (w :: u64) 63 \<longleftrightarrow> 9223372036854775808 \<le> unat w"
proof -
  have "bit w 63 \<longleftrightarrow> bit (unat w) 63" by (simp add: bit_unsigned_iff)
  also have "\<dots> \<longleftrightarrow> odd (unat w div 9223372036854775808)" by (simp add: bit_iff_odd)
  also have "\<dots> \<longleftrightarrow> 9223372036854775808 \<le> unat w"
  proof -
    have "unat w div 9223372036854775808 < 2"
      using unat_64 [of w] by (simp add: less_mult_imp_div_less)
    then show ?thesis by (cases "9223372036854775808 \<le> unat w") (auto simp: div_if)
  qed
  finally show ?thesis .
qed

lemma unat_not_64: "unat (NOT w) = 18446744073709551615 - unat w" for w :: u64
proof -
  have "NOT w = 18446744073709551615 - w" by (simp add: not_eq_complement)
  then show ?thesis using unat_64 [of w] by (simp add: unat_sub word_le_nat_alt)
qed

lemma SIGN_MARK_power: "SIGN_MARK = 2 ^ 63"
  by (simp add: SIGN_MARK_def)

lemma bit_SIGN_MARK: "bit SIGN_MARK n \<longleftrightarrow> n = 63"
  unfolding SIGN_MARK_power bit_exp_iff by auto

lemma and_SIGN_MARK: "\<not> bit w 63 \<Longrightarrow> w AND SIGN_MARK = 0"
  by (rule bit_eqI) (auto simp: bit_SIGN_MARK bit_and_iff)

lemma unat_add_SIGN_MARK:
  "unat w < 9223372036854775808 \<Longrightarrow> unat (w + SIGN_MARK) = unat w + 9223372036854775808"
  by (simp add: SIGN_MARK_def unat_plus_if')

lemma unat_or_SIGN_MARK:
  "\<not> bit w 63 \<Longrightarrow> unat (w OR SIGN_MARK) = unat w + 9223372036854775808"
  using unat_add_SIGN_MARK [of w] disjunctive_add_eq_or [OF and_SIGN_MARK, of w]
  by (simp add: bit_63_iff)

lemma xor_SIGN_MARK: "w XOR SIGN_MARK = w + SIGN_MARK"
proof (cases "bit w 63")
  case False
  then show ?thesis by (simp add: disjunctive_add_eq_xor and_SIGN_MARK)
next
  case True
  have "w - SIGN_MARK = w AND NOT SIGN_MARK"
    by (rule disjunctive_diff) (use True in \<open>auto simp: bit_SIGN_MARK\<close>)
  also have "\<dots> = w XOR SIGN_MARK"
    by (rule bit_eqI) (use True in \<open>auto simp: bit_SIGN_MARK bit_simps\<close>)
  finally have "w XOR SIGN_MARK = w - SIGN_MARK + (SIGN_MARK + SIGN_MARK)"
    by (simp add: SIGN_MARK_def)
  then show ?thesis by simp
qed

lemma uint_64: "0 \<le> uint (w :: u64)" "uint (w :: u64) < 18446744073709551616"
  using unat_64 [of w] unfolding uint_nat by linarith+

lemma bit_63_uint: "bit (w :: u64) 63 \<longleftrightarrow> 9223372036854775808 \<le> uint w"
  unfolding bit_63_iff uint_nat by linarith

lemma sint_64:
  "sint (w :: i64) =
     (if uint w < 9223372036854775808 then uint w else uint w - 18446744073709551616)"
proof -
  have "take_bit 64 (uint w) = uint w"
    using uint_64 [of w] by (simp add: take_bit_int_eq_self_iff)
  then show ?thesis
    using signed_take_bit_eq_take_bit_minus [of 63 "uint w"] bit_63_uint [of w]
    by (auto simp: sint_uint bit_unsigned_iff)
qed

lemma sint_64_range:
  "- 9223372036854775808 \<le> sint (w :: i64)" "sint (w :: i64) < 9223372036854775808"
  using uint_64 [of w] unfolding sint_64 by presburger+

text \<open>Flipping the sign bit turns the signed order into the unsigned order.\<close>

lemma uint_xor_SIGN_MARK: "uint (w XOR SIGN_MARK) = sint w + 9223372036854775808"
  using uint_64 [of w]
  unfolding xor_SIGN_MARK by (auto simp: sint_64 SIGN_MARK_def uint_plus_if')

lemma uint_not_64: "uint (NOT w) = 18446744073709551615 - uint w" for w :: u64
  using unat_not_64 [of w] unat_64 [of w] unfolding uint_nat by linarith

lemma uint_or_SIGN_MARK: "\<not> bit w 63 \<Longrightarrow> uint (w OR SIGN_MARK) = uint w + 9223372036854775808"
  using unat_or_SIGN_MARK [of w] unfolding uint_nat by linarith

section \<open>Classification and total order\<close>

definition f64_sign :: "f64 \<Rightarrow> bool" where
  "f64_sign b = bit b 63"

definition f64_exp :: "f64 \<Rightarrow> nat" where
  "f64_exp b = unat b div 2 ^ 52 mod 2048"

definition f64_frac :: "f64 \<Rightarrow> nat" where
  "f64_frac b = unat b mod 2 ^ 52"

definition f64_is_nan :: "f64 \<Rightarrow> bool" where
  "f64_is_nan b \<longleftrightarrow> f64_exp b = 2047 \<and> f64_frac b \<noteq> 0"

definition f64_is_infinite :: "f64 \<Rightarrow> bool" where
  "f64_is_infinite b \<longleftrightarrow> f64_exp b = 2047 \<and> f64_frac b = 0"

definition f64_is_finite :: "f64 \<Rightarrow> bool" where
  "f64_is_finite b \<longleftrightarrow> f64_exp b \<noteq> 2047"

definition f64_is_zero :: "f64 \<Rightarrow> bool" where
  "f64_is_zero b \<longleftrightarrow> f64_exp b = 0 \<and> f64_frac b = 0"

definition f64_nan :: f64 where "f64_nan = 0x7FF8000000000000"
definition f64_infinity :: "bool \<Rightarrow> f64" where
  "f64_infinity s = (if s then 0xFFF0000000000000 else 0x7FF0000000000000)"
definition f64_zero :: "bool \<Rightarrow> f64" where
  "f64_zero s = (if s then SIGN_MARK else 0)"

text \<open>\<open>f64::total_cmp\<close>: compare the bits as \<open>i64\<close> after flipping the low bits of negatives.\<close>

definition f64_total_key :: "f64 \<Rightarrow> i64" where
  "f64_total_key b = (if f64_sign b then b XOR 0x7FFFFFFFFFFFFFFF else b)"

definition f64_total_cmp :: "f64 \<Rightarrow> f64 \<Rightarrow> ordering" where
  "f64_total_cmp a b = cmp_ord (sint (f64_total_key a)) (sint (f64_total_key b))"

lemma sint_f64_total_key:
  "sint (f64_total_key b) =
     (if uint b < 9223372036854775808 then uint b else 9223372036854775807 - uint b)"
proof (cases "f64_sign b")
  case True
  then have b: "9223372036854775808 \<le> uint b" by (simp add: f64_sign_def bit_63_uint)
  have mask: "(0x7FFFFFFFFFFFFFFF :: u64) = NOT SIGN_MARK"
    by (simp add: SIGN_MARK_def)
  have "b XOR 0x7FFFFFFFFFFFFFFF = NOT b XOR SIGN_MARK"
    unfolding mask by (rule bit_eqI) (auto simp: bit_simps)
  with True have "sint (f64_total_key b) = sint (NOT b XOR SIGN_MARK)"
    by (simp add: f64_total_key_def)
  also have "\<dots> = 9223372036854775807 - uint b"
    using b uint_64 [of b] uint_not_64 [of b] uint_xor_SIGN_MARK [of "NOT b"]
    by (auto simp: sint_64)
  finally show ?thesis using b by simp
next
  case False
  then show ?thesis
    by (auto simp: f64_total_key_def f64_sign_def bit_63_uint sint_64)
qed

text \<open>IEEE comparison: false on NaN, equal on the two zeros.\<close>

definition f64_eq :: "f64 \<Rightarrow> f64 \<Rightarrow> bool" where
  "f64_eq a b \<longleftrightarrow> \<not> f64_is_nan a \<and> \<not> f64_is_nan b \<and> (a = b \<or> f64_is_zero a \<and> f64_is_zero b)"

definition f64_lt :: "f64 \<Rightarrow> f64 \<Rightarrow> bool" where
  "f64_lt a b \<longleftrightarrow> \<not> f64_is_nan a \<and> \<not> f64_is_nan b \<and> \<not> (f64_is_zero a \<and> f64_is_zero b) \<and>
     f64_total_cmp a b = Less"

definition f64_le :: "f64 \<Rightarrow> f64 \<Rightarrow> bool" where
  "f64_le a b \<longleftrightarrow> f64_lt a b \<or> f64_eq a b"

section \<open>Exact dyadic numbers and rounding\<close>

fun bit_len :: "nat \<Rightarrow> nat" where
  "bit_len n = (if n = 0 then 0 else Suc (bit_len (n div 2)))"

declare bit_len.simps [simp del]

text \<open>\<open>m * 2 ^ k\<close> rounded to the nearest integer, ties to even.\<close>

definition rne_shift :: "nat \<Rightarrow> int \<Rightarrow> nat" where
  "rne_shift m k =
     (if 0 \<le> k then m * 2 ^ nat k
      else let d = 2 ^ nat (- k); q = m div d; r = m mod d
           in if d < 2 * r \<or> (2 * r = d \<and> odd q) then q + 1 else q)"

text \<open>The magnitude bits of the \<open>f64\<close> nearest to \<open>m * 2 ^ x\<close>; too large becomes infinity.\<close>

definition f64_magnitude :: "nat \<Rightarrow> int \<Rightarrow> nat" where
  "f64_magnitude m x =
     (if m = 0 then 0
      else let e = int (bit_len m) - 1 + x;
               u = max (e - 52) (- 1074);
               q = rne_shift m (x - u)
           in min (if e < - 1022 then q else nat (e + 1022) * 2 ^ 52 + q) (2047 * 2 ^ 52))"

definition f64_of_dyadic :: "bool \<Rightarrow> nat \<Rightarrow> int \<Rightarrow> f64" where
  "f64_of_dyadic s m x = f64_zero s + word_of_nat (f64_magnitude m x)"

text \<open>A finite \<open>f64\<close> is \<open>m * 2 ^ x\<close> up to its sign.\<close>

definition f64_dyadic :: "f64 \<Rightarrow> nat \<times> int" where
  "f64_dyadic b =
     (if f64_exp b = 0 then (f64_frac b, - 1074)
      else (f64_frac b + 2 ^ 52, int (f64_exp b) - 1075))"

definition dyadic_trunc :: "nat \<Rightarrow> int \<Rightarrow> nat" where
  "dyadic_trunc m x = (if 0 \<le> x then m * 2 ^ nat x else m div 2 ^ nat (- x))"

definition i64_as_f64 :: "i64 \<Rightarrow> f64" where
  "i64_as_f64 i = f64_of_dyadic (sint i < 0) (nat \<bar>sint i\<bar>) 0"

text \<open>\<open>f as i64\<close>: truncation towards zero, saturating; 0 for NaN.\<close>

definition f64_as_i64 :: "f64 \<Rightarrow> i64" where
  "f64_as_i64 b =
     (if f64_is_nan b then 0
      else if f64_is_infinite b
        then (if f64_sign b then 0x8000000000000000 else 0x7FFFFFFFFFFFFFFF)
      else let t = int (case f64_dyadic b of (m, x) \<Rightarrow> dyadic_trunc m x);
               v = (if f64_sign b then - t else t)
           in word_of_int (max (- (2 ^ 63)) (min (2 ^ 63 - 1) v)))"

text \<open>\<open>f.round()\<close>: half away from zero.\<close>

definition f64_round :: "f64 \<Rightarrow> f64" where
  "f64_round b =
     (if f64_is_finite b
      then (case f64_dyadic b of (m, x) \<Rightarrow>
              if 0 \<le> x then b
              else f64_of_dyadic (f64_sign b) ((m + 2 ^ (nat (- x) - 1)) div 2 ^ nat (- x)) 0)
      else b)"

text \<open>\<open>f as f32\<close>: the nearest \<open>f32\<close>, ties to even.\<close>

definition f32_magnitude :: "nat \<Rightarrow> int \<Rightarrow> nat" where
  "f32_magnitude m x =
     (if m = 0 then 0
      else let e = int (bit_len m) - 1 + x;
               u = max (e - 23) (- 149);
               q = rne_shift m (x - u)
           in min (if e < - 126 then q else nat (e + 126) * 2 ^ 23 + q) (255 * 2 ^ 23))"

definition f64_as_f32 :: "f64 \<Rightarrow> f32" where
  "f64_as_f32 b =
     (if f64_is_nan b then 0x7FC00000
      else (if f64_sign b then 0x80000000 else 0) +
        (if f64_is_infinite b then 0x7F800000
         else (case f64_dyadic b of (m, x) \<Rightarrow> word_of_nat (f32_magnitude m x))))"

text \<open>
  Addition, subtraction, multiplication and division. The quotient is computed to 128 more bits with
  a sticky last bit, which rounds as the exact quotient does.
\<close>

definition f64_neg :: "f64 \<Rightarrow> f64" where
  "f64_neg b = b XOR SIGN_MARK"

definition f64_signed :: "f64 \<Rightarrow> int \<times> int" where
  "f64_signed b = (case f64_dyadic b of (m, x) \<Rightarrow> (if f64_sign b then - int m else int m, x))"

definition f64_add :: "f64 \<Rightarrow> f64 \<Rightarrow> f64" where
  "f64_add a b =
     (if f64_is_nan a \<or> f64_is_nan b then f64_nan
      else if f64_is_infinite a
        then (if f64_is_infinite b \<and> f64_sign a \<noteq> f64_sign b then f64_nan else a)
      else if f64_is_infinite b then b
      else (case (f64_signed a, f64_signed b) of ((m, x), (n, y)) \<Rightarrow>
              let e = min x y; s = m * 2 ^ nat (x - e) + n * 2 ^ nat (y - e)
              in if s = 0 then f64_zero (f64_sign a \<and> f64_sign b)
                 else f64_of_dyadic (s < 0) (nat \<bar>s\<bar>) e))"

definition f64_sub :: "f64 \<Rightarrow> f64 \<Rightarrow> f64" where
  "f64_sub a b = (if f64_is_nan b then f64_nan else f64_add a (f64_neg b))"

definition f64_mul :: "f64 \<Rightarrow> f64 \<Rightarrow> f64" where
  "f64_mul a b =
     (let s = (f64_sign a \<noteq> f64_sign b) in
      if f64_is_nan a \<or> f64_is_nan b then f64_nan
      else if f64_is_infinite a \<or> f64_is_infinite b
        then (if f64_is_zero a \<or> f64_is_zero b then f64_nan else f64_infinity s)
      else (case (f64_dyadic a, f64_dyadic b) of ((m, x), (n, y)) \<Rightarrow> f64_of_dyadic s (m * n) (x + y)))"

definition f64_div :: "f64 \<Rightarrow> f64 \<Rightarrow> f64" where
  "f64_div a b =
     (let s = (f64_sign a \<noteq> f64_sign b) in
      if f64_is_nan a \<or> f64_is_nan b then f64_nan
      else if f64_is_infinite a then (if f64_is_infinite b then f64_nan else f64_infinity s)
      else if f64_is_infinite b then f64_zero s
      else if f64_is_zero b then (if f64_is_zero a then f64_nan else f64_infinity s)
      else (case (f64_dyadic a, f64_dyadic b) of ((m, x), (n, y)) \<Rightarrow>
              let q = m * 2 ^ 128 div n; r = m * 2 ^ 128 mod n
              in f64_of_dyadic s (2 * q + (if r = 0 then 0 else 1)) (x - y - 129)))"

text \<open>\<open>f.sqrt()\<close>: the integer root of a scaled mantissa, again with a sticky last bit.\<close>

fun isqrt :: "nat \<Rightarrow> nat" where
  "isqrt n = (if n = 0 then 0 else let r = 2 * isqrt (n div 4) in if (r + 1) * (r + 1) \<le> n then r + 1 else r)"

declare isqrt.simps [simp del]

definition f64_sqrt :: "f64 \<Rightarrow> f64" where
  "f64_sqrt b =
     (if f64_is_nan b then f64_nan
      else if f64_is_zero b then b
      else if f64_sign b then f64_nan
      else if f64_is_infinite b then b
      else (case f64_dyadic b of (m, x) \<Rightarrow>
              let s = (if even x then 128 else 129); n = m * 2 ^ s; r = isqrt n
              in f64_of_dyadic False (2 * r + (if r * r = n then 0 else 1)) ((x - int s) div 2 - 1)))"

section \<open>Bit lengths and rounding\<close>

lemma bit_len_bounds: "0 < n \<Longrightarrow> 2 ^ (bit_len n - 1) \<le> n \<and> n < 2 ^ bit_len n \<and> 0 < bit_len n"
proof (induction n rule: bit_len.induct)
  case (1 n)
  show ?case
  proof (cases "n div 2 = 0")
    case True
    with "1.prems" have "n = 1" by simp
    then show ?thesis by (simp add: bit_len.simps)
  next
    case False
    with "1" have IH: "2 ^ (bit_len (n div 2) - 1) \<le> n div 2" "n div 2 < 2 ^ bit_len (n div 2)"
      "0 < bit_len (n div 2)" by auto
    have len: "bit_len n = Suc (bit_len (n div 2))"
      using "1.prems" by (subst bit_len.simps) simp
    have "(2 :: nat) ^ bit_len (n div 2) = 2 * 2 ^ (bit_len (n div 2) - 1)"
      using IH(3) by (simp flip: power_Suc)
    moreover have "2 * p \<le> n \<and> n < 4 * p" if "p \<le> n div 2" "n div 2 < 2 * p" for p
      using that by presburger
    ultimately show ?thesis using IH(1,2) len by simp
  qed
qed

lemmas bit_len_lower = bit_len_bounds [THEN conjunct1]
  and bit_len_upper = bit_len_bounds [THEN conjunct2, THEN conjunct1]
  and bit_len_pos = bit_len_bounds [THEN conjunct2, THEN conjunct2]

lemma bit_len_le:
  assumes "0 < n" and "n < 2 ^ k"
  shows "bit_len n \<le> k"
proof (rule ccontr)
  assume "\<not> bit_len n \<le> k"
  then have "(2 :: nat) ^ k \<le> 2 ^ (bit_len n - 1)" by (intro power_increasing) auto
  with assms bit_len_lower [of n] show False by linarith
qed

lemma bit_len_mono: "0 < m \<Longrightarrow> m \<le> n \<Longrightarrow> bit_len m \<le> bit_len n"
  using bit_len_le [of m "bit_len n"] bit_len_upper [of n] by simp

lemma rne_shift_mono:
  assumes "m \<le> n"
  shows "rne_shift m k \<le> rne_shift n k"
proof (cases "0 \<le> k")
  case True
  with assms show ?thesis by (simp add: rne_shift_def)
next
  case False
  define d :: nat where "d = 2 ^ nat (- k)"
  have q: "m div d \<le> n div d" using assms by (rule div_le_mono)
  have eq: "rne_shift a k = (if d < 2 * (a mod d) \<or> (2 * (a mod d) = d \<and> odd (a div d))
      then a div d + 1 else a div d)" for a
    using False by (simp add: rne_shift_def d_def Let_def)
  show ?thesis
  proof (cases "m div d = n div d")
    case True
    with assms have "m mod d \<le> n mod d"
      using div_mult_mod_eq [of m d] div_mult_mod_eq [of n d] by (metis add_le_cancel_left)
    with True show ?thesis by (auto simp: eq)
  next
    case False
    with q have "m div d + 1 \<le> n div d" by simp
    then show ?thesis by (auto simp: eq)
  qed
qed

lemma rne_shift_pow2:
  assumes "0 \<le> int j + k"
  shows "rne_shift (2 ^ j) k = 2 ^ nat (int j + k)"
proof (cases "0 \<le> k")
  case True
  then show ?thesis by (simp add: rne_shift_def nat_add_distrib power_add)
next
  case False
  with assms have j: "nat (- k) \<le> j" and nk: "nat (int j + k) = j - nat (- k)" by auto
  then have "(2 :: nat) ^ j = 2 ^ (j - nat (- k)) * 2 ^ nat (- k)"
    by (simp flip: power_add)
  with False nk show ?thesis by (simp add: rne_shift_def)
qed

lemma rne_shift_norm:
  assumes "0 < m"
  shows "2 ^ 52 \<le> rne_shift m (53 - int (bit_len m))" "rne_shift m (53 - int (bit_len m)) \<le> 2 ^ 53"
proof -
  let ?b = "bit_len m"
  have b: "0 < ?b" "2 ^ (?b - 1) \<le> m" "m \<le> 2 ^ ?b"
    using assms bit_len_bounds [of m] by auto
  have "rne_shift (2 ^ (?b - 1)) (53 - int ?b) = 2 ^ 52"
    using b(1) by (subst rne_shift_pow2) auto
  then show "2 ^ 52 \<le> rne_shift m (53 - int ?b)"
    using rne_shift_mono [OF b(2), of "53 - int ?b"] by simp
  have "rne_shift (2 ^ ?b) (53 - int ?b) = 2 ^ 53"
    by (subst rne_shift_pow2) auto
  then show "rne_shift m (53 - int ?b) \<le> 2 ^ 53"
    using rne_shift_mono [OF b(3), of "53 - int ?b"] by simp
qed

text \<open>Integers below \<open>2 ^ 64\<close> have a normal magnitude, ordered as the integers are.\<close>

lemma f64_magnitude_int:
  assumes "0 < m" and "m < 2 ^ 64"
  shows "f64_magnitude m 0 = (bit_len m + 1021) * 2 ^ 52 + rne_shift m (53 - int (bit_len m))"
proof -
  let ?b = "bit_len m"
  have b: "0 < ?b" "?b \<le> 64"
    using assms bit_len_pos [of m] bit_len_le [of m 64] by auto
  have "nat (int ?b - 1 + 1022) = ?b + 1021" using b by simp
  moreover have "(?b + 1021) * 2 ^ 52 + rne_shift m (53 - int ?b) \<le> 2047 * 2 ^ 52"
  proof -
    have "(?b + 1021) * 2 ^ 52 \<le> (1085 :: nat) * 2 ^ 52"
      using b(2) by (intro mult_le_mono) auto
    with rne_shift_norm(2) [OF assms(1)] show ?thesis by simp
  qed
  ultimately show ?thesis
    using assms(1) b by (simp add: f64_magnitude_def Let_def max_def)
qed

lemma f64_magnitude_mono:
  assumes "m \<le> n" and "n < 2 ^ 64"
  shows "f64_magnitude m 0 \<le> f64_magnitude n 0"
proof (cases "m = 0")
  case True
  then show ?thesis by (simp add: f64_magnitude_def)
next
  case False
  with assms have m: "0 < m" "m < 2 ^ 64" and n: "0 < n" by auto
  show ?thesis
  proof (cases "bit_len m = bit_len n")
    case True
    with rne_shift_mono [OF assms(1), of "53 - int (bit_len n)"] show ?thesis
      by (simp add: f64_magnitude_int [OF m] f64_magnitude_int [OF n assms(2)])
  next
    case False
    with bit_len_mono [OF m(1) assms(1)] have "bit_len m + 1 \<le> bit_len n" by simp
    then have "(bit_len m + 1021 + 1) * 2 ^ 52 \<le> (bit_len n + 1021) * 2 ^ 52"
      by (intro mult_le_mono) auto
    with rne_shift_norm [OF m(1)] rne_shift_norm [OF n] show ?thesis
      by (simp add: f64_magnitude_int [OF m] f64_magnitude_int [OF n assms(2)])
  qed
qed

lemma rne_shift_exact: "0 < m \<Longrightarrow> m < 2 ^ 53 \<Longrightarrow>
  rne_shift m (53 - int (bit_len m)) = m * 2 ^ (53 - bit_len m)"
  using bit_len_le [of m 53] by (simp add: rne_shift_def nat_diff_distrib)

lemma f64_magnitude_strict:
  assumes "m < n" and "m < 2 ^ 53" and "n < 2 ^ 64"
  shows "f64_magnitude m 0 < f64_magnitude n 0"
proof (cases "m = 0")
  case True
  with assms rne_shift_norm(1) [of n] show ?thesis
    by (simp add: f64_magnitude_int) (simp add: f64_magnitude_def)
next
  case False
  with assms have m: "0 < m" "m < 2 ^ 64" and n: "0 < n" by auto
  have ex: "rne_shift m (53 - int (bit_len m)) = m * 2 ^ (53 - bit_len m)"
    using m(1) assms(2) by (rule rne_shift_exact)
  have len: "bit_len m \<le> 53" using bit_len_le [OF m(1) assms(2)] .
  show ?thesis
  proof (cases "bit_len m = bit_len n")
    case True
    with len have "rne_shift n (53 - int (bit_len n)) = n * 2 ^ (53 - bit_len m)"
      by (simp add: rne_shift_def nat_diff_distrib)
    with ex True assms(1) show ?thesis
      by (simp add: f64_magnitude_int [OF m] f64_magnitude_int [OF n assms(3)])
  next
    case False
    with bit_len_mono [OF m(1)] assms(1) have "bit_len m + 1 \<le> bit_len n"
      by (simp add: Suc_le_eq le_neq_implies_less)
    then have step: "(bit_len m + 1021 + 1) * 2 ^ 52 \<le> (bit_len n + 1021) * 2 ^ 52"
      by (intro mult_le_mono) auto
    have "m * 2 ^ (53 - bit_len m) < 2 ^ bit_len m * 2 ^ (53 - bit_len m)"
      using bit_len_upper [OF m(1)] by simp
    also have "\<dots> = 2 ^ 53" using len by (simp flip: power_add)
    finally show ?thesis
      using step rne_shift_norm(1) [OF n] ex
      by (simp add: f64_magnitude_int [OF m] f64_magnitude_int [OF n assms(3)])
  qed
qed

section \<open>The order and exactness of converted integers\<close>

lemma f64_magnitude_bound: "f64_magnitude m x \<le> 2047 * 2 ^ 52"
  by (simp add: f64_magnitude_def Let_def)

lemma unat_f64_of_dyadic:
  "unat (f64_of_dyadic s m x) = (if s then 9223372036854775808 else 0) + f64_magnitude m x"
proof -
  have mag: "f64_magnitude m x < 9223372036854775808"
    using f64_magnitude_bound [of m x] by simp
  then have "unat (word_of_nat (f64_magnitude m x) :: u64) = f64_magnitude m x"
    by (simp add: unat_of_nat take_bit_eq_mod)
  with mag show ?thesis
    using unat_add_SIGN_MARK [of "word_of_nat (f64_magnitude m x)"]
    by (simp add: f64_of_dyadic_def f64_zero_def add.commute)
qed

lemma total_key_f64_of_dyadic:
  "sint (f64_total_key (f64_of_dyadic s m x)) =
     (if s then - 1 - int (f64_magnitude m x) else int (f64_magnitude m x))"
  using f64_magnitude_bound [of m x]
  unfolding sint_f64_total_key uint_nat unat_f64_of_dyadic by simp

text \<open>
  The signed \<open>total_cmp\<close> key of a converted integer: monotone, and strictly so where the
  smaller-magnitude integer is exactly representable.
\<close>

definition i64_key :: "i64 \<Rightarrow> int" where
  "i64_key i = sint (f64_total_key (i64_as_f64 i))"

lemma i64_key_eq:
  "i64_key i = (if sint i < 0 then - 1 - int (f64_magnitude (nat (- sint i)) 0)
                else int (f64_magnitude (nat (sint i)) 0))"
  by (simp add: i64_key_def i64_as_f64_def total_key_f64_of_dyadic)

lemma nat_sint_bound: "nat \<bar>sint (i :: i64)\<bar> < 2 ^ 64"
  using sint_64_range [of i] by auto

lemma i64_key_mono:
  assumes "sint i \<le> sint j"
  shows "i64_key i \<le> i64_key j"
proof -
  have "f64_magnitude (nat (- sint j)) 0 \<le> f64_magnitude (nat (- sint i)) 0" if "sint j < 0"
    using that assms nat_sint_bound [of i] by (intro f64_magnitude_mono) auto
  moreover have "f64_magnitude (nat (sint i)) 0 \<le> f64_magnitude (nat (sint j)) 0" if "0 \<le> sint i"
    using that assms nat_sint_bound [of j] by (intro f64_magnitude_mono) auto
  ultimately show ?thesis using assms by (auto simp: i64_key_eq)
qed

lemma i64_key_strict:
  assumes "sint i < sint j" and "\<bar>sint i\<bar> < 2 ^ 53 \<or> \<bar>sint j\<bar> < 2 ^ 53"
  shows "i64_key i < i64_key j"
proof -
  consider (pos) "0 \<le> sint i" | (neg) "sint j < 0" | (mixed) "sint i < 0" "0 \<le> sint j" by linarith
  then show ?thesis
  proof cases
    case pos
    with assms nat_sint_bound [of j]
    have "f64_magnitude (nat (sint i)) 0 < f64_magnitude (nat (sint j)) 0"
      by (intro f64_magnitude_strict) auto
    with pos assms(1) show ?thesis by (simp add: i64_key_eq)
  next
    case neg
    with assms nat_sint_bound [of i]
    have "f64_magnitude (nat (- sint j)) 0 < f64_magnitude (nat (- sint i)) 0"
      by (intro f64_magnitude_strict) auto
    with neg assms(1) show ?thesis by (simp add: i64_key_eq)
  qed (simp add: i64_key_eq)
qed

text \<open>Integers below \<open>2 ^ 53\<close> survive the round trip through \<open>f64\<close>.\<close>

lemma f64_fields_of_dyadic:
  assumes "f64_magnitude m x = e * 2 ^ 52 + f" and "f < 2 ^ 52" and "e < 2048"
  shows "f64_exp (f64_of_dyadic s m x) = e" "f64_frac (f64_of_dyadic s m x) = f"
    "f64_sign (f64_of_dyadic s m x) = s"
proof -
  have u: "unat (f64_of_dyadic s m x) = (if s then 2048 else 0) * 2 ^ 52 + (e * 2 ^ 52 + f)"
    using unat_f64_of_dyadic [of s m x] assms(1) by simp
  define k where "k = (if s then 2048 else 0) + e"
  have "unat (f64_of_dyadic s m x) = k * 2 ^ 52 + f"
    unfolding u k_def by (simp add: algebra_simps)
  with assms(2) have d: "unat (f64_of_dyadic s m x) div 2 ^ 52 = k"
    and m: "unat (f64_of_dyadic s m x) mod 2 ^ 52 = f"
    by simp_all
  show "f64_exp (f64_of_dyadic s m x) = e"
    using assms(3) unfolding f64_exp_def d k_def by simp
  show "f64_frac (f64_of_dyadic s m x) = f"
    unfolding f64_frac_def m by simp
  show "f64_sign (f64_of_dyadic s m x) = s"
    using assms f64_magnitude_bound [of m x]
    unfolding f64_sign_def bit_63_iff unat_f64_of_dyadic by auto
qed

lemma f64_of_small_int:
  assumes "m < 2 ^ 53"
  shows "f64_exp (f64_of_dyadic s m 0) \<noteq> 2047" "f64_sign (f64_of_dyadic s m 0) = s"
    "f64_dyadic (f64_of_dyadic s m 0) =
       (if m = 0 then (0, - 1074) else (m * 2 ^ (53 - bit_len m), int (bit_len m) - 53))"
proof -
  have "f64_exp (f64_of_dyadic s m 0) \<noteq> 2047 \<and> f64_sign (f64_of_dyadic s m 0) = s \<and>
    f64_dyadic (f64_of_dyadic s m 0) =
       (if m = 0 then (0, - 1074) else (m * 2 ^ (53 - bit_len m), int (bit_len m) - 53))"
  proof (cases "m = 0")
    case True
    then have "f64_magnitude m 0 = 0 * 2 ^ 52 + 0" by (simp add: f64_magnitude_def)
    from f64_fields_of_dyadic [OF this, of s] True show ?thesis
      by (simp add: f64_dyadic_def)
  next
    case False
    let ?l = "bit_len m"
    define f where "f = m * 2 ^ (53 - ?l) - 2 ^ 52"
    have len: "?l \<le> 53" "0 < ?l" using bit_len_le [OF _ assms] bit_len_pos False by auto
    have ex: "rne_shift m (53 - int ?l) = m * 2 ^ (53 - ?l)"
      using rne_shift_exact assms False by simp
    have "m * 2 ^ (53 - ?l) < 2 ^ ?l * 2 ^ (53 - ?l)" using bit_len_upper [of m] False by simp
    also have "\<dots> = 2 ^ 53" using len by (simp flip: power_add)
    finally have f: "f < 2 ^ 52" "m * 2 ^ (53 - ?l) = f + 2 ^ 52"
      using rne_shift_norm(1) [of m] False ex by (auto simp: f_def)
    have "f64_magnitude m 0 = (?l + 1022) * 2 ^ 52 + f"
      using f64_magnitude_int [of m] False assms ex f(2) by simp
    from f64_fields_of_dyadic [OF this f(1), of s] len
    have fields: "f64_exp (f64_of_dyadic s m 0) = ?l + 1022" "f64_frac (f64_of_dyadic s m 0) = f"
      "f64_sign (f64_of_dyadic s m 0) = s"
      by simp_all
    then show ?thesis using f(2) len False by (simp add: f64_dyadic_def)
  qed
  then show "f64_exp (f64_of_dyadic s m 0) \<noteq> 2047" "f64_sign (f64_of_dyadic s m 0) = s"
    "f64_dyadic (f64_of_dyadic s m 0) =
       (if m = 0 then (0, - 1074) else (m * 2 ^ (53 - bit_len m), int (bit_len m) - 53))"
    by blast+
qed

lemma f64_as_i64_of_exact:
  assumes "\<bar>sint i\<bar> < 2 ^ 53"
  shows "f64_as_i64 (i64_as_f64 i) = i"
proof -
  define m where "m = nat \<bar>sint i\<bar>"
  define b where "b = i64_as_f64 i"
  have b: "b = f64_of_dyadic (sint i < 0) m 0" by (simp add: b_def i64_as_f64_def m_def)
  have m53: "m < 2 ^ 53" using assms by (simp add: m_def)
  note fields = f64_of_small_int [OF m53, of "sint i < 0", folded b]
  have "dyadic_trunc (m * 2 ^ (53 - bit_len m)) (int (bit_len m) - 53) = m" if "m \<noteq> 0"
    using bit_len_le [OF _ m53] that by (auto simp: dyadic_trunc_def nat_diff_distrib)
  then have "(case f64_dyadic b of (m', x) \<Rightarrow> dyadic_trunc m' x) = m"
    unfolding fields(3) by (auto simp: dyadic_trunc_def)
  then have "f64_as_i64 b = word_of_int (max (- (2 ^ 63)) (min (2 ^ 63 - 1) (sint i)))"
    using fields(1,2) by (auto simp: f64_as_i64_def f64_is_nan_def f64_is_infinite_def m_def)
  also have "max (- (2 ^ 63)) (min (2 ^ 63 - 1) (sint i)) = sint i"
    using sint_64_range [of i] by auto
  also have "word_of_int (sint i) = i" by simp
  finally show ?thesis by (simp add: b_def)
qed

section \<open>Integer roots\<close>

lemma isqrt_bounds: "isqrt n * isqrt n \<le> n \<and> n < (isqrt n + 1) * (isqrt n + 1)"
proof (induction n rule: isqrt.induct)
  case (1 n)
  show ?case
  proof (cases "n = 0")
    case True
    then show ?thesis by (simp add: isqrt.simps)
  next
    case False
    define r where "r = isqrt (n div 4)"
    from "1.IH" [OF False] have lo: "r * r \<le> n div 4" and hi: "n div 4 < (r + 1) * (r + 1)"
      by (simp_all add: r_def)
    have "n div 4 + 1 \<le> (r + 1) * (r + 1)" using hi by simp
    then have "4 * (n div 4) + 4 \<le> 4 * ((r + 1) * (r + 1))" by linarith
    moreover have "n < 4 * (n div 4) + 4" by presburger
    ultimately have hi': "n < (2 * r + 2) * (2 * r + 2)" by (simp add: algebra_simps)
    have "4 * (r * r) \<le> 4 * (n div 4)" using lo by simp
    moreover have "4 * (n div 4) \<le> n" by presburger
    ultimately have lo': "(2 * r) * (2 * r) \<le> n" by (simp add: algebra_simps)
    have eq: "isqrt n = (if (2 * r + 1) * (2 * r + 1) \<le> n then 2 * r + 1 else 2 * r)"
      using False by (subst isqrt.simps) (simp add: r_def Let_def)
    show ?thesis
    proof (cases "(2 * r + 1) * (2 * r + 1) \<le> n")
      case True
      then have "isqrt n = 2 * r + 1" using eq by simp
      then show ?thesis using True hi' by simp
    next
      case False
      then have "isqrt n = 2 * r" using eq by simp
      then show ?thesis using False lo' by simp
    qed
  qed
qed

section \<open>IEEE comparison as an integer key\<close>

text \<open>Away from NaN, comparing floats is comparing these integers; both zeros have the key 0.\<close>

definition f64_ieee_key :: "f64 \<Rightarrow> int" where
  "f64_ieee_key b = (if f64_is_zero b then 0 else sint (f64_total_key b))"

lemma f64_is_zero_iff: "f64_is_zero b \<longleftrightarrow> uint b = 0 \<or> uint b = 9223372036854775808"
proof -
  define q where "q = unat b div 4503599627370496"
  define r where "r = unat b mod 4503599627370496"
  have u: "unat b = q * 4503599627370496 + r" "r < 4503599627370496" by (simp_all add: q_def r_def)
  then have "q < 4096" using unat_64 [of b] by linarith
  have "q mod 2048 = 0 \<longleftrightarrow> q = 0 \<or> q = 2048"
  proof
    assume "q mod 2048 = 0"
    then obtain k where k: "q = 2048 * k" by (auto simp: mod_eq_0_iff_dvd elim: dvdE)
    with \<open>q < 4096\<close> have "k = 0 \<or> k = 1" by auto
    with k show "q = 0 \<or> q = 2048" by auto
  qed auto
  then have "f64_is_zero b \<longleftrightarrow> (q = 0 \<or> q = 2048) \<and> r = 0"
    unfolding f64_is_zero_def f64_exp_def f64_frac_def by (simp add: q_def r_def)
  also have "\<dots> \<longleftrightarrow> unat b = 0 \<or> unat b = 9223372036854775808"
    using u(1) by (auto simp: q_def r_def)
  also have "\<dots> \<longleftrightarrow> uint b = 0 \<or> uint b = 9223372036854775808"
    unfolding uint_nat of_nat_eq_0_iff [where ?'a = int] int_eq_iff_numeral ..
  finally show ?thesis .
qed

lemma f64_ieee_key_cases:
  "f64_is_zero b \<and> f64_ieee_key b = 0 \<or>
   \<not> f64_is_zero b \<and> 0 < f64_ieee_key b \<and> f64_ieee_key b = sint (f64_total_key b) \<or>
   \<not> f64_is_zero b \<and> f64_ieee_key b < - 1 \<and> f64_ieee_key b = sint (f64_total_key b)"
  using uint_64 [of b] order_le_imp_less_or_eq [OF uint_64(1) [of b]]
  by (cases "uint b < 9223372036854775808") (auto simp: f64_ieee_key_def sint_f64_total_key f64_is_zero_iff)

lemma zero_total_key: "f64_is_zero b \<Longrightarrow> sint (f64_total_key b) = 0 \<or> sint (f64_total_key b) = - 1"
  by (auto simp: sint_f64_total_key f64_is_zero_iff)

lemma f64_key_cmp:
  assumes "\<not> f64_is_nan a" and "\<not> f64_is_nan b"
  shows "f64_lt a b \<longleftrightarrow> f64_ieee_key a < f64_ieee_key b"
    and "f64_eq a b \<longleftrightarrow> f64_ieee_key a = f64_ieee_key b"
    and "f64_le a b \<longleftrightarrow> f64_ieee_key a \<le> f64_ieee_key b"
proof -
  have inj: "a = b \<longleftrightarrow> sint (f64_total_key a) = sint (f64_total_key b)"
    using uint_64 [of a] uint_64 [of b] unfolding sint_f64_total_key word_uint_eq_iff by presburger
  show lt: "f64_lt a b \<longleftrightarrow> f64_ieee_key a < f64_ieee_key b"
    using f64_ieee_key_cases [of a] f64_ieee_key_cases [of b] zero_total_key [of a] zero_total_key [of b] assms
    by (auto simp: f64_lt_def f64_total_cmp_def)
  show eq: "f64_eq a b \<longleftrightarrow> f64_ieee_key a = f64_ieee_key b"
    using f64_ieee_key_cases [of a] f64_ieee_key_cases [of b] zero_total_key [of a] zero_total_key [of b] assms
    by (auto simp: f64_eq_def inj)
  show "f64_le a b \<longleftrightarrow> f64_ieee_key a \<le> f64_ieee_key b"
    unfolding f64_le_def lt eq by auto
qed

lemma f64_ieee_key_le_infinity:
  assumes "\<not> f64_is_nan b"
  shows "f64_ieee_key b \<le> f64_ieee_key (f64_infinity False)"
proof -
  have inf: "uint (f64_infinity False) = 9218868437227405312" by (simp add: f64_infinity_def)
  then have key: "f64_ieee_key (f64_infinity False) = 9218868437227405312"
    by (simp add: f64_ieee_key_def f64_is_zero_iff sint_f64_total_key)
  have "uint b \<le> 9218868437227405312" if "uint b < 9223372036854775808"
  proof -
    define q where "q = unat b div 4503599627370496"
    define r where "r = unat b mod 4503599627370496"
    have u: "unat b = q * 4503599627370496 + r" "r < 4503599627370496" by (simp_all add: q_def r_def)
    have "unat b < 9223372036854775808" using that unfolding uint_nat by linarith
    then have "q < 2048" using u by linarith
    then have "f64_exp b = q" "f64_frac b = r" by (simp_all add: f64_exp_def f64_frac_def q_def r_def)
    then have "q < 2047 \<or> r = 0" using assms \<open>q < 2048\<close> by (auto simp: f64_is_nan_def)
    then have "unat b \<le> 9218868437227405312" using u \<open>q < 2048\<close> by linarith
    then show ?thesis unfolding uint_nat by linarith
  qed
  then have "f64_ieee_key b \<le> 9218868437227405312"
    using uint_64 [of b] by (auto simp: f64_ieee_key_def sint_f64_total_key)
  then show ?thesis unfolding key .
qed

end
