(* ===== verification/Value.thy ===== *)
theory Value
  imports Float64 "HOL-Library.Product_Lexorder"
begin

unbundle bit_operations_syntax

text \<open>
  \<open>retia-core/src/data/value.rs\<close>: the values of the database and their order.

  A \<open>String\<close> is its UTF-8 bytes (the order of \<open>str\<close> is the order of the bytes), a \<open>Uuid\<close> its 16
  bytes, a \<open>Regex\<close> its source text (equality, order and hash of \<open>RegexWrapper\<close> read nothing
  else), a \<open>JsonValue\<close> the text its \<open>to_string\<close> prints (what \<open>JsonData\<close> orders and stores), and
  a \<open>BTreeSet<DataValue>\<close> the list of its elements in ascending order.

  What comes from third-party crates is a parameter: the record \<open>ext\<close> holds the order of
  \<open>ordered_float::OrderedFloat\<close>, serde\_json's and regex's parsers, \<open>Uuid::try_parse\<close>, base64's decoder,
  chrono's \<open>parse_from_rfc3339\<close> (microseconds since the epoch), the text of serde\_json's \<open>json!\<close> on a
  scalar, and the MessagePack writer and reader of rmp\_serde.
  \<open>ext_ord\<close> states the documented fact that \<open>OrderedFloat\<close> is totally ordered.
\<close>

section \<open>Data\<close>

datatype rnum = IntN i64 | FloatN f64

datatype vector = F32 "f32 list" | F64 "f64 list"

record validity =
  timestamp :: i64
  is_assert :: bool

datatype data_value =
    Null
  | Bool bool
  | Num rnum
  | Str bytes
  | Bytes bytes
  | Uuid bytes
  | Regex bytes
  | List "data_value list"
  | Set "data_value list"
  | Vec vector
  | Json bytes
  | Validity validity
  | Bot

type_synonym tuple = "data_value list"

record ext =
  of32_cmp :: "f32 \<Rightarrow> f32 \<Rightarrow> ordering"
  of64_cmp :: "f64 \<Rightarrow> f64 \<Rightarrow> ordering"
  json_from_slice :: "bytes \<Rightarrow> bytes option"
  regex_from_str :: "bytes \<Rightarrow> bytes option"
  uuid_try_parse :: "bytes \<Rightarrow> bytes option"
  base64_decode :: "bytes \<Rightarrow> bytes option"
  rfc3339_micros :: "bytes \<Rightarrow> int option"
  json_macro :: "data_value \<Rightarrow> bytes"
  json_f32 :: "f32 \<Rightarrow> bytes"
  rmp_serialize :: "data_value list \<Rightarrow> bytes option"
  rmp_from_slice :: "bytes \<Rightarrow> data_value list option"

section \<open>Order\<close>

definition num_get_float :: "rnum \<Rightarrow> f64" where
  "num_get_float n = (case n of IntN i \<Rightarrow> i64_as_f64 i | FloatN f \<Rightarrow> f)"

definition num_get_int :: "rnum \<Rightarrow> i64 option" where
  "num_get_int n =
     (case n of
        IntN i \<Rightarrow> Some i
      | FloatN f \<Rightarrow> if f64_eq (f64_round f) f then Some (f64_as_i64 f) else None)"

fun cmp_num :: "rnum \<Rightarrow> rnum \<Rightarrow> ordering" where
  "cmp_num (IntN i) (FloatN r) =
     (case f64_total_cmp (i64_as_f64 i) r of
        Less \<Rightarrow> Less | Equal \<Rightarrow> Less | Greater \<Rightarrow> Greater)"
| "cmp_num (FloatN l) (IntN i) =
     (case f64_total_cmp l (i64_as_f64 i) of
        Less \<Rightarrow> Less | Equal \<Rightarrow> Greater | Greater \<Rightarrow> Greater)"
| "cmp_num (IntN l) (IntN r) = cmp_ord (sint l) (sint r)"
| "cmp_num (FloatN l) (FloatN r) = f64_total_cmp l r"

definition cmp_validity :: "validity \<Rightarrow> validity \<Rightarrow> ordering" where
  "cmp_validity a b =
     ordering_then (ordering_swap (cmp_ord (sint (timestamp a)) (sint (timestamp b))))
       (ordering_swap (cmp_ord (is_assert a) (is_assert b)))"

fun cmp_vector :: "ext \<Rightarrow> vector \<Rightarrow> vector \<Rightarrow> ordering" where
  "cmp_vector E (F32 l) (F32 r) = ordering_then (cmp_ord (length l) (length r)) (lex_cmp (of32_cmp E) l r)"
| "cmp_vector E (F32 l) (F64 r) = Less"
| "cmp_vector E (F64 l) (F64 r) = ordering_then (cmp_ord (length l) (length r)) (lex_cmp (of64_cmp E) l r)"
| "cmp_vector E (F64 l) (F32 r) = Greater"

text \<open>The derived order of \<open>DataValue\<close>: first the variant, then its contents.\<close>

fun variant_idx :: "data_value \<Rightarrow> nat" where
  "variant_idx Null = 0"
| "variant_idx (Bool _) = 1"
| "variant_idx (Num _) = 2"
| "variant_idx (Str _) = 3"
| "variant_idx (Bytes _) = 4"
| "variant_idx (Uuid _) = 5"
| "variant_idx (Regex _) = 6"
| "variant_idx (List _) = 7"
| "variant_idx (Set _) = 8"
| "variant_idx (Vec _) = 9"
| "variant_idx (Json _) = 10"
| "variant_idx (Validity _) = 11"
| "variant_idx Bot = 12"

fun cmp_value :: "ext \<Rightarrow> data_value \<Rightarrow> data_value \<Rightarrow> ordering" where
  "cmp_value E Null w = (case w of Null \<Rightarrow> Equal | _ \<Rightarrow> cmp_ord 0 (variant_idx w))"
| "cmp_value E (Bool a) w = (case w of Bool b \<Rightarrow> cmp_ord a b | _ \<Rightarrow> cmp_ord 1 (variant_idx w))"
| "cmp_value E (Num a) w = (case w of Num b \<Rightarrow> cmp_num a b | _ \<Rightarrow> cmp_ord 2 (variant_idx w))"
| "cmp_value E (Str a) w = (case w of Str b \<Rightarrow> cmp_bytes a b | _ \<Rightarrow> cmp_ord 3 (variant_idx w))"
| "cmp_value E (Bytes a) w = (case w of Bytes b \<Rightarrow> cmp_bytes a b | _ \<Rightarrow> cmp_ord 4 (variant_idx w))"
| "cmp_value E (Uuid a) w = (case w of Uuid b \<Rightarrow> cmp_bytes a b | _ \<Rightarrow> cmp_ord 5 (variant_idx w))"
| "cmp_value E (Regex a) w = (case w of Regex b \<Rightarrow> cmp_bytes a b | _ \<Rightarrow> cmp_ord 6 (variant_idx w))"
| "cmp_value E (List a) w =
     (case w of List b \<Rightarrow> lex_cmp (cmp_value E) a b | _ \<Rightarrow> cmp_ord 7 (variant_idx w))"
| "cmp_value E (Set a) w =
     (case w of Set b \<Rightarrow> lex_cmp (cmp_value E) a b | _ \<Rightarrow> cmp_ord 8 (variant_idx w))"
| "cmp_value E (Vec a) w = (case w of Vec b \<Rightarrow> cmp_vector E a b | _ \<Rightarrow> cmp_ord 9 (variant_idx w))"
| "cmp_value E (Json a) w = (case w of Json b \<Rightarrow> cmp_bytes a b | _ \<Rightarrow> cmp_ord 10 (variant_idx w))"
| "cmp_value E (Validity a) w =
     (case w of Validity b \<Rightarrow> cmp_validity a b | _ \<Rightarrow> cmp_ord 11 (variant_idx w))"
| "cmp_value E Bot w = (case w of Bot \<Rightarrow> Equal | _ \<Rightarrow> cmp_ord 12 (variant_idx w))"

abbreviation cmp_tuple :: "ext \<Rightarrow> tuple \<Rightarrow> tuple \<Rightarrow> ordering" where
  "cmp_tuple E \<equiv> lex_cmp (cmp_value E)"

definition ext_ord :: "ext \<Rightarrow> bool" where
  "ext_ord E \<longleftrightarrow> total_cmp (of32_cmp E) \<and> total_cmp (of64_cmp E)"

definition value_max :: "ext \<Rightarrow> data_value \<Rightarrow> data_value \<Rightarrow> data_value" where
  "value_max E a b = (if cmp_value E a b = Greater then a else b)"

definition value_min :: "ext \<Rightarrow> data_value \<Rightarrow> data_value \<Rightarrow> data_value" where
  "value_min E a b = (if cmp_value E a b = Greater then b else a)"

section \<open>Accessors\<close>

definition get_bytes :: "data_value \<Rightarrow> bytes option" where
  "get_bytes v = (case v of Bytes b \<Rightarrow> Some b | _ \<Rightarrow> None)"

definition get_slice :: "data_value \<Rightarrow> data_value list option" where
  "get_slice v = (case v of List l \<Rightarrow> Some l | _ \<Rightarrow> None)"

definition get_str :: "data_value \<Rightarrow> bytes option" where
  "get_str v = (case v of Str s \<Rightarrow> Some s | _ \<Rightarrow> None)"

definition get_int :: "data_value \<Rightarrow> i64 option" where
  "get_int v = (case v of Num n \<Rightarrow> num_get_int n | _ \<Rightarrow> None)"

definition get_non_neg_int :: "data_value \<Rightarrow> u64 option" where
  "get_non_neg_int v =
     (case v of
        Num n \<Rightarrow> Option.bind (num_get_int n) (\<lambda>i. if sint i < 0 then None else Some i)
      | _ \<Rightarrow> None)"

definition get_float :: "data_value \<Rightarrow> f64 option" where
  "get_float v = (case v of Num n \<Rightarrow> Some (num_get_float n) | _ \<Rightarrow> None)"

definition get_bool :: "data_value \<Rightarrow> bool option" where
  "get_bool v = (case v of Bool b \<Rightarrow> Some b | _ \<Rightarrow> None)"

definition get_uuid :: "ext \<Rightarrow> data_value \<Rightarrow> bytes option" where
  "get_uuid E v = (case v of Uuid u \<Rightarrow> Some u | Str s \<Rightarrow> uuid_try_parse E s | _ \<Rightarrow> None)"

definition vector_len :: "vector \<Rightarrow> nat" where
  "vector_len v = (case v of F32 a \<Rightarrow> length a | F64 a \<Rightarrow> length a)"

definition vector_is_empty :: "vector \<Rightarrow> bool" where
  "vector_is_empty v = (case v of F32 a \<Rightarrow> a = [] | F64 a \<Rightarrow> a = [])"

section \<open>The order is total\<close>

text \<open>
  Numbers sort by their \<open>f64\<close> value first; among numbers with the same \<open>f64\<close> value the integers
  come first, in their own order, and the float last. This key makes that explicit.
\<close>

definition num_key :: "rnum \<Rightarrow> int \<times> nat \<times> int" where
  "num_key n = (sint (f64_total_key (num_get_float n)),
     case n of IntN i \<Rightarrow> (0, sint i) | FloatN f \<Rightarrow> (1, 0))"

lemma f64_total_key_inj: "sint (f64_total_key a) = sint (f64_total_key b) \<longleftrightarrow> a = b"
  using uint_64 [of a] uint_64 [of b] unfolding sint_f64_total_key word_uint_eq_iff by presburger

lemma cmp_num_key: "cmp_num a b = cmp_ord (num_key a) (num_key b)"
proof -
  have mono: "sint l \<le> sint r \<Longrightarrow> i64_key l \<le> i64_key r" for l r
    by (rule i64_key_mono)
  show ?thesis
  proof (cases "(a, b)" rule: cmp_num.cases)
    case (3 l r)
    then show ?thesis
      using mono [of l r] mono [of r l]
      by (auto simp: num_key_def num_get_float_def cmp_ord_def simp flip: i64_key_def)
  qed (auto simp: num_key_def num_get_float_def f64_total_cmp_def cmp_ord_def)
qed

lemma inj_num_key: "inj num_key"
  by (rule injI)
    (auto simp: num_key_def num_get_float_def f64_total_key_inj signed_word_eqI split: rnum.splits)

interpretation num_ord: linear_cmp cmp_num
  using cmp_num_key inj_num_key by (rule linear_cmp_key)

lemma cmp_validity_key:
  "cmp_validity a b = cmp_ord (- sint (timestamp a), \<not> is_assert a) (- sint (timestamp b), \<not> is_assert b)"
  by (auto simp: cmp_validity_def cmp_ord_def)

interpretation validity_ord: linear_cmp cmp_validity
  by (rule linear_cmp_key [OF cmp_validity_key])
    (auto simp: inj_def signed_word_eqI intro!: validity.equality)

lemma total_cmp_vector:
  assumes "ext_ord E"
  shows "total_cmp (cmp_vector E)"
proof -
  let ?idx = "\<lambda>v. case v of F32 _ \<Rightarrow> 0 | F64 _ \<Rightarrow> (1 :: nat)"
  have len: "total_cmp (\<lambda>x y :: 'b list. cmp_ord (length x) (length y))"
    by (rule total_cmp_image) (rule ord.total_cmp_axioms)
  have cross: "?idx v \<noteq> ?idx w \<Longrightarrow> cmp_vector E v w = cmp_ord (?idx v) (?idx w)" for v w
    by (cases v; cases w) (simp_all add: cmp_ord_def)
  have "cmp_laws_at (cmp_vector E) v" for v
  proof (cases v)
    case (F32 l)
    have "total_cmp (\<lambda>l r. ordering_then (cmp_ord (length l) (length r)) (lex_cmp (of32_cmp E) l r))"
      using assms by (simp add: total_cmp_then total_cmp_lex len ext_ord_def)
    then show ?thesis
      unfolding F32 total_cmp_iff
      by (intro cmp_laws_at_variant [where idx = ?idx and C = F32, OF cross])
        (auto split: vector.splits)
  next
    case (F64 l)
    have "total_cmp (\<lambda>l r. ordering_then (cmp_ord (length l) (length r)) (lex_cmp (of64_cmp E) l r))"
      using assms by (simp add: total_cmp_then total_cmp_lex len ext_ord_def)
    then show ?thesis
      unfolding F64 total_cmp_iff
      by (intro cmp_laws_at_variant [where idx = ?idx and C = F64, OF cross])
        (auto split: vector.splits)
  qed
  then show ?thesis by (simp add: total_cmp_iff)
qed

lemma cmp_value_variant:
  "variant_idx v \<noteq> variant_idx w \<Longrightarrow> cmp_value E v w = cmp_ord (variant_idx v) (variant_idx w)"
  by (cases v; cases w; simp)

lemma variant_idx_inv:
  "variant_idx w = Suc 0 \<Longrightarrow> \<exists>b. w = Bool b" "variant_idx w = 2 \<Longrightarrow> \<exists>b. w = Num b"
  "variant_idx w = 3 \<Longrightarrow> \<exists>b. w = Str b" "variant_idx w = 4 \<Longrightarrow> \<exists>b. w = Bytes b"
  "variant_idx w = 5 \<Longrightarrow> \<exists>b. w = Uuid b" "variant_idx w = 6 \<Longrightarrow> \<exists>b. w = Regex b"
  "variant_idx w = 7 \<Longrightarrow> \<exists>b. w = List b" "variant_idx w = 8 \<Longrightarrow> \<exists>b. w = Set b"
  "variant_idx w = 9 \<Longrightarrow> \<exists>b. w = Vec b" "variant_idx w = 10 \<Longrightarrow> \<exists>b. w = Json b"
  "variant_idx w = 11 \<Longrightarrow> \<exists>b. w = Validity b" "variant_idx w = 0 \<Longrightarrow> w = Null"
  "variant_idx w = 12 \<Longrightarrow> w = Bot"
  by (cases w; simp)+

lemma cmp_laws_at_payload:
  assumes "\<And>a b. cmp_value E (C a) (C b) = c a b"
    and "\<And>w. variant_idx w = variant_idx (C a) \<Longrightarrow> \<exists>b. w = C b"
    and "total_cmp c"
  shows "cmp_laws_at (cmp_value E) (C a)"
  using assms(3)
  by (intro cmp_laws_at_variant [where idx = variant_idx and c = c, OF cmp_value_variant assms(1,2)])
    (simp_all add: total_cmp_iff)

lemma total_cmp_unit: "total_cmp (\<lambda>_ _ :: unit. Equal)"
  by standard simp_all

lemma cmp_laws_at_value:
  assumes "ext_ord E"
  shows "cmp_laws_at (cmp_value E) v"
proof (induction v)
  case Null
  show ?case
    by (rule cmp_laws_at_payload [where C = "\<lambda>_. Null", OF _ _ total_cmp_unit])
      (auto dest: variant_idx_inv)
next
  case Bot
  show ?case
    by (rule cmp_laws_at_payload [where C = "\<lambda>_. Bot", OF _ _ total_cmp_unit])
      (auto dest: variant_idx_inv)
next
  case (Bool a)
  show ?case
    by (rule cmp_laws_at_payload [OF _ _ ord.total_cmp_axioms]) (auto dest: variant_idx_inv)
next
  case (Num a)
  show ?case
    by (rule cmp_laws_at_payload [OF _ _ num_ord.total_cmp_axioms]) (auto dest: variant_idx_inv)
next
  case (Str a)
  show ?case
    by (rule cmp_laws_at_payload [OF _ _ bytes_ord.total_cmp_axioms]) (auto dest: variant_idx_inv)
next
  case (Bytes a)
  show ?case
    by (rule cmp_laws_at_payload [OF _ _ bytes_ord.total_cmp_axioms]) (auto dest: variant_idx_inv)
next
  case (Uuid a)
  show ?case
    by (rule cmp_laws_at_payload [OF _ _ bytes_ord.total_cmp_axioms]) (auto dest: variant_idx_inv)
next
  case (Regex a)
  show ?case
    by (rule cmp_laws_at_payload [OF _ _ bytes_ord.total_cmp_axioms]) (auto dest: variant_idx_inv)
next
  case (Json a)
  show ?case
    by (rule cmp_laws_at_payload [OF _ _ bytes_ord.total_cmp_axioms]) (auto dest: variant_idx_inv)
next
  case (Validity a)
  show ?case
    by (rule cmp_laws_at_payload [OF _ _ validity_ord.total_cmp_axioms]) (auto dest: variant_idx_inv)
next
  case (Vec a)
  show ?case
    by (rule cmp_laws_at_payload [OF _ _ total_cmp_vector [OF assms]]) (auto dest: variant_idx_inv)
next
  case (List a)
  then have "cmp_laws_at (lex_cmp (cmp_value E)) a" by (rule cmp_laws_at_lex)
  then show ?case
    by (intro cmp_laws_at_variant [where idx = variant_idx and C = List, OF cmp_value_variant])
      (auto dest: variant_idx_inv)
next
  case (Set a)
  then have "cmp_laws_at (lex_cmp (cmp_value E)) a" by (rule cmp_laws_at_lex)
  then show ?case
    by (intro cmp_laws_at_variant [where idx = variant_idx and C = Set, OF cmp_value_variant])
      (auto dest: variant_idx_inv)
qed

lemma total_cmp_value: "ext_ord E \<Longrightarrow> total_cmp (cmp_value E)"
  by (simp add: total_cmp_iff cmp_laws_at_value)

lemma total_cmp_tuple: "ext_ord E \<Longrightarrow> total_cmp (cmp_tuple E)"
  by (simp add: total_cmp_value total_cmp_lex)

end
