(* ===== verification/BTree.thy ===== *)
theory BTree
  imports Prelude
begin

text \<open>
  \<open>BTreeMap\<close> and \<open>BTreeSet\<close> of Rust's standard library as association lists and lists in
  ascending key order, over the comparison of the key type. \<open>insert\<close> on a present key replaces
  the value and keeps the stored key; \<open>BTreeSet::insert\<close> on a present element changes nothing.
  The lemmas are proved once for every lawful \<open>Ord\<close> in the locale \<open>total_cmp\<close>.
\<close>

type_synonym ('k, 'v) btree = "('k \<times> 'v) list"

fun bset_insert :: "('a \<Rightarrow> 'a \<Rightarrow> ordering) \<Rightarrow> 'a \<Rightarrow> 'a list \<Rightarrow> 'a list" where
  "bset_insert cmp x [] = [x]"
| "bset_insert cmp x (y # ys) =
     (case cmp x y of
        Less \<Rightarrow> x # y # ys
      | Equal \<Rightarrow> y # ys
      | Greater \<Rightarrow> y # bset_insert cmp x ys)"

definition bset_contains :: "('a \<Rightarrow> 'a \<Rightarrow> ordering) \<Rightarrow> 'a \<Rightarrow> 'a list \<Rightarrow> bool" where
  "bset_contains cmp x xs = list_ex (\<lambda>y. cmp x y = Equal) xs"

definition bset_extend :: "('a \<Rightarrow> 'a \<Rightarrow> ordering) \<Rightarrow> 'a list \<Rightarrow> 'a list \<Rightarrow> 'a list" where
  "bset_extend cmp xs ys = fold (bset_insert cmp) ys xs"

definition bset_from_iter :: "('a \<Rightarrow> 'a \<Rightarrow> ordering) \<Rightarrow> 'a list \<Rightarrow> 'a list" where
  "bset_from_iter cmp ys = bset_extend cmp [] ys"

fun bmap_get :: "('k \<Rightarrow> 'k \<Rightarrow> ordering) \<Rightarrow> ('k, 'v) btree \<Rightarrow> 'k \<Rightarrow> 'v option" where
  "bmap_get cmp [] k = None"
| "bmap_get cmp ((k', v) # m) k = (if cmp k k' = Equal then Some v else bmap_get cmp m k)"

fun bmap_insert :: "('k \<Rightarrow> 'k \<Rightarrow> ordering) \<Rightarrow> 'k \<Rightarrow> 'v \<Rightarrow> ('k, 'v) btree \<Rightarrow> ('k, 'v) btree" where
  "bmap_insert cmp k v [] = [(k, v)]"
| "bmap_insert cmp k v ((k', v') # m) =
     (case cmp k k' of
        Less \<Rightarrow> (k, v) # (k', v') # m
      | Equal \<Rightarrow> (k', v) # m
      | Greater \<Rightarrow> (k', v') # bmap_insert cmp k v m)"

fun bmap_remove :: "('k \<Rightarrow> 'k \<Rightarrow> ordering) \<Rightarrow> 'k \<Rightarrow> ('k, 'v) btree \<Rightarrow> ('k, 'v) btree" where
  "bmap_remove cmp k [] = []"
| "bmap_remove cmp k ((k', v') # m) =
     (if cmp k k' = Equal then m else (k', v') # bmap_remove cmp k m)"

definition bmap_contains_key :: "('k \<Rightarrow> 'k \<Rightarrow> ordering) \<Rightarrow> ('k, 'v) btree \<Rightarrow> 'k \<Rightarrow> bool" where
  "bmap_contains_key cmp m k \<longleftrightarrow> bmap_get cmp m k \<noteq> None"

text \<open>\<open>range(lower..upper)\<close> and \<open>range(lower..=upper)\<close> in key order.\<close>

definition bmap_range ::
  "('k \<Rightarrow> 'k \<Rightarrow> ordering) \<Rightarrow> ('k, 'v) btree \<Rightarrow> 'k \<Rightarrow> 'k \<Rightarrow> bool \<Rightarrow> ('k, 'v) btree" where
  "bmap_range cmp m lower upper incl =
     filter (\<lambda>(k, v). cmp lower k \<noteq> Greater \<and>
        (cmp k upper = Less \<or> (incl \<and> cmp k upper = Equal))) m"

definition bset_wf :: "('a \<Rightarrow> 'a \<Rightarrow> ordering) \<Rightarrow> 'a list \<Rightarrow> bool" where
  "bset_wf cmp xs = sorted_wrt (\<lambda>a b. cmp a b = Less) xs"

definition bmap_wf :: "('k \<Rightarrow> 'k \<Rightarrow> ordering) \<Rightarrow> ('k, 'v) btree \<Rightarrow> bool" where
  "bmap_wf cmp m = bset_wf cmp (map fst m)"

lemma bset_wf_Nil [simp]: "bset_wf cmp []"
  by (simp add: bset_wf_def)

lemma bset_wf_Cons: "bset_wf cmp (x # xs) \<longleftrightarrow> (\<forall>y \<in> set xs. cmp x y = Less) \<and> bset_wf cmp xs"
  by (simp add: bset_wf_def)

lemma bmap_wf_Nil [simp]: "bmap_wf cmp []"
  by (simp add: bmap_wf_def)

lemma bmap_wf_Cons:
  "bmap_wf cmp ((k, v) # m) \<longleftrightarrow> (\<forall>p \<in> set m. cmp k (fst p) = Less) \<and> bmap_wf cmp m"
  by (auto simp: bmap_wf_def bset_wf_Cons)

lemma set_bset_insert_subset: "set (bset_insert cmp x xs) \<subseteq> insert x (set xs)"
  by (induction xs) (auto split: ordering.splits)

lemma fst_bmap_insert_subset: "fst ` set (bmap_insert cmp k v m) \<subseteq> insert k (fst ` set m)"
  by (induction cmp k v m rule: bmap_insert.induct) (auto split: ordering.splits)

lemma set_bmap_remove_subset: "set (bmap_remove cmp k m) \<subseteq> set m"
  by (induction cmp k m rule: bmap_remove.induct) auto

lemma bmap_get_Some_in: "bmap_get cmp m k = Some v \<Longrightarrow> \<exists>k'. (k', v) \<in> set m \<and> cmp k k' = Equal"
  by (induction cmp m k rule: bmap_get.induct) (auto split: if_splits)

lemma bmap_get_None: "bmap_get cmp m k = None \<longleftrightarrow> (\<forall>p \<in> set m. cmp k (fst p) \<noteq> Equal)"
  by (induction cmp m k rule: bmap_get.induct) auto

text \<open>Inserting in ascending order appends, so a well-formed list is rebuilt element by element.\<close>

lemma bset_insert_last:
  "\<forall>y \<in> set xs. cmp x y = Greater \<Longrightarrow> bset_insert cmp x xs = xs @ [x]"
  by (induction xs) auto

context total_cmp
begin

lemma bset_extend_sorted:
  "bset_wf cmp (xs @ ys) \<Longrightarrow> bset_extend cmp xs ys = xs @ ys"
proof (induction ys arbitrary: xs)
  case Nil
  show ?case by (simp add: bset_extend_def)
next
  case (Cons y ys)
  have "\<forall>x \<in> set xs. cmp y x = Greater"
    using Cons.prems by (auto simp: bset_wf_def sorted_wrt_append cmp_Greater)
  then have "bset_extend cmp xs (y # ys) = bset_extend cmp (xs @ [y]) ys"
    by (simp add: bset_extend_def bset_insert_last)
  also have "\<dots> = (xs @ [y]) @ ys"
    using Cons.prems by (intro Cons.IH) simp
  finally show ?case by simp
qed

lemma bset_from_iter_wf: "bset_wf cmp xs \<Longrightarrow> bset_from_iter cmp xs = xs"
  by (simp add: bset_from_iter_def bset_extend_sorted)

lemma bset_wf_insert: "bset_wf cmp xs \<Longrightarrow> bset_wf cmp (bset_insert cmp x xs)"
proof (induction xs)
  case Nil
  show ?case by (simp add: bset_wf_Cons)
next
  case (Cons y ys)
  show ?case
  proof (cases "cmp x y")
    case Less
    with Cons.prems show ?thesis by (auto simp: bset_wf_Cons intro: cmp_trans_less)
  next
    case Equal
    with Cons.prems show ?thesis by simp
  next
    case Greater
    then have "cmp y x = Less" by (simp add: cmp_Greater)
    with Greater Cons show ?thesis
      using set_bset_insert_subset [of cmp x ys] by (auto simp: bset_wf_Cons)
  qed
qed

lemma bset_wf_distinct: "bset_wf cmp xs \<Longrightarrow> distinct xs"
  by (induction xs) (auto simp: bset_wf_Cons cmp_irrefl)

lemma bmap_wf_distinct: "bmap_wf cmp m \<Longrightarrow> distinct (map fst m)"
  by (simp add: bmap_wf_def bset_wf_distinct)

lemma bset_contains_insert:
  "bset_contains cmp z (bset_insert cmp x xs) \<longleftrightarrow> cmp z x = Equal \<or> bset_contains cmp z xs"
proof (induction xs)
  case (Cons y ys)
  have "cmp z x = Equal \<Longrightarrow> cmp x y = Equal \<Longrightarrow> cmp z y = Equal"
    using cmp_eq_left [of z x y] by simp
  with Cons show ?case by (auto simp: bset_contains_def split: ordering.splits)
qed (simp add: bset_contains_def)

lemma bmap_wf_insert: "bmap_wf cmp m \<Longrightarrow> bmap_wf cmp (bmap_insert cmp k v m)"
proof (induction m)
  case Nil
  show ?case by (simp add: bmap_wf_Cons)
next
  case (Cons p m)
  obtain k' v' where p: "p = (k', v')" by (cases p)
  show ?case
  proof (cases "cmp k k'")
    case Less
    with Cons.prems show ?thesis by (auto simp: p bmap_wf_Cons intro: cmp_trans_less)
  next
    case Equal
    with Cons.prems show ?thesis by (simp add: p bmap_wf_Cons)
  next
    case Greater
    then have "cmp k' k = Less" by (simp add: cmp_Greater)
    with Cons Greater show ?thesis
      using fst_bmap_insert_subset [of cmp k v m] by (fastforce simp: p bmap_wf_Cons)
  qed
qed

lemma bmap_wf_remove: "bmap_wf cmp m \<Longrightarrow> bmap_wf cmp (bmap_remove cmp k m)"
proof (induction m)
  case (Cons p m)
  then show ?case
    using set_bmap_remove_subset [of cmp k m] by (cases p) (auto simp: bmap_wf_Cons)
qed simp

lemma bmap_get_insert:
  "bmap_get cmp (bmap_insert cmp k v m) z = (if cmp z k = Equal then Some v else bmap_get cmp m z)"
proof (induction m)
  case (Cons p m)
  obtain k' v' where p: "p = (k', v')" by (cases p)
  show ?case
  proof (cases "cmp k k'")
    case Less
    then show ?thesis by (simp add: p)
  next
    case Equal
    from cmp_eq_right [OF this, of z] Equal show ?thesis by (simp add: p)
  next
    case Greater
    have "cmp z k = Equal \<Longrightarrow> cmp z k' = Greater" using cmp_eq_left [of z k k'] Greater by simp
    with Greater Cons show ?thesis by (auto simp: p)
  qed
qed simp

lemma bmap_get_remove:
  assumes "bmap_wf cmp m"
  shows "bmap_get cmp (bmap_remove cmp k m) z = (if cmp z k = Equal then None else bmap_get cmp m z)"
  using assms
proof (induction m)
  case (Cons p m)
  obtain k' v' where p: "p = (k', v')" by (cases p)
  from Cons.prems have wf: "bmap_wf cmp m" and less: "\<forall>q \<in> set m. cmp k' (fst q) = Less"
    by (auto simp: p bmap_wf_Cons)
  show ?case
  proof (cases "cmp k k' = Equal")
    case True
    have "bmap_get cmp m z = None" if "cmp z k' = Equal"
      using that less cmp_eq_left [OF that] by (simp add: bmap_get_None)
    with True cmp_eq_right [OF True, of z] show ?thesis by (simp add: p)
  next
    case False
    then have "cmp z k = Equal \<Longrightarrow> cmp z k' \<noteq> Equal" using cmp_eq_left [of z k k'] by simp
    with False Cons.IH [OF wf] show ?thesis by (auto simp: p)
  qed
qed simp

text \<open>In a well-formed map each entry is what looking its key up finds.\<close>

lemma bmap_get_in:
  assumes "bmap_wf cmp m" and "(k, v) \<in> set m"
  shows "bmap_get cmp m k = Some v"
  using assms
proof (induction m)
  case (Cons p m)
  obtain k' v' where p: "p = (k', v')" by (cases p)
  show ?case
  proof (cases "(k, v) = p")
    case True
    then show ?thesis by (simp add: p cmp_refl)
  next
    case False
    with Cons.prems have "(k, v) \<in> set m" "cmp k' k = Less" by (auto simp: p bmap_wf_Cons)
    then have "cmp k k' \<noteq> Equal" using cmp_Equal_sym [of k k'] by simp
    with Cons \<open>(k, v) \<in> set m\<close> show ?thesis by (simp add: p bmap_wf_Cons)
  qed
qed simp

lemma bmap_wf_filter: "bmap_wf cmp m \<Longrightarrow> bmap_wf cmp (filter P m)"
  by (induction m) (auto simp: bmap_wf_Cons)

lemma bmap_wf_range: "bmap_wf cmp m \<Longrightarrow> bmap_wf cmp (bmap_range cmp m lo hi incl)"
  by (simp add: bmap_range_def bmap_wf_filter)

end

context linear_cmp
begin

lemma bmap_get_Some_iff:
  assumes "bmap_wf cmp m"
  shows "bmap_get cmp m k = Some v \<longleftrightarrow> (k, v) \<in> set m"
  using bmap_get_in [OF assms] bmap_get_Some_in [of cmp m k v] cmp_EqualD by auto

lemma bset_contains_iff: "bset_contains cmp x xs \<longleftrightarrow> x \<in> set xs"
  by (auto simp: bset_contains_def list_ex_iff cmp_Equal_iff)

lemma set_bset_insert: "set (bset_insert cmp x xs) = insert x (set xs)"
  using bset_contains_insert [of _ x xs] by (auto simp: bset_contains_iff cmp_Equal_iff)

lemma in_bmap_range:
  "(k, v) \<in> set (bmap_range cmp m lo hi incl) \<longleftrightarrow>
     (k, v) \<in> set m \<and> cmp lo k \<noteq> Greater \<and> (cmp k hi = Less \<or> incl \<and> k = hi)"
  by (auto simp: bmap_range_def cmp_Equal_iff)

lemma bmap_get_range:
  "bmap_wf cmp m \<Longrightarrow>
   bmap_get cmp (bmap_range cmp m lo hi incl) k =
     (if cmp lo k \<noteq> Greater \<and> (cmp k hi = Less \<or> incl \<and> k = hi) then bmap_get cmp m k else None)"
  by (rule option_eq_SomeI)
    (auto simp: bmap_get_Some_iff bmap_wf_range in_bmap_range)

text \<open>Two well-formed maps with the same lookups are the same list.\<close>

lemma bmap_ext:
  assumes "bmap_wf cmp m" and "bmap_wf cmp m'" and "\<And>k. bmap_get cmp m k = bmap_get cmp m' k"
  shows "m = m'"
proof -
  have eq: "set m = set m'"
    using bmap_get_Some_iff [OF assms(1)] bmap_get_Some_iff [OF assms(2)] assms(3) by auto
  have sw: "sorted_wrt (\<lambda>p q. cmp (fst p) (fst q) = Less) m"
    "sorted_wrt (\<lambda>p q. cmp (fst p) (fst q) = Less) m'"
    using assms(1,2) by (simp_all add: bmap_wf_def bset_wf_def sorted_wrt_map)
  show ?thesis
    using sw eq
  proof (induction m arbitrary: m')
    case (Cons p m)
    then obtain q n where m': "m' = q # n" by (cases m') auto
    have "p = q"
    proof (rule ccontr)
      assume "p \<noteq> q"
      with Cons.prems(3) m' have "p \<in> set n" "q \<in> set m" by auto
      with Cons.prems(1,2) m' have "cmp (fst q) (fst p) = Less" "cmp (fst p) (fst q) = Less" by auto
      then show False using cmp_trans_less cmp_irrefl by blast
    qed
    moreover have "p \<notin> set m" "q \<notin> set n"
      using Cons.prems(1,2) m' cmp_irrefl by auto
    ultimately have "set m = set n" using Cons.prems(3) m' by auto
    then have "m = n" using Cons.prems(1,2) m' by (intro Cons.IH) auto
    with \<open>p = q\<close> m' show ?case by simp
  qed simp
qed

end

end
