(* ===== verification/Memcmp.thy ===== *)
theory Memcmp
  imports Value BTree
begin

unbundle bit_operations_syntax

text \<open>
  \<open>retia-core/src/data/memcmp.rs\<close>: the order-preserving key encoding and its decoder.

  A decoder takes the bytes and returns the value with the unread rest; a slice that is too
  short, an unknown tag or a failing third-party parser makes the Rust code panic, which is
  \<open>None\<close> here (release build: \<open>debug_assert!\<close> is off). The recursive decoder runs on fuel;
  \<open>decode_from_key\<close> gives it \<open>2 * length + 2\<close>, which \<open>decode_fuel_enough\<close> proves to be enough
  for every input.

  The lemmas: decoding after encoding gives the value back with any suffix left over, no
  encoding is a prefix of another, and comparing encodings byte by byte is comparing the values
  (for the values whose in-memory order agrees with the tag order, \<open>mem_ordered\<close>).
\<close>

section \<open>Tags\<close>

abbreviation (input) "INIT_TAG \<equiv> (0x00 :: u8)"
abbreviation (input) "NULL_TAG \<equiv> (0x01 :: u8)"
abbreviation (input) "FALSE_TAG \<equiv> (0x02 :: u8)"
abbreviation (input) "TRUE_TAG \<equiv> (0x03 :: u8)"
abbreviation (input) "VEC_TAG \<equiv> (0x04 :: u8)"
abbreviation (input) "NUM_TAG \<equiv> (0x05 :: u8)"
abbreviation (input) "STR_TAG \<equiv> (0x06 :: u8)"
abbreviation (input) "BYTES_TAG \<equiv> (0x07 :: u8)"
abbreviation (input) "UUID_TAG \<equiv> (0x08 :: u8)"
abbreviation (input) "REGEX_TAG \<equiv> (0x09 :: u8)"
abbreviation (input) "LIST_TAG \<equiv> (0x0A :: u8)"
abbreviation (input) "SET_TAG \<equiv> (0x0B :: u8)"
abbreviation (input) "VLD_TAG \<equiv> (0x0C :: u8)"
abbreviation (input) "JSON_TAG \<equiv> (0x0D :: u8)"
abbreviation (input) "BOT_TAG \<equiv> (0xFF :: u8)"
abbreviation (input) "VEC_F32 \<equiv> (0x01 :: u8)"
abbreviation (input) "VEC_F64 \<equiv> (0x02 :: u8)"
abbreviation (input) "IS_FLOAT \<equiv> (0x10 :: u8)"
abbreviation (input) "IS_APPROX_INT \<equiv> (0x04 :: u8)"
abbreviation (input) "IS_EXACT_INT \<equiv> (0x00 :: u8)"
abbreviation (input) "EXACT_INT_BOUND \<equiv> (0x20000000000000 :: int)"
abbreviation (input) "ENC_GROUP_SIZE \<equiv> (8 :: nat)"
abbreviation (input) "ENC_MARKER \<equiv> (0xFF :: u8)"

section \<open>Encoding\<close>

definition order_encode_i64 :: "i64 \<Rightarrow> u64" where
  "order_encode_i64 v = v XOR SIGN_MARK"

definition order_decode_i64 :: "u64 \<Rightarrow> i64" where
  "order_decode_i64 u = u XOR SIGN_MARK"

definition order_encode_f64 :: "f64 \<Rightarrow> u64" where
  "order_encode_f64 v = (if \<not> f64_sign v then v OR SIGN_MARK else NOT v)"

definition order_decode_f64 :: "u64 \<Rightarrow> f64" where
  "order_decode_f64 u = (if 0 < u AND SIGN_MARK then u AND NOT SIGN_MARK else NOT u)"

definition encode_num :: "rnum \<Rightarrow> bytes" where
  "encode_num v =
     write_u64 (order_encode_f64 (num_get_float v)) @
     (case v of
        IntN i \<Rightarrow>
          if - EXACT_INT_BOUND < sint i \<and> sint i < EXACT_INT_BOUND then [IS_EXACT_INT]
          else IS_APPROX_INT # write_u64 (order_encode_i64 i)
      | FloatN _ \<Rightarrow> [IS_FLOAT])"

function encode_bytes_from :: "bytes \<Rightarrow> nat \<Rightarrow> bytes" where
  "encode_bytes_from key index =
     (if index \<le> length key
      then let remain = length key - index;
               pad = (if ENC_GROUP_SIZE < remain then 0 else ENC_GROUP_SIZE - remain)
           in (if ENC_GROUP_SIZE < remain then take ENC_GROUP_SIZE (drop index key)
               else drop index key @ replicate pad 0) @
              [ENC_MARKER - word_of_nat pad] @
              encode_bytes_from key (index + ENC_GROUP_SIZE)
      else [])"
  by pat_completeness auto
termination
  by (relation "measure (\<lambda>(key, index). Suc (length key) - index)") auto

declare encode_bytes_from.simps [simp del]

definition encode_bytes :: "bytes \<Rightarrow> bytes" where
  "encode_bytes key = encode_bytes_from key 0"

fun encode_datavalue :: "data_value \<Rightarrow> bytes" where
  "encode_datavalue Null = [NULL_TAG]"
| "encode_datavalue (Bool b) = (if b then [TRUE_TAG] else [FALSE_TAG])"
| "encode_datavalue (Vec arr) =
     VEC_TAG #
     (case arr of
        F32 a \<Rightarrow> VEC_F32 # write_u64 (word_of_nat (length a)) @ concat (map write_u32 a)
      | F64 a \<Rightarrow> VEC_F64 # write_u64 (word_of_nat (length a)) @ concat (map write_u64 a))"
| "encode_datavalue (Num n) = NUM_TAG # encode_num n"
| "encode_datavalue (Str s) = STR_TAG # encode_bytes s"
| "encode_datavalue (Json j) = JSON_TAG # encode_bytes j"
| "encode_datavalue (Bytes b) = BYTES_TAG # encode_bytes b"
| "encode_datavalue (Uuid u) = UUID_TAG # u"
| "encode_datavalue (Regex rx) = REGEX_TAG # encode_bytes rx"
| "encode_datavalue (List l) = LIST_TAG # concat (map encode_datavalue l) @ [INIT_TAG]"
| "encode_datavalue (Set s) = SET_TAG # concat (map encode_datavalue s) @ [INIT_TAG]"
| "encode_datavalue (Validity vld) =
     VLD_TAG # write_u64 (NOT (order_encode_i64 (timestamp vld))) @ [of_bool (\<not> is_assert vld)]"
| "encode_datavalue Bot = [BOT_TAG]"

section \<open>Decoding\<close>

function decode_bytes_from :: "bytes \<Rightarrow> bytes \<Rightarrow> (bytes \<times> bytes) option" where
  "decode_bytes_from key data =
     (if length data < ENC_GROUP_SIZE + 1 then None
      else let chunk = take (ENC_GROUP_SIZE + 1) data;
               rest = drop (ENC_GROUP_SIZE + 1) data;
               marker = last chunk;
               bs = butlast chunk;
               pad_size = unat (ENC_MARKER - marker)
           in if pad_size = 0 then decode_bytes_from (key @ bs) rest
              else if ENC_GROUP_SIZE < pad_size then None
              else Some (key @ take (ENC_GROUP_SIZE - pad_size) bs, rest))"
  by pat_completeness auto
termination
  by (relation "measure (\<lambda>(key, data). length data)") auto

declare decode_bytes_from.simps [simp del]

definition decode_bytes :: "bytes \<Rightarrow> (bytes \<times> bytes) option" where
  "decode_bytes data = decode_bytes_from [] data"

definition num_decode_from_key :: "bytes \<Rightarrow> (rnum \<times> bytes) option" where
  "num_decode_from_key bs =
     (case split_at 8 bs of
        Some (float_part, tag # remaining) \<Rightarrow>
          let f = order_decode_f64 (read_u64 float_part)
          in if tag = IS_FLOAT then Some (FloatN f, remaining)
             else if tag = IS_EXACT_INT then Some (IntN (f64_as_i64 f), remaining)
             else if tag = IS_APPROX_INT then
               (case split_at 8 remaining of
                  Some (int_part, remaining) \<Rightarrow>
                    Some (IntN (order_decode_i64 (read_u64 int_part)), remaining)
                | None \<Rightarrow> None)
             else None
      | _ \<Rightarrow> None)"

text \<open>\<open>n\<close> consecutive fixed-width elements, as the loops over \<open>res_arr\<close> read them.\<close>

fun decode_chunks :: "nat \<Rightarrow> (bytes \<Rightarrow> 'e) \<Rightarrow> nat \<Rightarrow> bytes \<Rightarrow> ('e list \<times> bytes) option" where
  "decode_chunks w dec 0 bs = Some ([], bs)"
| "decode_chunks w dec (Suc n) bs =
     (case split_at w bs of
        None \<Rightarrow> None
      | Some (c, rest) \<Rightarrow> map_option (\<lambda>(es, r). (dec c # es, r)) (decode_chunks w dec n rest))"

definition decode_vector :: "bytes \<Rightarrow> (vector \<times> bytes) option" where
  "decode_vector bs =
     (case bs of
        [] \<Rightarrow> None
      | t_tag # remaining \<Rightarrow>
          (case split_at 8 remaining of
             None \<Rightarrow> None
           | Some (len_bytes, rest) \<Rightarrow>
               let len = unat (read_u64 len_bytes)
               in if t_tag = VEC_F32 then
                    map_option (\<lambda>(es, r). (F32 es, r)) (decode_chunks 4 read_u32 len rest)
                  else if t_tag = VEC_F64 then
                    map_option (\<lambda>(es, r). (F64 es, r)) (decode_chunks 8 read_u64 len rest)
                  else None))"

definition decode_validity :: "bytes \<Rightarrow> (validity \<times> bytes) option" where
  "decode_validity bs =
     (case split_at 8 bs of
        Some (ts_flipped_bytes, is_assert_byte # rest) \<Rightarrow>
          Some (\<lparr>timestamp = order_decode_i64 (NOT (read_u64 ts_flipped_bytes)),
                 is_assert = (is_assert_byte = 0)\<rparr>, rest)
      | _ \<Rightarrow> None)"

text \<open>
  \<open>decode_value\<close> is \<open>DataValue::decode_from_key\<close>, \<open>decode_seq\<close> its \<open>while remaining[0] != INIT_TAG\<close>
  loop of lists and sets. They recurse on fuel and keep its outcome apart from the code's: \<open>None\<close> is
  out of fuel, \<open>Some None\<close> a panic of the code, \<open>Some (Some (v, r))\<close> the value and the rest.
\<close>

fun decode_value :: "ext \<Rightarrow> nat \<Rightarrow> bytes \<Rightarrow> (data_value \<times> bytes) option option"
  and decode_seq :: "ext \<Rightarrow> nat \<Rightarrow> bytes \<Rightarrow> (data_value list \<times> bytes) option option" where
  "decode_value E 0 bs = None"
| "decode_value E (Suc n) bs =
     (case bs of
        [] \<Rightarrow> Some None
      | tag # remaining \<Rightarrow>
          if tag = NULL_TAG then Some (Some (Null, remaining))
          else if tag = FALSE_TAG then Some (Some (Bool False, remaining))
          else if tag = TRUE_TAG then Some (Some (Bool True, remaining))
          else if tag = NUM_TAG then Some (map_option (\<lambda>(v, r). (Num v, r)) (num_decode_from_key remaining))
          else if tag = STR_TAG then Some (map_option (\<lambda>(v, r). (Str v, r)) (decode_bytes remaining))
          else if tag = JSON_TAG then
            Some (case decode_bytes remaining of
               None \<Rightarrow> None
             | Some (b, r) \<Rightarrow> map_option (\<lambda>j. (Json j, r)) (json_from_slice E b))
          else if tag = BYTES_TAG then Some (map_option (\<lambda>(v, r). (Bytes v, r)) (decode_bytes remaining))
          else if tag = UUID_TAG then Some (map_option (\<lambda>(v, r). (Uuid v, r)) (split_at 16 remaining))
          else if tag = REGEX_TAG then
            Some (case decode_bytes remaining of
               None \<Rightarrow> None
             | Some (b, r) \<Rightarrow> map_option (\<lambda>x. (Regex x, r)) (regex_from_str E b))
          else if tag = LIST_TAG then
            map_option (map_option (\<lambda>(v, r). (List v, r))) (decode_seq E n remaining)
          else if tag = SET_TAG then
            map_option (map_option (\<lambda>(v, r). (Set (bset_from_iter (cmp_value E) v), r))) (decode_seq E n remaining)
          else if tag = VLD_TAG then Some (map_option (\<lambda>(v, r). (Validity v, r)) (decode_validity remaining))
          else if tag = BOT_TAG then Some (Some (Bot, remaining))
          else if tag = VEC_TAG then Some (map_option (\<lambda>(v, r). (Vec v, r)) (decode_vector remaining))
          else Some None)"
| "decode_seq E 0 bs = None"
| "decode_seq E (Suc n) bs =
     (case bs of
        [] \<Rightarrow> Some None
      | b # rest \<Rightarrow>
          if b = INIT_TAG then Some (Some ([], rest))
          else (case decode_value E n bs of
                  None \<Rightarrow> None
                | Some None \<Rightarrow> Some None
                | Some (Some (v, next)) \<Rightarrow>
                    map_option (map_option (\<lambda>(vs, r). (v # vs, r))) (decode_seq E n next)))"

definition decode_from_key :: "ext \<Rightarrow> bytes \<Rightarrow> (data_value \<times> bytes) option" where
  "decode_from_key E bs = (case decode_value E (2 * length bs + 2) bs of Some r \<Rightarrow> r | None \<Rightarrow> None)"

section \<open>Numbers\<close>

lemma order_decode_encode_i64 [simp, codec_simps]: "order_decode_i64 (order_encode_i64 v) = v"
  by (simp add: order_decode_i64_def order_encode_i64_def xor.assoc)

lemma cmp_order_encode_i64 [ord_simps]:
  "cmp_ord (order_encode_i64 a) (order_encode_i64 b) = cmp_ord (sint a) (sint b)"
  by (rule cmp_ord_eqI) (simp_all add: word_less_def order_encode_i64_def uint_xor_SIGN_MARK)

lemma uint_order_encode_f64:
  "uint (order_encode_f64 v) = sint (f64_total_key v) + 9223372036854775808"
  using uint_64 [of v] uint_or_SIGN_MARK [of v] uint_not_64 [of v]
  by (auto simp: order_encode_f64_def f64_sign_def bit_63_uint sint_f64_total_key)

lemma cmp_order_encode_f64 [ord_simps]:
  "cmp_ord (order_encode_f64 a) (order_encode_f64 b) = f64_total_cmp a b"
  unfolding f64_total_cmp_def
  by (rule cmp_ord_eqI) (simp_all add: word_less_def uint_order_encode_f64)

lemma and_SIGN_MARK_pos: "0 < u AND SIGN_MARK \<longleftrightarrow> bit u 63"
proof (cases "bit u 63")
  case True
  then have "bit (u AND SIGN_MARK) 63" by (simp add: bit_and_iff bit_SIGN_MARK)
  then have "u AND SIGN_MARK \<noteq> 0" by auto
  with True show ?thesis by (simp add: word_greater_zero_iff)
qed (simp add: and_SIGN_MARK)

lemma order_decode_encode_f64 [simp, codec_simps]: "order_decode_f64 (order_encode_f64 v) = v"
proof (cases "bit v 63")
  case True
  then have "\<not> 0 < NOT v AND SIGN_MARK" by (simp only: and_SIGN_MARK_pos) (simp add: bit_not_iff)
  with True show ?thesis by (simp add: order_decode_f64_def order_encode_f64_def f64_sign_def)
next
  case False
  have "(v OR SIGN_MARK) AND NOT SIGN_MARK = v"
    by (rule bit_eqI) (use False in \<open>auto simp: bit_simps bit_SIGN_MARK\<close>)
  moreover have "0 < (v OR SIGN_MARK) AND SIGN_MARK"
    by (simp only: and_SIGN_MARK_pos) (simp add: bit_or_iff bit_SIGN_MARK)
  ultimately show ?thesis
    using False by (simp only: order_decode_f64_def order_encode_f64_def f64_sign_def if_True simp_thms)
qed

lemma num_decode_encode [codec_simps]: "num_decode_from_key (encode_num n @ s) = Some (n, s)"
  by (cases n)
    (auto simp: encode_num_def num_decode_from_key_def num_get_float_def f64_as_i64_of_exact)

text \<open>
  Numbers compare as their encodings do, whatever follows them. The middle case is the one
  \<open>IS_EXACT_INT\<close> and \<open>IS_APPROX_INT\<close> are for: integers from \<open>2 ^ 53\<close> on may share their \<open>f64\<close> value.
\<close>

lemma cmp_append_u64:
  "cmp_bytes (write_u64 a @ s) (write_u64 b @ t) = ordering_then (cmp_ord a b) (cmp_bytes s t)"
  by (simp add: lex_cmp_append_same cmp_write_u64)

lemma cmp_ord_Pair: "cmp_ord (a, b) (c, d) = ordering_then (cmp_ord a c) (cmp_ord b d)"
  by (auto simp: cmp_ord_def)

lemma exact_ints_apart:
  assumes "i64_key l = i64_key r" and "l \<noteq> r"
  shows "\<not> (- EXACT_INT_BOUND < sint l \<and> sint l < EXACT_INT_BOUND)"
    "\<not> (- EXACT_INT_BOUND < sint r \<and> sint r < EXACT_INT_BOUND)"
proof -
  have "sint l \<noteq> sint r" using assms(2) signed_word_eqI by blast
  then have "\<not> (\<bar>sint l\<bar> < 2 ^ 53 \<or> \<bar>sint r\<bar> < 2 ^ 53)"
    using assms(1) i64_key_strict [of l r] i64_key_strict [of r l] by linarith
  then show "\<not> (- EXACT_INT_BOUND < sint l \<and> sint l < EXACT_INT_BOUND)"
    "\<not> (- EXACT_INT_BOUND < sint r \<and> sint r < EXACT_INT_BOUND)"
    by auto
qed

lemma cmp_encode_num [ord_simps]:
  "cmp_bytes (encode_num a @ s) (encode_num b @ t) = ordering_then (cmp_num a b) (cmp_bytes s t)"
proof -
  define suf where "suf v = drop 8 (encode_num v)" for v
  have enc: "encode_num v = write_u64 (order_encode_f64 (num_get_float v)) @ suf v" for v
    by (simp add: suf_def encode_num_def)
  have "cmp_bytes (encode_num a @ s) (encode_num b @ t) =
      ordering_then (f64_total_cmp (num_get_float a) (num_get_float b)) (cmp_bytes (suf a @ s) (suf b @ t))"
    by (simp add: enc cmp_append_u64 cmp_order_encode_f64)
  also have "\<dots> = ordering_then (f64_total_cmp (num_get_float a) (num_get_float b))
      (ordering_then (cmp_ord (snd (num_key a)) (snd (num_key b))) (cmp_bytes s t))"
  proof (rule ordering_then_cong [OF refl])
    assume eq: "f64_total_cmp (num_get_float a) (num_get_float b) = Equal"
    show "cmp_bytes (suf a @ s) (suf b @ t) =
        ordering_then (cmp_ord (snd (num_key a)) (snd (num_key b))) (cmp_bytes s t)"
    proof (cases "a = b")
      case True
      then show ?thesis by (simp add: lex_cmp_append_refl)
    next
      case False
      show ?thesis
      proof (cases "(a, b)" rule: cmp_num.cases)
        case (3 l r)
        from eq 3 have "i64_key l = i64_key r"
          by (simp add: f64_total_cmp_def num_get_float_def i64_key_def)
        from exact_ints_apart [OF this] 3 False show ?thesis
          by (auto simp: suf_def encode_num_def num_key_def cmp_append_u64 cmp_order_encode_i64 cmp_ord_Pair)
      next
        case (4 l r)
        with False eq show ?thesis
          by (simp add: f64_total_cmp_def num_get_float_def f64_total_key_inj)
      qed (simp_all add: suf_def encode_num_def num_key_def cmp_ord_def)
    qed
  qed
  also have "\<dots> = ordering_then (cmp_num a b) (cmp_bytes s t)"
    by (cases "num_key a"; cases "num_key b")
      (simp add: cmp_num_key cmp_ord_Pair f64_total_cmp_def num_key_def)
  finally show ?thesis .
qed

section \<open>Byte strings\<close>

lemma encode_bytes_from_shift:
  "i \<le> length key \<Longrightarrow> encode_bytes_from (drop i key) j = encode_bytes_from key (i + j)"
proof (induction "Suc (length key) - (i + j)" arbitrary: j rule: less_induct)
  case less
  show ?case
  proof (cases "i + j \<le> length key")
    case True
    then have "encode_bytes_from (drop i key) (j + 8) = encode_bytes_from key (i + (j + 8))"
      using less.prems by (intro less.hyps) auto
    with True show ?thesis
      by (subst (1 2) encode_bytes_from.simps) (simp add: Let_def add.assoc add.commute [of j i])
  next
    case False
    with less.prems show ?thesis by (subst (1 2) encode_bytes_from.simps) auto
  qed
qed

text \<open>The loop, group by group: a full group is followed by more, a short one ends the string.\<close>

lemma encode_bytes_unfold:
  "encode_bytes key =
     (if 8 \<le> length key then take 8 key @ 255 # encode_bytes (drop 8 key)
      else key @ replicate (8 - length key) 0 @ [255 - word_of_nat (8 - length key)])"
proof (cases "8 \<le> length key")
  case True
  have "encode_bytes_from key 8 = encode_bytes (drop 8 key)"
    using True encode_bytes_from_shift [of 8 key 0] by (simp add: encode_bytes_def)
  with True show ?thesis
    by (cases "length key = 8") (simp_all add: encode_bytes_def encode_bytes_from.simps [of key 0] Let_def)
next
  case False
  then have "encode_bytes_from key 8 = []" by (subst encode_bytes_from.simps) simp
  with False show ?thesis
    by (simp add: encode_bytes_def encode_bytes_from.simps [of key 0] Let_def)
qed

lemma decode_bytes_from_encode:
  "decode_bytes_from acc (encode_bytes key @ s) = Some (acc @ key, s)"
proof (induction "length key" arbitrary: key acc rule: less_induct)
  case less
  show ?case
  proof (cases "8 \<le> length key")
    case True
    define k1 k2 where "k1 = take 8 key" and "k2 = drop 8 key"
    have key: "key = k1 @ k2" and len: "length k1 = 8"
      using True by (simp_all add: k1_def k2_def)
    have "encode_bytes key @ s = (k1 @ [255]) @ encode_bytes k2 @ s"
      using True by (subst encode_bytes_unfold) (simp add: k1_def k2_def)
    moreover have "decode_bytes_from (acc @ k1) (encode_bytes k2 @ s) = Some ((acc @ k1) @ k2, s)"
      by (rule less.hyps) (use key len in simp)
    ultimately show ?thesis
      by (subst decode_bytes_from.simps) (simp add: len Let_def key)
  next
    case False
    let ?pad = "8 - length key"
    have "encode_bytes key @ s = (key @ replicate ?pad 0 @ [255 - word_of_nat ?pad]) @ s"
      using False by (subst encode_bytes_unfold) simp
    moreover have "unat (word_of_nat ?pad :: u8) = ?pad"
      by (simp add: unat_of_nat take_bit_eq_mod)
    ultimately show ?thesis
      using False by (subst decode_bytes_from.simps) (simp add: Let_def butlast_append)
  qed
qed

lemma decode_encode_bytes [codec_simps]: "decode_bytes (encode_bytes key @ s) = Some (key, s)"
  by (simp add: decode_bytes_def decode_bytes_from_encode)

text \<open>
  Padding with zeros and recording the number of bytes used keeps the order: where the bytes
  agree, the marker decides for the shorter string.
\<close>

abbreviation zero_pad :: "nat \<Rightarrow> bytes \<Rightarrow> bytes" where
  "zero_pad n a \<equiv> a @ replicate (n - length a) 0"

lemma cmp_zeros_padded:
  "length b \<le> n \<Longrightarrow> ma < mb \<Longrightarrow>
    cmp_bytes (replicate n 0 @ ma # s) (zero_pad n b @ mb # t) = Less"
proof (induction n arbitrary: b)
  case (Suc n)
  from Suc.IH [of "tl b"] Suc.prems show ?case
    by (cases b) (auto simp: cmp_ord_def word_greater_zero_iff)
qed (simp add: cmp_ord_def)

lemma cmp_padded_zeros:
  "length b \<le> n \<Longrightarrow> ma < mb \<Longrightarrow>
    cmp_bytes (zero_pad n b @ mb # t) (replicate n 0 @ ma # s) = Greater"
  using cmp_zeros_padded [of b n ma mb s t] by (simp only: bytes_ord.cmp_Greater)

lemma cmp_padded:
  "\<lbrakk>length a \<le> n; length b \<le> n; cmp_ord ma mb = cmp_ord (length a) (length b)\<rbrakk> \<Longrightarrow>
    cmp_bytes (zero_pad n a @ ma # s) (zero_pad n b @ mb # t)
      = ordering_then (cmp_bytes a b) (cmp_bytes s t)"
proof (induction n arbitrary: a b)
  case 0
  then show ?case by simp
next
  case (Suc n)
  show ?case
  proof (cases a)
    case Nil
    show ?thesis
    proof (cases b)
      case (Cons y b')
      then have "ma < mb" using Suc.prems Nil by (auto simp: cmp_ord_def split: if_splits)
      with Nil Cons Suc.prems cmp_zeros_padded [of b "Suc n" ma mb s t] show ?thesis by simp
    qed (use Nil Suc.prems in \<open>simp add: lex_cmp_append_refl\<close>)
  next
    case (Cons x a')
    show ?thesis
    proof (cases b)
      case Nil
      then have "mb < ma" using Suc.prems Cons by (auto simp: cmp_ord_def split: if_splits)
      with Nil Cons Suc.prems cmp_padded_zeros [of a "Suc n" mb ma s t] show ?thesis by simp
    next
      case (Cons y b')
      with \<open>a = x # a'\<close> Suc show ?thesis
        by (auto simp: cmp_ord_def split: if_splits ordering.splits)
    qed
  qed
qed

lemma marker_order:
  assumes "m \<le> 8" and "n \<le> 8"
  shows "cmp_ord (255 - word_of_nat (8 - m) :: u8) (255 - word_of_nat (8 - n)) = cmp_ord m n"
proof -
  have "unat (255 - word_of_nat (8 - k) :: u8) = 247 + k" if "k \<le> 8" for k
  proof -
    have "unat (word_of_nat (8 - k) :: u8) = 8 - k" by (simp add: unat_of_nat take_bit_eq_mod)
    moreover from this have "word_of_nat (8 - k) \<le> (255 :: u8)" by (simp add: word_le_nat_alt)
    then have "unat (255 - word_of_nat (8 - k) :: u8) = unat (255 :: u8) - unat (word_of_nat (8 - k) :: u8)"
      by (rule unat_sub)
    ultimately show ?thesis using that by (simp del: of_nat_diff)
  qed
  with assms show ?thesis
    by (intro cmp_ord_eqI) (simp_all add: word_less_nat_alt)
qed

lemma lex_cmp_prefix_longer:
  "length b < length a1 \<Longrightarrow> lex_cmp f (a1 @ a2) b = lex_cmp f a1 b"
  by (induction f a1 b rule: lex_cmp.induct) auto

lemma lex_cmp_length_neq:
  "length b \<noteq> length a \<Longrightarrow> lex_cmp f a b \<noteq> Equal"
  by (induction f a b rule: lex_cmp.induct) auto

lemma cmp_encode_bytes_mixed:
  assumes "8 \<le> length a" and "length b < 8"
  shows "cmp_bytes (encode_bytes a @ s) (encode_bytes b @ t) = cmp_bytes a b"
proof -
  let ?a = "take 8 a"
  have "cmp_bytes (encode_bytes a @ s) (encode_bytes b @ t) =
      ordering_then (cmp_bytes ?a b) (cmp_bytes (encode_bytes (drop 8 a) @ s) t)"
    using assms marker_order [of 8 "length b"]
      cmp_padded [of ?a 8 b 255 "255 - word_of_nat (8 - length b)" "encode_bytes (drop 8 a) @ s" t]
    by (simp add: encode_bytes_unfold [of a] encode_bytes_unfold [of b])
  also have "\<dots> = cmp_bytes ?a b"
    by (rule ordering_then_neq) (use assms in \<open>simp add: lex_cmp_length_neq\<close>)
  also have "\<dots> = cmp_bytes a b"
    using assms lex_cmp_prefix_longer [of b ?a cmp_ord "drop 8 a"] by simp
  finally show ?thesis .
qed

lemma cmp_encode_bytes [ord_simps]:
  "cmp_bytes (encode_bytes a @ s) (encode_bytes b @ t) = ordering_then (cmp_bytes a b) (cmp_bytes s t)"
proof (induction "length a" arbitrary: a b rule: less_induct)
  case less
  consider (both) "8 \<le> length a" "8 \<le> length b" | (left) "8 \<le> length a" "length b < 8"
    | (right) "length a < 8" "8 \<le> length b" | (none) "length a < 8" "length b < 8"
    by linarith
  then show ?case
  proof cases
    case both
    then have "cmp_bytes (encode_bytes (drop 8 a) @ s) (encode_bytes (drop 8 b) @ t)
        = ordering_then (cmp_bytes (drop 8 a) (drop 8 b)) (cmp_bytes s t)"
      by (intro less.hyps) simp
    moreover have "cmp_bytes a b = ordering_then (cmp_bytes (take 8 a) (take 8 b)) (cmp_bytes (drop 8 a) (drop 8 b))"
      using both lex_cmp_append_same [of "take 8 a" "take 8 b" cmp_ord "drop 8 a" "drop 8 b"] by simp
    ultimately show ?thesis
      using both
      by (simp add: encode_bytes_unfold [of a] encode_bytes_unfold [of b] lex_cmp_append_same)
  next
    case left
    then have "cmp_bytes a b \<noteq> Equal" by (intro lex_cmp_length_neq) simp
    with left show ?thesis by (simp add: cmp_encode_bytes_mixed ordering_then_neq)
  next
    case right
    then have "cmp_bytes a b \<noteq> Equal" by (intro lex_cmp_length_neq) simp
    moreover have "cmp_bytes (encode_bytes a @ s) (encode_bytes b @ t) = cmp_bytes a b"
      using cmp_encode_bytes_mixed [OF right(2,1), of t s] bytes_ord.cmp_swap [of a b]
        bytes_ord.cmp_swap [of "encode_bytes a @ s" "encode_bytes b @ t"] by simp
    ultimately show ?thesis by (simp add: ordering_then_neq)
  next
    case none
    then show ?thesis
      using marker_order [of "length a" "length b"]
        cmp_padded [of a 8 b "255 - word_of_nat (8 - length a)" "255 - word_of_nat (8 - length b)" s t]
      by (simp add: encode_bytes_unfold [of a] encode_bytes_unfold [of b])
  qed
qed

section \<open>Round trip of values\<close>

text \<open>
  The values the database builds: 16 bytes in a \<open>Uuid\<close>, sets strictly ascending, vectors whose
  length is a \<open>usize\<close>, and JSON and regex texts that their parsers read back as themselves.
\<close>

fun wf_value :: "ext \<Rightarrow> data_value \<Rightarrow> bool" where
  "wf_value E (Uuid u) \<longleftrightarrow> length u = 16"
| "wf_value E (Regex r) \<longleftrightarrow> regex_from_str E r = Some r"
| "wf_value E (Json j) \<longleftrightarrow> json_from_slice E j = Some j"
| "wf_value E (Vec arr) \<longleftrightarrow> vector_len arr < 2 ^ 64"
| "wf_value E (List l) \<longleftrightarrow> list_all (wf_value E) l"
| "wf_value E (Set s) \<longleftrightarrow> list_all (wf_value E) s \<and> bset_wf (cmp_value E) s"
| "wf_value E _ \<longleftrightarrow> True"

lemma encode_datavalue_tag:
  obtains t r where "encode_datavalue v = t # r" and "t \<noteq> INIT_TAG"
proof -
  have "\<exists>t r. encode_datavalue v = t # r \<and> t \<noteq> INIT_TAG" by (cases v) auto
  then show thesis using that by blast
qed

lemma encode_datavalue_length: "0 < length (encode_datavalue v)"
  by (rule encode_datavalue_tag [of v]) simp

lemma decode_chunks_encode:
  assumes "\<And>e. dec (enc e) = e" and "\<And>e. length (enc e) = w"
  shows "decode_chunks w dec (length es) (concat (map enc es) @ s) = Some (es, s)"
  by (induction es) (simp_all add: assms)

lemma decode_vector_encode:
  "vector_len arr < 2 ^ 64 \<Longrightarrow>
   decode_vector ((case arr of
        F32 a \<Rightarrow> VEC_F32 # write_u64 (word_of_nat (length a)) @ concat (map write_u32 a)
      | F64 a \<Rightarrow> VEC_F64 # write_u64 (word_of_nat (length a)) @ concat (map write_u64 a)) @ s)
    = Some (arr, s)"
  by (cases arr)
    (simp_all add: decode_vector_def vector_len_def decode_chunks_encode unat_of_nat take_bit_eq_mod)

lemma decode_validity_encode:
  "decode_validity (write_u64 (NOT (order_encode_i64 (timestamp vld))) @ of_bool (\<not> is_assert vld) # s)
    = Some (vld, s)"
  by (simp add: decode_validity_def)

lemma decode_seq_encode:
  assumes "\<And>v n s. v \<in> set vs \<Longrightarrow> 2 * length (encode_datavalue v) \<le> n \<Longrightarrow>
      decode_value E n (encode_datavalue v @ s) = Some (Some (v, s))"
    and "2 * length (concat (map encode_datavalue vs)) < n"
  shows "decode_seq E n (concat (map encode_datavalue vs) @ INIT_TAG # s) = Some (Some (vs, s))"
  using assms
proof (induction vs arbitrary: n)
  case Nil
  then show ?case by (cases n) simp_all
next
  case (Cons v vs)
  let ?rest = "concat (map encode_datavalue vs) @ INIT_TAG # s"
  obtain m where n: "n = Suc m" using Cons.prems(2) by (cases n) simp_all
  obtain t r where t: "encode_datavalue v = t # r" "t \<noteq> INIT_TAG" by (rule encode_datavalue_tag)
  have "decode_value E m (encode_datavalue v @ ?rest) = Some (Some (v, ?rest))"
    by (rule Cons.prems(1)) (use Cons.prems(2) n in simp_all)
  moreover have "decode_seq E m ?rest = Some (Some (vs, s))"
    by (rule Cons.IH) (use Cons.prems n t in simp_all)
  ultimately show ?case by (simp add: n t)
qed

lemma decode_value_encode:
  "ext_ord E \<Longrightarrow> wf_value E v \<Longrightarrow> 2 * length (encode_datavalue v) \<le> n \<Longrightarrow>
   decode_value E n (encode_datavalue v @ s) = Some (Some (v, s))"
proof (induction v arbitrary: n s)
  case (List l)
  then obtain m where n: "n = Suc m" by (cases n) simp_all
  have "decode_seq E m (concat (map encode_datavalue l) @ INIT_TAG # s) = Some (Some (l, s))"
    by (rule decode_seq_encode) (use List n in \<open>simp_all add: list_all_iff\<close>)
  then show ?case by (simp add: n)
next
  case (Set l)
  then obtain m where n: "n = Suc m" by (cases n) simp_all
  have "decode_seq E m (concat (map encode_datavalue l) @ INIT_TAG # s) = Some (Some (l, s))"
    by (rule decode_seq_encode) (use Set n in \<open>simp_all add: list_all_iff\<close>)
  moreover have "bset_from_iter (cmp_value E) l = l"
    using Set.prems by (simp add: total_cmp.bset_from_iter_wf [OF total_cmp_value])
  ultimately show ?case by (simp add: n)
next
  case (Vec arr)
  then show ?case
    using decode_vector_encode [of arr s] by (cases n) simp_all
next
  case (Validity vld)
  then show ?case
    using decode_validity_encode [of vld s] by (cases n) simp_all
next
  case (Bool b)
  then show ?case by (cases n; cases b) simp_all
next
  case (Num x)
  then show ?case by (cases n) (simp_all add: codec_simps)
next
  case (Uuid u)
  then show ?case by (cases n) simp_all
qed (case_tac n; simp add: codec_simps)+

lemma decode_from_key_encode [codec_simps]:
  "ext_ord E \<Longrightarrow> wf_value E v \<Longrightarrow> decode_from_key E (encode_datavalue v @ s) = Some (v, s)"
  using decode_value_encode [of E v "2 * length (encode_datavalue v @ s) + 2" s]
  by (simp add: decode_from_key_def)

section \<open>The fuel of the decoder\<close>

text \<open>Every decoder consumes input, so twice the length of the input is enough fuel.\<close>

lemma decode_bytes_from_consumes: "decode_bytes_from acc bs = Some (k, r) \<Longrightarrow> length r < length bs"
proof (induction acc bs rule: decode_bytes_from.induct)
  case (1 key data)
  show ?case
  proof (cases "unat (ENC_MARKER - last (take 9 data)) = 0")
    case True
    with "1.IH" "1.prems" show ?thesis
      by (subst (asm) decode_bytes_from.simps) (fastforce simp: Let_def split: if_splits)
  next
    case False
    with "1.prems" show ?thesis
      by (subst (asm) decode_bytes_from.simps) (auto simp: Let_def split: if_splits)
  qed
qed

lemma decode_bytes_consumes: "decode_bytes bs = Some (k, r) \<Longrightarrow> length r < length bs"
  by (simp add: decode_bytes_def decode_bytes_from_consumes)

lemma decode_chunks_consumes: "decode_chunks w dec n bs = Some (es, r) \<Longrightarrow> length r \<le> length bs"
  by (induction n arbitrary: bs es) (fastforce simp: split_at_Some split: option.splits)+

lemma num_decode_consumes: "num_decode_from_key bs = Some (x, r) \<Longrightarrow> length r < length bs"
  by (auto simp: num_decode_from_key_def split_at_Some Let_def
      split: option.splits list.splits if_splits dest!: arg_cong [of "drop 8 bs" _ length])

lemma decode_validity_consumes: "decode_validity bs = Some (x, r) \<Longrightarrow> length r < length bs"
  by (auto simp: decode_validity_def split_at_Some split: option.splits list.splits
      dest!: arg_cong [of "drop 8 bs" _ length])

lemma decode_vector_consumes:
  assumes "decode_vector bs = Some (x, r)"
  shows "length r < length bs"
proof -
  obtain t rest where bs: "bs = t # rest" using assms by (cases bs) (simp_all add: decode_vector_def)
  obtain lb rest' where sp: "split_at 8 rest = Some (lb, rest')"
    using assms by (cases "split_at 8 rest") (auto simp: decode_vector_def bs)
  have "length r \<le> length rest'"
    using assms by (auto simp: decode_vector_def bs sp Let_def split: if_splits dest: decode_chunks_consumes)
  moreover have "length rest' \<le> length rest" using sp by (simp add: split_at_Some)
  ultimately show ?thesis by (simp add: bs)
qed

lemmas decoders_consume = decode_bytes_consumes num_decode_consumes decode_validity_consumes
  decode_vector_consumes

lemma decode_consumes:
  "(\<forall>bs v r. decode_value E n bs = Some (Some (v, r)) \<longrightarrow> length r < length bs) \<and>
   (\<forall>bs vs r. decode_seq E n bs = Some (Some (vs, r)) \<longrightarrow> length r < length bs)"
proof (induction n)
  case (Suc n)
  then have val: "decode_value E n bs = Some (Some (v, r)) \<Longrightarrow> length r < length bs"
    and seq: "decode_seq E n bs = Some (Some (vs, r)) \<Longrightarrow> length r < length bs" for bs v vs r
    by blast+
  have "length r < length bs" if "decode_value E (Suc n) bs = Some (Some (v, r))" for bs v r
  proof (cases bs)
    case (Cons tag rest)
    have "length r \<le> length rest"
      using that unfolding Cons
      by (auto simp: split_at_Some split: if_splits option.splits dest!: decoders_consume seq)
    then show ?thesis by (simp add: Cons)
  qed (use that in simp)
  moreover have "length r < length bs" if "decode_seq E (Suc n) bs = Some (Some (vs, r))" for bs vs r
    using that by (auto split: list.splits if_splits option.splits dest!: val seq)
  ultimately show ?case by blast
qed simp

lemma decode_answers:
  "(\<forall>bs. 2 * length bs < n \<longrightarrow> decode_value E n bs \<noteq> None) \<and>
   (\<forall>bs. 2 * length bs + 1 < n \<longrightarrow> decode_seq E n bs \<noteq> None)"
proof (induction n)
  case (Suc n)
  then have val: "2 * length bs < n \<Longrightarrow> decode_value E n bs \<noteq> None"
    and seq: "2 * length bs + 1 < n \<Longrightarrow> decode_seq E n bs \<noteq> None" for bs
    by blast+
  have "decode_value E (Suc n) bs \<noteq> None" if le: "2 * length bs < Suc n" for bs
  proof (cases bs)
    case (Cons tag rest)
    with le seq [of rest] show ?thesis by simp
  qed simp
  moreover have "decode_seq E (Suc n) bs \<noteq> None" if le: "2 * length bs + 1 < Suc n" for bs
  proof -
    obtain x where x: "decode_value E n bs = Some x" using val [of bs] le by auto
    have "decode_seq E n rest \<noteq> None" if "x = Some (v, rest)" for v rest
      by (rule seq) (use decode_consumes [of E n] x that le in fastforce)
    with x show ?thesis by (auto split: list.split option.split)
  qed
  ultimately show ?case by blast
qed simp

lemma decode_more_fuel:
  "(\<forall>bs r. decode_value E n bs = Some r \<longrightarrow> decode_value E (n + k) bs = Some r) \<and>
   (\<forall>bs r. decode_seq E n bs = Some r \<longrightarrow> decode_seq E (n + k) bs = Some r)"
proof (induction n)
  case (Suc n)
  then have val: "decode_value E n bs = Some x \<Longrightarrow> decode_value E (n + k) bs = Some x"
    and seq: "decode_seq E n bs = Some y \<Longrightarrow> decode_seq E (n + k) bs = Some y" for bs x y
    by blast+
  have "decode_value E (Suc n + k) bs = Some r" if "decode_value E (Suc n) bs = Some r" for bs r
    using that seq [of "tl bs"] by (cases bs) (auto split: if_splits)
  moreover have "decode_seq E (Suc n + k) bs = Some r" if "decode_seq E (Suc n) bs = Some r" for bs r
    using that by (auto dest!: val seq split: list.splits if_splits option.splits)
  ultimately show ?case by blast
qed simp

lemma decode_fuel_enough:
  assumes "2 * length bs + 2 \<le> n"
  shows "decode_value E n bs = Some (decode_from_key E bs)"
proof -
  obtain r where r: "decode_value E (2 * length bs + 2) bs = Some r"
    using decode_answers [of "2 * length bs + 2" E] by fastforce
  obtain k where n: "n = 2 * length bs + 2 + k" using assms by (metis le_add_diff_inverse)
  have "decode_value E n bs = Some r" unfolding n using r decode_more_fuel by blast
  then show ?thesis by (simp only: decode_from_key_def r option.case)
qed

lemma decode_from_key_consumes: "decode_from_key E bs = Some (v, r) \<Longrightarrow> length r < length bs"
  using decode_fuel_enough [of bs "2 * length bs + 2" E] decode_consumes [of E "2 * length bs + 2"]
  by (simp del: decode_value.simps)

section \<open>The order of encodings\<close>

text \<open>
  The values whose tags are in the order of the variants: everything but vectors and JSON (see
  \<open>vec_order_divergence\<close>).
\<close>

fun mem_ordered :: "data_value \<Rightarrow> bool" where
  "mem_ordered (Uuid u) \<longleftrightarrow> length u = 16"
| "mem_ordered (List l) \<longleftrightarrow> list_all mem_ordered l"
| "mem_ordered (Set s) \<longleftrightarrow> list_all mem_ordered s"
| "mem_ordered (Vec _) \<longleftrightarrow> False"
| "mem_ordered (Json _) \<longleftrightarrow> False"
| "mem_ordered _ \<longleftrightarrow> True"

lemma cmp_encode_seq:
  assumes "\<And>v w s t. v \<in> set vs \<Longrightarrow> w \<in> set ws \<Longrightarrow>
      cmp_bytes (encode_datavalue v @ s) (encode_datavalue w @ t)
        = ordering_then (cmp_value E v w) (cmp_bytes s t)"
  shows "cmp_bytes (concat (map encode_datavalue vs) @ INIT_TAG # s)
      (concat (map encode_datavalue ws) @ INIT_TAG # t)
    = ordering_then (cmp_tuple E vs ws) (cmp_bytes s t)"
  using assms
proof (induction "cmp_value E" vs ws rule: lex_cmp.induct)
  case (2 w ws)
  obtain b r where "encode_datavalue w = b # r" "b \<noteq> INIT_TAG" by (rule encode_datavalue_tag)
  then show ?case by (simp add: cmp_ord_def word_greater_zero_iff)
next
  case (3 v vs)
  obtain b r where "encode_datavalue v = b # r" "b \<noteq> INIT_TAG" by (rule encode_datavalue_tag)
  then show ?case by (simp add: cmp_ord_def word_greater_zero_iff)
qed simp_all

lemma cmp_encode_validity:
  "cmp_bytes (write_u64 (NOT (order_encode_i64 (timestamp a))) @ of_bool (\<not> is_assert a) # s)
     (write_u64 (NOT (order_encode_i64 (timestamp b))) @ of_bool (\<not> is_assert b) # t)
   = ordering_then (cmp_validity a b) (cmp_bytes s t)"
proof -
  have "cmp_ord (NOT (order_encode_i64 (timestamp a))) (NOT (order_encode_i64 (timestamp b)))
      = ordering_swap (cmp_ord (order_encode_i64 (timestamp a)) (order_encode_i64 (timestamp b)))"
    by (auto simp: cmp_ord_def word_less_def uint_not_64 word_uint_eq_iff)
  also have "\<dots> = ordering_swap (cmp_ord (sint (timestamp a)) (sint (timestamp b)))"
    by (simp add: cmp_order_encode_i64)
  finally have "cmp_ord (NOT (order_encode_i64 (timestamp a))) (NOT (order_encode_i64 (timestamp b))) = \<dots>" .
  moreover have "cmp_ord (of_bool (\<not> is_assert a) :: u8) (of_bool (\<not> is_assert b))
      = ordering_swap (cmp_ord (is_assert a) (is_assert b))"
    by (auto simp: cmp_ord_def)
  ultimately show ?thesis
    by (simp add: cmp_append_u64 cmp_validity_def)
qed

lemma cmp_encode_datavalue:
  "mem_ordered v \<Longrightarrow> mem_ordered w \<Longrightarrow>
   cmp_bytes (encode_datavalue v @ s) (encode_datavalue w @ t)
     = ordering_then (cmp_value E v w) (cmp_bytes s t)"
proof (induction v arbitrary: w s t)
  case (List l)
  show ?case
  proof (cases w)
    case (List m)
    have "cmp_bytes (concat (map encode_datavalue l) @ INIT_TAG # s)
        (concat (map encode_datavalue m) @ INIT_TAG # t) = ordering_then (cmp_tuple E l m) (cmp_bytes s t)"
      by (rule cmp_encode_seq) (use List.IH List.prems List in \<open>auto simp: list_all_iff\<close>)
    then show ?thesis by (simp add: List)
  qed (use List.prems in \<open>auto simp: cmp_ord_strict\<close>)
next
  case (Set l)
  show ?case
  proof (cases w)
    case (Set m)
    have "cmp_bytes (concat (map encode_datavalue l) @ INIT_TAG # s)
        (concat (map encode_datavalue m) @ INIT_TAG # t) = ordering_then (cmp_tuple E l m) (cmp_bytes s t)"
      by (rule cmp_encode_seq) (use Set.IH Set.prems Set in \<open>auto simp: list_all_iff\<close>)
    then show ?thesis by (simp add: Set)
  qed (use Set.prems in \<open>auto simp: cmp_ord_strict\<close>)
next
  case (Validity a)
  then show ?case
    using cmp_encode_validity [of a s _ t] by (cases w) (simp_all add: cmp_ord_strict)
next
  case (Uuid u)
  then show ?case
    by (cases w) (auto simp: cmp_ord_strict lex_cmp_append_same)
next
  case (Num x)
  then show ?case
    using cmp_encode_num [of x s _ t] by (cases w) (simp_all add: cmp_ord_strict)
next
  case (Bool b)
  then show ?case by (cases w) (auto simp: cmp_ord_strict)
next
  case (Str a)
  then show ?case
    using cmp_encode_bytes [of a s _ t] by (cases w) (simp_all add: cmp_ord_strict)
next
  case (Bytes a)
  then show ?case
    using cmp_encode_bytes [of a s _ t] by (cases w) (simp_all add: cmp_ord_strict)
next
  case (Regex a)
  then show ?case
    using cmp_encode_bytes [of a s _ t] by (cases w) (simp_all add: cmp_ord_strict)
next
  case Null
  show ?case by (cases w) (simp_all add: cmp_ord_strict)
next
  case Bot
  with Bot.prems show ?case by (cases w) (simp_all add: cmp_ord_strict)
qed simp_all

section \<open>Properties\<close>

text \<open>
  C6: Decoding a stored key gives the value back. For every value the database can build
  (\<open>wf_value\<close>), \<open>DataValue::decode_from_key\<close> applied to \<open>encode_datavalue v\<close> followed by any bytes
  returns \<open>v\<close> and exactly those bytes, for every kind of value including nested lists and sets.
\<close>

theorem datavalue_key_roundtrip:
  assumes "ext_ord E" and "wf_value E v"
  shows "decode_from_key E (encode_datavalue v @ suffix) = Some (v, suffix)"
  using assms by (rule decode_from_key_encode)

text \<open>
  A concrete instance of the third-party functions for the witnesses: floats ordered by their bits,
  parsers that accept every text, and a value codec built from the key codec.
\<close>

definition ext_base :: ext where
  "ext_base = \<lparr>of32_cmp = (\<lambda>a b. cmp_ord (uint a) (uint b)), of64_cmp = (\<lambda>a b. cmp_ord (uint a) (uint b)),
     json_from_slice = Some, regex_from_str = Some, uuid_try_parse = (\<lambda>_. None),
     base64_decode = Some, rfc3339_micros = (\<lambda>_. None), json_macro = (\<lambda>_. []),
     json_f32 = (\<lambda>_. []),
     rmp_serialize = (\<lambda>_. None), rmp_from_slice = (\<lambda>_. None)\<rparr>"

definition ext_example :: ext where
  "ext_example = ext_base
     \<lparr>rmp_serialize := (\<lambda>vs. Some (concat (map encode_datavalue vs) @ [INIT_TAG])),
      rmp_from_slice := (\<lambda>bs. case decode_seq ext_base (2 * length bs + 2) bs of
        Some (Some (vs, _)) \<Rightarrow> Some vs | _ \<Rightarrow> None)\<rparr>"

lemma ext_ord_base [simp]: "ext_ord ext_base"
  by (simp add: ext_ord_def ext_base_def total_cmp_image [OF ord.total_cmp_axioms])

lemma ext_ord_example [simp]: "ext_ord ext_example"
  using ext_ord_base by (simp add: ext_ord_def ext_example_def)

lemma rmp_example_roundtrip:
  assumes "list_all (wf_value ext_base) vs"
  shows "\<exists>bs. rmp_serialize ext_example vs = Some bs \<and> rmp_from_slice ext_example bs = Some vs"
proof -
  let ?bs = "concat (map encode_datavalue vs)"
  have "decode_seq ext_base (2 * length (?bs @ [INIT_TAG]) + 2) (?bs @ INIT_TAG # []) = Some (Some (vs, []))"
    by (rule decode_seq_encode)
      (use assms in \<open>auto simp: list_all_iff intro!: decode_value_encode\<close>)
  then show ?thesis by (simp add: ext_example_def del: decode_seq.simps)
qed

theorem datavalue_key_roundtrip_witness:
  "decode_from_key ext_example
     (encode_datavalue (List [Num (IntN (-3)), Set [Null, Str [104, 105]], Vec (F32 [1])]) @ [7, 7])
   = Some (List [Num (IntN (-3)), Set [Null, Str [104, 105]], Vec (F32 [1])], [7, 7])"
  by (rule datavalue_key_roundtrip) (simp_all add: bset_wf_def vector_len_def cmp_ord_def)

text \<open>
  C1: The key encoding is order preserving: comparing two encodings byte by byte, with whatever
  follows them, is comparing the values by \<open>Ord for DataValue\<close> and, when they are equal, comparing
  what follows. It holds for all values free of vectors and JSON.
\<close>

theorem encode_datavalue_order:
  assumes "mem_ordered v" and "mem_ordered w"
  shows "cmp_bytes (encode_datavalue v @ s) (encode_datavalue w @ t)
    = ordering_then (cmp_value E v w) (cmp_bytes s t)"
  using assms by (rule cmp_encode_datavalue)

theorem encode_datavalue_order_witness:
  "cmp_bytes (encode_datavalue (List [Num (FloatN (f64_zero False)), Str [97]]) @ [1])
     (encode_datavalue (List [Num (IntN 0), Bot]) @ [2]) = Greater"
  by (subst encode_datavalue_order [where E = ext_example]) (simp, simp, code_simp)

text \<open>
  C14: The order of vectors and JSON is not kept: \<open>VEC_TAG\<close> is below \<open>NUM_TAG\<close> although \<open>Vec\<close> is
  a later variant than \<open>Num\<close>, and \<open>VLD_TAG\<close> is below \<open>JSON_TAG\<close> although \<open>Validity\<close> is a later
  variant than \<open>Json\<close>. For every vector and number, and every JSON value and validity, the byte
  order of the keys is the opposite of the order of the values.
\<close>

theorem vec_order_divergence:
  "cmp_value E (Num n) (Vec a) = Less \<and> cmp_bytes (encode_datavalue (Num n)) (encode_datavalue (Vec a)) = Greater
   \<and> cmp_value E (Json j) (Validity vld) = Less
   \<and> cmp_bytes (encode_datavalue (Json j)) (encode_datavalue (Validity vld)) = Greater"
  by (simp add: cmp_ord_strict)

text \<open>
  C13: The decoder always answers within its fuel, whatever the bytes are. The recursive decoder has
  three outcomes, a value with what is left of the input, a panic of the code, and running out of
  fuel. With the fuel \<open>decode_from_key\<close> gives it, twice the length of the input plus two, or with
  any more, it does not run out of fuel: it returns the answer of \<open>decode_from_key\<close>, so a \<open>None\<close> of
  \<open>decode_from_key\<close> is a panic.
\<close>

theorem decode_from_key_fuel_enough:
  "decode_value E (2 * length bs + 2 + extra) bs = Some (decode_from_key E bs)"
  by (rule decode_fuel_enough) simp

end
