(* ===== verification/Tuple.thy ===== *)
theory Tuple
  imports Memcmp
begin

text \<open>
  \<open>retia-core/src/data/tuple.rs\<close> and the key and value codec of \<open>retia-core/src/runtime/relation.rs\<close>:
  the eight-byte relation id, tuples as keys, rows as key-value pairs, and the seek step of
  time-travel scans (\<open>check_key_for_validity\<close>). A panic is \<open>None\<close>.
\<close>

type_synonym relation_id = u64

section \<open>Relation ids\<close>

definition relation_id_new :: "u64 \<Rightarrow> relation_id option" where
  "relation_id_new u = (if 2 ^ 48 < u then None else Some u)"

definition relation_id_next :: "relation_id \<Rightarrow> relation_id option" where
  "relation_id_next r = relation_id_new (r + 1)"

definition raw_encode :: "relation_id \<Rightarrow> bytes" where
  "raw_encode r = write_u64 r"

definition raw_decode :: "bytes \<Rightarrow> relation_id option" where
  "raw_decode src = (if length src < 8 then None else relation_id_new (read_u64 (take 8 src)))"

section \<open>Tuples as keys\<close>

abbreviation (input) "ENCODED_KEY_MIN_LEN \<equiv> (8 :: nat)"

definition encode_as_key :: "tuple \<Rightarrow> relation_id \<Rightarrow> bytes" where
  "encode_as_key t prefix = write_u64 prefix @ concat (map encode_datavalue t)"

function decode_tuple_loop :: "ext \<Rightarrow> bytes \<Rightarrow> tuple \<Rightarrow> tuple option" where
  "decode_tuple_loop E remaining ret =
     (if remaining = [] then Some ret
      else (case decode_from_key E remaining of
              None \<Rightarrow> None
            | Some (v, next) \<Rightarrow> decode_tuple_loop E next (ret @ [v])))"
  by pat_completeness auto
termination
  by (relation "measure (\<lambda>(E, remaining, ret). length remaining)")
    (auto dest: decode_from_key_consumes)

declare decode_tuple_loop.simps [simp del]

definition decode_tuple_from_key :: "ext \<Rightarrow> bytes \<Rightarrow> tuple option" where
  "decode_tuple_from_key E key =
     (if length key < ENCODED_KEY_MIN_LEN then None
      else decode_tuple_loop E (drop ENCODED_KEY_MIN_LEN key) [])"

definition extend_tuple_from_v :: "ext \<Rightarrow> tuple \<Rightarrow> bytes \<Rightarrow> tuple option" where
  "extend_tuple_from_v E key v =
     (if v = [] then Some key
      else if length v < ENCODED_KEY_MIN_LEN then None
      else map_option (\<lambda>vals. key @ vals) (rmp_from_slice E (drop ENCODED_KEY_MIN_LEN v)))"

definition decode_tuple_from_kv :: "ext \<Rightarrow> bytes \<Rightarrow> bytes \<Rightarrow> tuple option" where
  "decode_tuple_from_kv E key v =
     (case decode_tuple_from_key E key of
        None \<Rightarrow> None
      | Some tup \<Rightarrow> extend_tuple_from_v E tup v)"

section \<open>Time travel\<close>

definition MAX_VALIDITY_TS :: i64 where
  "MAX_VALIDITY_TS = word_of_int (2 ^ 63 - 1)"

definition TERMINAL_VALIDITY :: validity where
  "TERMINAL_VALIDITY = \<lparr>timestamp = word_of_int (- (2 ^ 63)), is_assert = False\<rparr>"

definition check_key_for_validity :: "ext \<Rightarrow> bytes \<Rightarrow> i64 \<Rightarrow> (tuple option \<times> bytes) option" where
  "check_key_for_validity E key valid_at =
     (case decode_tuple_from_key E key of
        None \<Rightarrow> None
      | Some decoded \<Rightarrow>
          (case raw_decode key of
             None \<Rightarrow> None
           | Some rel_id \<Rightarrow>
               if decoded = [] then None
               else (case last decoded of
                       Validity vld \<Rightarrow>
                         if sint valid_at < sint (timestamp vld) then
                           Some (None, encode_as_key
                             (butlast decoded @ [Validity \<lparr>timestamp = valid_at, is_assert = True\<rparr>]) rel_id)
                         else if \<not> is_assert vld then
                           Some (None, encode_as_key (butlast decoded @ [Validity TERMINAL_VALIDITY]) rel_id)
                         else
                           Some (Some decoded,
                             encode_as_key (butlast decoded @ [Validity TERMINAL_VALIDITY]) rel_id)
                     | _ \<Rightarrow> None)))"

section \<open>Round trips\<close>

lemma raw_decode_encode:
  "r \<le> 2 ^ 48 \<Longrightarrow> raw_decode (raw_encode r @ s) = Some r"
  by (simp add: raw_decode_def raw_encode_def relation_id_new_def)

lemma raw_decode_encode_as_key:
  "r \<le> 2 ^ 48 \<Longrightarrow> raw_decode (encode_as_key t r) = Some r"
  using raw_decode_encode [of r] by (simp add: encode_as_key_def raw_encode_def)

lemma decode_tuple_loop_encode:
  "ext_ord E \<Longrightarrow> list_all (wf_value E) t \<Longrightarrow>
   decode_tuple_loop E (concat (map encode_datavalue t)) acc = Some (acc @ t)"
proof (induction t arbitrary: acc)
  case Nil
  show ?case by (simp add: decode_tuple_loop.simps)
next
  case (Cons v t)
  have "concat (map encode_datavalue (v # t)) \<noteq> []"
    using encode_datavalue_length [of v] by auto
  moreover have "decode_from_key E (concat (map encode_datavalue (v # t)))
      = Some (v, concat (map encode_datavalue t))"
    using Cons.prems decode_from_key_encode [of E v] by simp
  ultimately show ?case
    using Cons by (subst decode_tuple_loop.simps) simp
qed

lemma decode_tuple_encode [codec_simps]:
  "ext_ord E \<Longrightarrow> list_all (wf_value E) t \<Longrightarrow> decode_tuple_from_key E (encode_as_key t r) = Some t"
  by (simp add: decode_tuple_from_key_def encode_as_key_def decode_tuple_loop_encode)

section \<open>Order of keys\<close>

lemma cmp_encode_tuple:
  assumes "list_all mem_ordered vs" and "list_all mem_ordered ws"
  shows "cmp_bytes (concat (map encode_datavalue vs)) (concat (map encode_datavalue ws)) = cmp_tuple E vs ws"
  using assms
proof (induction "cmp_value E" vs ws rule: lex_cmp.induct)
  case (2 w ws)
  obtain b r where "encode_datavalue w = b # r" by (rule encode_datavalue_tag)
  then show ?case by simp
next
  case (3 v vs)
  obtain b r where "encode_datavalue v = b # r" by (rule encode_datavalue_tag)
  then show ?case by simp
next
  case (4 v vs w ws)
  then show ?case by (simp add: cmp_encode_datavalue [where E = E])
qed simp_all

lemma cmp_encode_as_key:
  assumes "list_all mem_ordered t" and "list_all mem_ordered u"
  shows "cmp_bytes (encode_as_key t p) (encode_as_key u q) = ordering_then (cmp_ord p q) (cmp_tuple E t u)"
  unfolding encode_as_key_def
  by (simp add: cmp_append_u64 cmp_encode_tuple [OF assms, where E = E])

lemma cmp_value_EqualD: "mem_ordered v \<Longrightarrow> cmp_value E v w = Equal \<Longrightarrow> v = w"
proof (induction v arbitrary: w)
  case (List l)
  then obtain m where w: "w = List m" "cmp_tuple E l m = Equal"
    by (cases w) (auto simp: cmp_ord_strict)
  have "cmp_tuple E l m = Equal \<Longrightarrow> l = m"
    using List.IH List.prems(1)
    by (induction "cmp_value E" l m rule: lex_cmp.induct) auto
  with w show ?case by simp
next
  case (Set l)
  then obtain m where w: "w = Set m" "cmp_tuple E l m = Equal"
    by (cases w) (auto simp: cmp_ord_strict)
  have "cmp_tuple E l m = Equal \<Longrightarrow> l = m"
    using Set.IH Set.prems(1)
    by (induction "cmp_value E" l m rule: lex_cmp.induct) auto
  with w show ?case by simp
qed (auto simp: num_ord.cmp_Equal_iff validity_ord.cmp_Equal_iff bytes_ord.cmp_Equal_iff
    split: data_value.splits)

lemma cmp_tuple_EqualD: "list_all mem_ordered t \<Longrightarrow> cmp_tuple E t u = Equal \<Longrightarrow> t = u"
  by (induction "cmp_value E" t u rule: lex_cmp.induct) (auto dest: cmp_value_EqualD)

lemma encode_as_key_inj:
  assumes "list_all mem_ordered t" and "list_all mem_ordered u" and "encode_as_key t p = encode_as_key u q"
  shows "t = u \<and> p = q"
proof -
  have "ordering_then (cmp_ord p q) (cmp_tuple E t u) = Equal" for E
    using cmp_encode_as_key [OF assms(1,2)] assms(3) bytes_ord.cmp_refl by metis
  then show ?thesis using cmp_tuple_EqualD [OF assms(1)] by simp
qed

text \<open>
  The keys a prefix scan visits: from the encoded prefix up to the prefix followed by \<open>Bot\<close>, which
  is above every value.
\<close>

lemma cmp_value_Bot: "cmp_value E v Bot = (if v = Bot then Equal else Less)"
  by (cases v) (simp_all add: cmp_ord_strict)

lemma cmp_tuple_prefix:
  assumes "ext_ord E" and "list_all mem_ordered p"
  shows "cmp_tuple E p t \<noteq> Greater \<and> cmp_tuple E t (p @ [Bot]) = Less \<longleftrightarrow>
    (\<exists>r. t = p @ r \<and> (r = [] \<or> hd r \<noteq> Bot))"
  using assms(2)
proof (induction p arbitrary: t)
  case Nil
  show ?case
  proof (cases t)
    case (Cons v r)
    then show ?thesis by (cases r) (simp_all add: cmp_value_Bot)
  qed simp
next
  case (Cons a p)
  note tot = total_cmp_value [OF assms(1)]
  note cmp_refl = total_cmp.cmp_refl [OF tot] and cmp_Greater = total_cmp.cmp_Greater [OF tot]
  show ?case
  proof (cases t)
    case (Cons b t')
    show ?thesis
    proof (cases "cmp_value E a b")
      case Less
      then have "cmp_value E b a = Greater" "a \<noteq> b" by (auto simp: cmp_Greater cmp_refl)
      with Less Cons show ?thesis by simp
    next
      case Equal
      with Cons.prems have "a = b" by (auto dest: cmp_value_EqualD)
      with Cons.IH [of t'] Cons.prems Cons show ?thesis by (simp add: cmp_refl)
    next
      case Greater
      then have "a \<noteq> b" by (auto simp: cmp_refl)
      with Greater Cons show ?thesis by simp
    qed
  qed simp
qed

lemma prefix_scan_bounds:
  assumes "ext_ord E" and "list_all mem_ordered p" and "list_all mem_ordered t"
  shows "cmp_bytes (encode_as_key p r) (encode_as_key t r) \<noteq> Greater \<and>
      cmp_bytes (encode_as_key t r) (encode_as_key (p @ [Bot]) r) = Less \<longleftrightarrow>
    (\<exists>s. t = p @ s \<and> (s = [] \<or> hd s \<noteq> Bot))"
  using cmp_tuple_prefix [OF assms(1,2), of t] assms
  by (simp add: cmp_encode_as_key [where E = E])

section \<open>The seek step of a time-travel scan\<close>

text \<open>A row of a relation with history: the key columns, the validity that ends the key.\<close>

abbreviation vld_key :: "relation_id \<Rightarrow> tuple \<Rightarrow> validity \<Rightarrow> bytes" where
  "vld_key r k v \<equiv> encode_as_key (k @ [Validity v]) r"

lemma check_key_row:
  assumes "ext_ord E" and "list_all (wf_value E) k" and "r \<le> 2 ^ 48"
  shows "check_key_for_validity E (vld_key r k v) valid_at =
    Some (if sint valid_at < sint (timestamp v)
          then (None, vld_key r k \<lparr>timestamp = valid_at, is_assert = True\<rparr>)
          else (if is_assert v then Some (k @ [Validity v]) else None, vld_key r k TERMINAL_VALIDITY))"
  using assms
  by (simp add: check_key_for_validity_def decode_tuple_encode raw_decode_encode_as_key)

lemma TERMINAL_VALIDITY_greatest: "cmp_validity v TERMINAL_VALIDITY \<noteq> Greater"
proof -
  have "sint (word_of_int (- (2 ^ 63)) :: i64) = - (2 ^ 63)"
    by (simp add: sint_64 uint_word_of_int)
  then show ?thesis
    using sint_64_range [of "timestamp v"]
    by (auto simp: cmp_validity_key TERMINAL_VALIDITY_def)
qed

lemma cmp_vld_key:
  assumes "list_all mem_ordered k" and "list_all mem_ordered l" and "length k = length l"
  shows "cmp_bytes (vld_key r k v) (vld_key r l w) = ordering_then (cmp_tuple E k l) (cmp_validity v w)"
  using assms
  by (subst cmp_encode_as_key [where E = E]) (simp_all add: lex_cmp_append_same)

end
