(* ===== verification/Storage.thy ===== *)
theory Storage
  imports Tuple
begin

text \<open>
  \<open>retia-core/src/storage/mod.rs\<close>, \<open>mem.rs\<close> and \<open>temp.rs\<close>: key-value stores and transactions.

  A \<open>BTreeMap<Vec<u8>, Vec<u8>>\<close> is a \<open>btree\<close> over the byte order. A write transaction of the
  memory store holds the store and a change log (a deletion is a \<open>None\<close> in the log); scans merge the
  two with the two-cursor iterator \<open>CacheIter\<close>. The trait \<open>StoreTx\<close> is the locale \<open>store_tx\<close>, with
  the memory and the temporary transaction as its interpretations. A panic is \<open>None\<close>.
\<close>

type_synonym kvstore = "(bytes, bytes) btree"
type_synonym change_log = "(bytes, bytes option) btree"

datatype store_error = WriteInReadTx

datatype mem_tx = Reader kvstore | Writer kvstore change_log

text \<open>\<open>BTreeMap::range(lower..upper)\<close> panics when the bounds are out of order.\<close>

definition btree_range :: "(bytes, 'v) btree \<Rightarrow> bytes \<Rightarrow> bytes \<Rightarrow> (bytes, 'v) btree option" where
  "btree_range m lower upper =
     (if cmp_bytes lower upper = Greater then None else Some (bmap_range cmp_bytes m lower upper False))"

section \<open>The merging iterators\<close>

record cache_iter =
  change_iter :: change_log
  db_iter :: kvstore
  change_cache :: "(bytes \<times> bytes option) option"
  db_cache :: "(bytes \<times> bytes) option"

definition fill_cache :: "cache_iter \<Rightarrow> cache_iter" where
  "fill_cache it =
     (let it = (if change_cache it = None
                then (case change_iter it of
                        [] \<Rightarrow> it
                      | kmv # rest \<Rightarrow> it\<lparr>change_iter := rest, change_cache := Some kmv\<rparr>)
                else it)
      in if db_cache it = None
         then (case db_iter it of
                 [] \<Rightarrow> it
               | kv # rest \<Rightarrow> it\<lparr>db_iter := rest, db_cache := Some kv\<rparr>)
         else it)"

definition iter_size :: "cache_iter \<Rightarrow> nat" where
  "iter_size it = length (change_iter it) + length (db_iter it) +
     (if change_cache it = None then 0 else 1) + (if db_cache it = None then 0 else 1)"

lemma iter_size_fill_cache [simp]: "iter_size (fill_cache it) = iter_size it"
  by (auto simp: iter_size_def fill_cache_def Let_def split: list.splits)

lemma iter_size_take:
  "change_cache it = Some p \<Longrightarrow> iter_size (it\<lparr>change_cache := None\<rparr>) < iter_size it"
  "db_cache it = Some q \<Longrightarrow> iter_size (it\<lparr>db_cache := None\<rparr>) < iter_size it"
  by (simp_all add: iter_size_def)

function (sequential) next_inner ::
  "(bytes \<Rightarrow> bytes \<Rightarrow> 'a) \<Rightarrow> cache_iter \<Rightarrow> 'a option \<times> cache_iter" where
  "next_inner out it0 =
     (let it = fill_cache it0 in
      case (change_cache it, db_cache it) of
        (None, None) \<Rightarrow> (None, it)
      | (Some (k, cv), None) \<Rightarrow>
          (case cv of
             None \<Rightarrow> next_inner out (it\<lparr>change_cache := None\<rparr>)
           | Some v \<Rightarrow> (Some (out k v), it\<lparr>change_cache := None\<rparr>))
      | (None, Some (k, v)) \<Rightarrow> (Some (out k v), it\<lparr>db_cache := None\<rparr>)
      | (Some (ck, sv), Some (dk, v)) \<Rightarrow>
          (case cmp_bytes ck dk of
             Less \<Rightarrow>
               (case sv of
                  None \<Rightarrow> next_inner out (it\<lparr>change_cache := None\<rparr>)
                | Some v \<Rightarrow> (Some (out ck v), it\<lparr>change_cache := None\<rparr>))
           | Greater \<Rightarrow> (Some (out dk v), it\<lparr>db_cache := None\<rparr>)
           | Equal \<Rightarrow> next_inner out (it\<lparr>db_cache := None\<rparr>)))"
  by pat_completeness auto
termination
proof (relation "measure (\<lambda>(out, it). iter_size it)", goal_cases)
  case 1
  show ?case by simp
next
  case (2 out it0 it x y a k cv)
  then have "change_cache it = Some a" by auto
  with 2(1) iter_size_take(1) [OF this] show ?case by simp
next
  case (3 out it0 it x y a ck sv b dk v)
  then have "change_cache it = Some a" by auto
  with 3(1) iter_size_take(1) [OF this] show ?case by simp
next
  case (4 out it0 it x y a ck sv b dk v)
  then have "db_cache it = Some b" by auto
  with 4(1) iter_size_take(2) [OF this] show ?case by simp
qed

declare next_inner.simps [simp del]

text \<open>What is still to come from the two cursors, and the merge the iterator computes.\<close>

definition pending_changes :: "cache_iter \<Rightarrow> change_log" where
  "pending_changes it = (case change_cache it of None \<Rightarrow> change_iter it | Some p \<Rightarrow> p # change_iter it)"

definition pending_rows :: "cache_iter \<Rightarrow> kvstore" where
  "pending_rows it = (case db_cache it of None \<Rightarrow> db_iter it | Some p \<Rightarrow> p # db_iter it)"

fun overlay :: "change_log \<Rightarrow> kvstore \<Rightarrow> kvstore" where
  "overlay [] d = d"
| "overlay ((ck, cv) # c) [] = (case cv of None \<Rightarrow> overlay c [] | Some v \<Rightarrow> (ck, v) # overlay c [])"
| "overlay ((ck, cv) # c) ((dk, dv) # d) =
     (case cmp_bytes ck dk of
        Less \<Rightarrow> (case cv of None \<Rightarrow> overlay c ((dk, dv) # d) | Some v \<Rightarrow> (ck, v) # overlay c ((dk, dv) # d))
      | Greater \<Rightarrow> (dk, dv) # overlay ((ck, cv) # c) d
      | Equal \<Rightarrow> overlay ((ck, cv) # c) d)"

lemma fill_cache_fields:
  "change_iter (fill_cache it) = (if change_cache it = None then tl (change_iter it) else change_iter it)"
  "db_iter (fill_cache it) = (if db_cache it = None then tl (db_iter it) else db_iter it)"
  "change_cache (fill_cache it) = (case change_cache it of
     None \<Rightarrow> (case change_iter it of [] \<Rightarrow> None | p # _ \<Rightarrow> Some p) | Some p \<Rightarrow> Some p)"
  "db_cache (fill_cache it) = (case db_cache it of
     None \<Rightarrow> (case db_iter it of [] \<Rightarrow> None | p # _ \<Rightarrow> Some p) | Some p \<Rightarrow> Some p)"
  unfolding fill_cache_def Let_def
  by (cases "change_cache it"; cases "change_iter it"; cases "db_cache it"; cases "db_iter it"; simp)+

lemma pending_fill_cache [simp]:
  "pending_changes (fill_cache it) = pending_changes it"
  "pending_rows (fill_cache it) = pending_rows it"
  by (cases "change_cache it"; cases "change_iter it"; simp add: pending_changes_def fill_cache_fields)
    (cases "db_cache it"; cases "db_iter it"; simp add: pending_rows_def fill_cache_fields)

lemma filled_change:
  "change_cache (fill_cache it) = None \<Longrightarrow> pending_changes it = []"
  "change_cache (fill_cache it) = Some p \<Longrightarrow>
     pending_changes it = p # pending_changes (fill_cache it\<lparr>change_cache := None\<rparr>)"
  by (cases "change_cache it"; cases "change_iter it"; simp add: pending_changes_def fill_cache_fields)+

lemma filled_db:
  "db_cache (fill_cache it) = None \<Longrightarrow> pending_rows it = []"
  "db_cache (fill_cache it) = Some p \<Longrightarrow>
     pending_rows it = p # pending_rows (fill_cache it\<lparr>db_cache := None\<rparr>)"
  by (cases "db_cache it"; cases "db_iter it"; simp add: pending_rows_def fill_cache_fields)+

lemma pending_take [simp]:
  "pending_rows (it\<lparr>change_cache := x\<rparr>) = pending_rows it"
  "pending_changes (it\<lparr>db_cache := y\<rparr>) = pending_changes it"
  by (simp_all add: pending_rows_def pending_changes_def split: option.split)

definition next_spec :: "(bytes \<Rightarrow> bytes \<Rightarrow> 'a) \<Rightarrow> kvstore \<Rightarrow> nat \<Rightarrow> 'a option \<times> cache_iter \<Rightarrow> bool" where
  "next_spec out rows n res =
     (case res of
        (None, it') \<Rightarrow> rows = []
      | (Some x, it') \<Rightarrow> iter_size it' < n \<and>
          (\<exists>k v. x = out k v \<and> rows = (k, v) # overlay (pending_changes it') (pending_rows it')))"

lemma next_spec_mono:
  "next_spec out rows m res \<Longrightarrow> m < n \<Longrightarrow> next_spec out rows n res"
  by (auto simp: next_spec_def split: prod.splits option.splits)

lemma next_spec_emit:
  "iter_size it' < n \<Longrightarrow> rows = (k, v) # overlay (pending_changes it') (pending_rows it') \<Longrightarrow>
   next_spec out rows n (Some (out k v), it')"
  by (auto simp: next_spec_def)

text \<open>One turn of the loop, by what the two cursors hold after \<open>fill_cache\<close>.\<close>

lemma next_inner_step:
  fixes it
  defines "it1 \<equiv> fill_cache it"
  shows "change_cache it1 = None \<Longrightarrow> db_cache it1 = None \<Longrightarrow> next_inner out it = (None, it1)"
    and "change_cache it1 = Some (k, None) \<Longrightarrow> db_cache it1 = None \<Longrightarrow>
      next_inner out it = next_inner out (it1\<lparr>change_cache := None\<rparr>)"
    and "change_cache it1 = Some (k, Some v) \<Longrightarrow> db_cache it1 = None \<Longrightarrow>
      next_inner out it = (Some (out k v), it1\<lparr>change_cache := None\<rparr>)"
    and "change_cache it1 = None \<Longrightarrow> db_cache it1 = Some (dk, dv) \<Longrightarrow>
      next_inner out it = (Some (out dk dv), it1\<lparr>db_cache := None\<rparr>)"
    and "change_cache it1 = Some (k, cv) \<Longrightarrow> db_cache it1 = Some (dk, dv) \<Longrightarrow>
      next_inner out it =
        (case cmp_bytes k dk of
           Less \<Rightarrow> (case cv of None \<Rightarrow> next_inner out (it1\<lparr>change_cache := None\<rparr>)
                   | Some v \<Rightarrow> (Some (out k v), it1\<lparr>change_cache := None\<rparr>))
         | Greater \<Rightarrow> (Some (out dk dv), it1\<lparr>db_cache := None\<rparr>)
         | Equal \<Rightarrow> next_inner out (it1\<lparr>db_cache := None\<rparr>))"
  unfolding it1_def by (subst next_inner.simps, simp add: Let_def)+

lemma next_inner_overlay:
  "next_spec out (overlay (pending_changes it) (pending_rows it)) (iter_size it) (next_inner out it)"
proof (induction "iter_size it" arbitrary: it rule: less_induct)
  case less
  define it1 where "it1 = fill_cache it"
  have sz: "iter_size it = iter_size it1" by (simp add: it1_def)
  let ?c = "it1\<lparr>change_cache := None\<rparr>" and ?d = "it1\<lparr>db_cache := None\<rparr>"
  note step = next_inner_step [of it, folded it1_def, where out = out]
  note pc = filled_change [of it, folded it1_def] and pd = filled_db [of it, folded it1_def]
  have same: "pending_rows ?c = pending_rows it" "pending_changes ?d = pending_changes it"
    by (simp_all add: it1_def)
  have c: "iter_size ?c < iter_size it" if "change_cache it1 = Some p" for p
    using iter_size_take(1) [OF that] sz by simp
  have d: "iter_size ?d < iter_size it" if "db_cache it1 = Some p" for p
    using iter_size_take(2) [OF that] sz by simp
  have IH: "next_spec out (overlay (pending_changes it') (pending_rows it')) (iter_size it) (next_inner out it')"
    if "iter_size it' < iter_size it" for it'
    using less.hyps [OF that] that by (rule next_spec_mono)
  show ?case
  proof (cases "change_cache it1")
    case None
    show ?thesis
    proof (cases "db_cache it1")
      case None
      then show ?thesis
        using step(1) \<open>change_cache it1 = None\<close> pc(1) pd(1) by (simp add: next_spec_def)
    next
      case (Some kv)
      then show ?thesis
        using step(4) \<open>change_cache it1 = None\<close> pc(1) pd(2) [OF Some] d [OF Some] same
        by (cases kv) (auto intro!: next_spec_emit)
    qed
  next
    case change: (Some kcv)
    obtain k cv where kcv: "kcv = (k, cv)" by (cases kcv)
    have PC: "pending_changes it = (k, cv) # pending_changes ?c" using pc(2) [OF change] kcv by simp
    show ?thesis
    proof (cases "db_cache it1")
      case None
      then have PD: "pending_rows it = []" by (rule pd)
      show ?thesis
      proof (cases cv)
        case None
        with step(2) change \<open>db_cache it1 = None\<close> kcv IH [OF c [OF change]] same PC PD show ?thesis by simp
      next
        case (Some v)
        with step(3) change \<open>db_cache it1 = None\<close> kcv c [OF change] same PC PD show ?thesis
          by (auto intro!: next_spec_emit)
      qed
    next
      case (Some dkv)
      obtain dk dv where dkv: "dkv = (dk, dv)" by (cases dkv)
      have PD: "pending_rows it = (dk, dv) # pending_rows ?d" using pd(2) [OF Some] dkv by simp
      note st = step(5) [OF change [unfolded kcv] Some [unfolded dkv]]
      note c' = c [OF change] and d' = d [OF Some]
      show ?thesis
      proof (cases "cmp_bytes k dk")
        case Less
        then show ?thesis
          using st IH [OF c'] c' PC PD same by (cases cv) (auto intro!: next_spec_emit)
      next
        case Equal
        then show ?thesis using st IH [OF d'] PC PD same by simp
      next
        case Greater
        then show ?thesis using st d' PC PD same by (auto intro!: next_spec_emit)
      qed
    qed
  qed
qed

text \<open>Collecting the iterator: the rows of the merge, in order.\<close>

function cache_collect :: "(bytes \<Rightarrow> bytes \<Rightarrow> 'a) \<Rightarrow> cache_iter \<Rightarrow> 'a list" where
  "cache_collect out it =
     (case next_inner out it of
        (None, _) \<Rightarrow> []
      | (Some x, it') \<Rightarrow> x # cache_collect out it')"
  by pat_completeness auto
termination
proof (relation "measure (\<lambda>(out, it). iter_size it)", goal_cases)
  case (2 out it r it' x)
  then show ?case using next_inner_overlay [of out it] by (auto simp: next_spec_def)
qed simp

declare cache_collect.simps [simp del]

definition cache_iter_new :: "change_log \<Rightarrow> kvstore \<Rightarrow> cache_iter" where
  "cache_iter_new c d = \<lparr>change_iter = c, db_iter = d, change_cache = None, db_cache = None\<rparr>"

lemma cache_collect_pending:
  "cache_collect out it = map (\<lambda>(k, v). out k v) (overlay (pending_changes it) (pending_rows it))"
proof (induction out it rule: cache_collect.induct)
  case (1 out it)
  show ?case
  proof (cases "next_inner out it")
    case (Pair r it')
    then show ?thesis
      using 1 next_inner_overlay [of out it]
      by (subst cache_collect.simps) (auto simp: next_spec_def split: option.splits)
  qed
qed

lemma cache_collect_overlay:
  "cache_collect out (cache_iter_new c d) = map (\<lambda>(k, v). out k v) (overlay c d)"
  by (simp add: cache_collect_pending cache_iter_new_def pending_changes_def pending_rows_def)

text \<open>The merge holds what the log says where it says something, else what the store holds.\<close>

lemma fst_overlay: "(k, v) \<in> set (overlay c d) \<Longrightarrow> k \<in> fst ` set c \<union> fst ` set d"
  by (induction c d rule: overlay.induct) (force split: ordering.splits option.splits)+

lemma bmap_wf_overlay:
  assumes "bmap_wf cmp_bytes c" and "bmap_wf cmp_bytes d"
  shows "bmap_wf cmp_bytes (overlay c d)"
  using assms
proof (induction c d rule: overlay.induct)
  case (2 ck cv c)
  then show ?case
    by (fastforce simp: bmap_wf_Cons split: option.splits dest: fst_overlay)
next
  case (3 ck cv c dk dv d)
  show ?case
  proof (cases "cmp_bytes ck dk")
    case Less
    then have "\<forall>p \<in> set d. cmp_bytes ck (fst p) = Less"
      using "3.prems" by (auto simp: bmap_wf_Cons intro: bytes_ord.cmp_trans_less)
    with Less 3 show ?thesis
      by (fastforce simp: bmap_wf_Cons split: option.splits dest: fst_overlay)
  next
    case Equal
    with 3 show ?thesis by (simp add: bmap_wf_Cons)
  next
    case Greater
    then have less: "cmp_bytes dk ck = Less" by (simp add: bytes_ord.cmp_Greater)
    then have "\<forall>p \<in> set c. cmp_bytes dk (fst p) = Less"
      using "3.prems" by (auto simp: bmap_wf_Cons intro: bytes_ord.cmp_trans_less)
    with less Greater 3 show ?thesis
      by (fastforce simp: bmap_wf_Cons dest: fst_overlay)
  qed
qed simp

lemma bmap_get_below: "\<forall>p \<in> set m. cmp_bytes k (fst p) = Less \<Longrightarrow> bmap_get cmp_bytes m k = None"
  by (auto simp: bmap_get_None)

lemma bmap_get_overlay:
  assumes "bmap_wf cmp_bytes c" and "bmap_wf cmp_bytes d"
  shows "bmap_get cmp_bytes (overlay c d) k =
    (case bmap_get cmp_bytes c k of None \<Rightarrow> bmap_get cmp_bytes d k | Some mv \<Rightarrow> mv)"
  using assms
proof (induction c d rule: overlay.induct)
  case (2 ck cv c)
  have "bmap_get cmp_bytes c ck = None" by (rule bmap_get_below) (use 2 in \<open>simp add: bmap_wf_Cons\<close>)
  with 2 show ?case by (auto simp: bmap_wf_Cons bytes_ord.cmp_Equal_iff split: option.splits)
next
  case (3 ck cv c dk dv d)
  have c: "bmap_get cmp_bytes c ck = None"
    by (rule bmap_get_below) (use "3.prems" in \<open>simp add: bmap_wf_Cons\<close>)
  show ?case
  proof (cases "cmp_bytes ck dk")
    case Less
    have "bmap_get cmp_bytes ((dk, dv) # d) ck = None"
      by (rule bmap_get_below)
        (use Less "3.prems" in \<open>auto simp: bmap_wf_Cons intro: bytes_ord.cmp_trans_less\<close>)
    with Less 3 c show ?thesis
      by (auto simp: bmap_wf_Cons bytes_ord.cmp_Equal_iff split: option.splits if_splits)
  next
    case Equal
    with 3 show ?thesis
      by (auto simp: bmap_wf_Cons bytes_ord.cmp_Equal_iff bytes_ord.cmp_refl split: option.splits)
  next
    case Greater
    then have "cmp_bytes dk ck = Less" by (simp add: bytes_ord.cmp_Greater)
    then have "bmap_get cmp_bytes ((ck, cv) # c) dk = None"
      by (intro bmap_get_below)
        (use "3.prems" in \<open>auto simp: bmap_wf_Cons intro: bytes_ord.cmp_trans_less\<close>)
    with Greater 3 show ?thesis
      by (auto simp: bmap_wf_Cons bytes_ord.cmp_Equal_iff split: option.splits if_splits)
  qed
qed simp

section \<open>Transactions of the memory store\<close>

fun mem_transact :: "kvstore \<Rightarrow> bool \<Rightarrow> mem_tx" where
  "mem_transact store write = (if write then Writer store [] else Reader store)"

definition mem_batch_put :: "kvstore \<Rightarrow> (bytes \<times> bytes) list \<Rightarrow> kvstore" where
  "mem_batch_put store data = foldl (\<lambda>store (k, v). bmap_insert cmp_bytes k v store) store data"

fun mem_get :: "mem_tx \<Rightarrow> bytes \<Rightarrow> bytes option" where
  "mem_get (Reader rdr) key = bmap_get cmp_bytes rdr key"
| "mem_get (Writer wtr cache) key =
     (case bmap_get cmp_bytes cache key of
        Some r \<Rightarrow> r
      | None \<Rightarrow> bmap_get cmp_bytes wtr key)"

fun mem_put :: "mem_tx \<Rightarrow> bytes \<Rightarrow> bytes \<Rightarrow> store_error + mem_tx" where
  "mem_put (Reader _) key v = Inl WriteInReadTx"
| "mem_put (Writer wtr cache) key v = Inr (Writer wtr (bmap_insert cmp_bytes key (Some v) cache))"

fun mem_del :: "mem_tx \<Rightarrow> bytes \<Rightarrow> store_error + mem_tx" where
  "mem_del (Reader _) key = Inl WriteInReadTx"
| "mem_del (Writer wtr cache) key = Inr (Writer wtr (bmap_insert cmp_bytes key None cache))"

fun mem_del_range_from_persisted ::
  "mem_tx \<Rightarrow> bytes \<Rightarrow> bytes \<Rightarrow> (store_error + mem_tx) option" where
  "mem_del_range_from_persisted (Reader _) lower upper = Some (Inl WriteInReadTx)"
| "mem_del_range_from_persisted (Writer wtr cache) lower upper =
     map_option
       (\<lambda>rows. Inr (Writer (foldl (\<lambda>w k. bmap_remove cmp_bytes k w) wtr (map fst rows)) cache))
       (btree_range wtr lower upper)"

fun mem_exists :: "mem_tx \<Rightarrow> bytes \<Rightarrow> bool" where
  "mem_exists (Reader rdr) key = bmap_contains_key cmp_bytes rdr key"
| "mem_exists (Writer wtr cache) key =
     (case bmap_get cmp_bytes cache key of
        Some r \<Rightarrow> r \<noteq> None
      | None \<Rightarrow> bmap_contains_key cmp_bytes wtr key)"

definition commit_change :: "kvstore \<Rightarrow> bytes \<times> bytes option \<Rightarrow> kvstore" where
  "commit_change wtr kmv =
     (case snd kmv of
        None \<Rightarrow> bmap_remove cmp_bytes (fst kmv) wtr
      | Some v \<Rightarrow> bmap_insert cmp_bytes (fst kmv) v wtr)"

fun mem_commit :: "mem_tx \<Rightarrow> mem_tx" where
  "mem_commit (Reader rdr) = Reader rdr"
| "mem_commit (Writer wtr cached) = Writer (foldl commit_change wtr cached) []"

fun mem_range_scan :: "mem_tx \<Rightarrow> bytes \<Rightarrow> bytes \<Rightarrow> (bytes \<times> bytes) list option" where
  "mem_range_scan (Reader rdr) lower upper = btree_range rdr lower upper"
| "mem_range_scan (Writer wtr cache) lower upper =
     (case (btree_range cache lower upper, btree_range wtr lower upper) of
        (Some c, Some d) \<Rightarrow> Some (cache_collect Pair (cache_iter_new c d))
      | _ \<Rightarrow> None)"

fun mem_range_scan_tuple :: "ext \<Rightarrow> mem_tx \<Rightarrow> bytes \<Rightarrow> bytes \<Rightarrow> tuple list option" where
  "mem_range_scan_tuple E (Reader rdr) lower upper =
     Option.bind (btree_range rdr lower upper)
       (\<lambda>rows. those (map (\<lambda>(k, v). decode_tuple_from_kv E k v) rows))"
| "mem_range_scan_tuple E (Writer wtr cache) lower upper =
     (case (btree_range cache lower upper, btree_range wtr lower upper) of
        (Some c, Some d) \<Rightarrow> those (cache_collect (decode_tuple_from_kv E) (cache_iter_new c d))
      | _ \<Rightarrow> None)"

fun mem_range_count :: "mem_tx \<Rightarrow> bytes \<Rightarrow> bytes \<Rightarrow> nat option" where
  "mem_range_count (Reader rdr) lower upper = map_option length (btree_range rdr lower upper)"
| "mem_range_count (Writer wtr cache) lower upper =
     (case (btree_range cache lower upper, btree_range wtr lower upper) of
        (Some c, Some d) \<Rightarrow> Some (length (cache_collect Pair (cache_iter_new c d)))
      | _ \<Rightarrow> None)"

fun mem_total_scan :: "mem_tx \<Rightarrow> (bytes \<times> bytes) list" where
  "mem_total_scan (Reader rdr) = rdr"
| "mem_total_scan (Writer wtr cache) = cache_collect Pair (cache_iter_new cache wtr)"

fun mem_store :: "mem_tx \<Rightarrow> kvstore" where
  "mem_store (Reader rdr) = rdr"
| "mem_store (Writer wtr cache) = wtr"

section \<open>The temporary store\<close>

type_synonym temp_tx = kvstore

definition temp_get :: "temp_tx \<Rightarrow> bytes \<Rightarrow> bytes option" where
  "temp_get tx key = bmap_get cmp_bytes tx key"

definition temp_put :: "temp_tx \<Rightarrow> bytes \<Rightarrow> bytes \<Rightarrow> store_error + temp_tx" where
  "temp_put tx key v = Inr (bmap_insert cmp_bytes key v tx)"

definition temp_del :: "temp_tx \<Rightarrow> bytes \<Rightarrow> store_error + temp_tx" where
  "temp_del tx key = Inr (bmap_remove cmp_bytes key tx)"

definition temp_exists :: "temp_tx \<Rightarrow> bytes \<Rightarrow> bool" where
  "temp_exists tx key = bmap_contains_key cmp_bytes tx key"

definition temp_del_range_from_persisted :: "temp_tx \<Rightarrow> bytes \<Rightarrow> bytes \<Rightarrow> store_error + temp_tx" where
  "temp_del_range_from_persisted tx lower upper = Inr tx"

definition temp_commit :: "temp_tx \<Rightarrow> temp_tx" where
  "temp_commit tx = tx"

definition temp_range_scan :: "temp_tx \<Rightarrow> bytes \<Rightarrow> bytes \<Rightarrow> (bytes \<times> bytes) list option" where
  "temp_range_scan tx lower upper = btree_range tx lower upper"

definition temp_range_scan_tuple :: "ext \<Rightarrow> temp_tx \<Rightarrow> bytes \<Rightarrow> bytes \<Rightarrow> tuple list option" where
  "temp_range_scan_tuple E tx lower upper =
     Option.bind (btree_range tx lower upper)
       (\<lambda>rows. those (map (\<lambda>(k, v). decode_tuple_from_kv E k v) rows))"

definition temp_range_count :: "temp_tx \<Rightarrow> bytes \<Rightarrow> bytes \<Rightarrow> nat option" where
  "temp_range_count tx lower upper = map_option length (btree_range tx lower upper)"

definition temp_total_scan :: "temp_tx \<Rightarrow> (bytes \<times> bytes) list" where
  "temp_total_scan tx = tx"

section \<open>The contract of \<open>StoreTx\<close>\<close>

datatype store_op = Put bytes bytes | Del bytes

fun run_ops ::
  "('t \<Rightarrow> bytes \<Rightarrow> bytes \<Rightarrow> store_error + 't) \<Rightarrow> ('t \<Rightarrow> bytes \<Rightarrow> store_error + 't) \<Rightarrow>
   't \<Rightarrow> store_op list \<Rightarrow> store_error + 't" where
  "run_ops put del tx [] = Inr tx"
| "run_ops put del tx (oper # ops) =
     (case (case oper of Put k v \<Rightarrow> put tx k v | Del k \<Rightarrow> del tx k) of
        Inl e \<Rightarrow> Inl e
      | Inr tx' \<Rightarrow> run_ops put del tx' ops)"

fun apply_ops :: "(bytes \<Rightarrow> bytes option) \<Rightarrow> store_op list \<Rightarrow> bytes \<Rightarrow> bytes option" where
  "apply_ops m [] = m"
| "apply_ops m (Put k v # ops) = apply_ops (m(k \<mapsto> v)) ops"
| "apply_ops m (Del k # ops) = apply_ops (m(k := None)) ops"

definition key_in_range :: "bytes \<Rightarrow> bytes \<Rightarrow> bytes \<Rightarrow> bool" where
  "key_in_range lower upper k \<longleftrightarrow> cmp_bytes lower k \<noteq> Greater \<and> cmp_bytes k upper = Less"

locale store_read =
  fixes tx_inv :: "'t \<Rightarrow> bool"
    and tx_get :: "'t \<Rightarrow> bytes \<Rightarrow> bytes option"
    and tx_exists :: "'t \<Rightarrow> bytes \<Rightarrow> bool"
    and tx_scan :: "'t \<Rightarrow> bytes \<Rightarrow> bytes \<Rightarrow> (bytes \<times> bytes) list option"
    and tx_scan_tuple :: "ext \<Rightarrow> 't \<Rightarrow> bytes \<Rightarrow> bytes \<Rightarrow> tuple list option"
  assumes exists_law: "tx_inv tx \<Longrightarrow> tx_exists tx k \<longleftrightarrow> tx_get tx k \<noteq> None"
    and scan_law: "tx_inv tx \<Longrightarrow> cmp_bytes lower upper \<noteq> Greater \<Longrightarrow>
      \<exists>rows. tx_scan tx lower upper = Some rows \<and> bmap_wf cmp_bytes rows \<and>
        (\<forall>k. bmap_get cmp_bytes rows k = (if key_in_range lower upper k then tx_get tx k else None))"
    and scan_tuple_law: "tx_scan_tuple E tx lower upper =
      Option.bind (tx_scan tx lower upper) (\<lambda>rows. those (map (\<lambda>(k, v). decode_tuple_from_kv E k v) rows))"
begin

lemma scan_mem:
  assumes "tx_inv tx" and "cmp_bytes lower upper \<noteq> Greater"
  obtains rows where "tx_scan tx lower upper = Some rows" and "bmap_wf cmp_bytes rows"
    and "\<And>k v. (k, v) \<in> set rows \<longleftrightarrow> key_in_range lower upper k \<and> tx_get tx k = Some v"
proof -
  obtain rows where "tx_scan tx lower upper = Some rows" and wf: "bmap_wf cmp_bytes rows"
    and "\<And>k. bmap_get cmp_bytes rows k = (if key_in_range lower upper k then tx_get tx k else None)"
    using scan_law [OF assms] by blast
  then show thesis
    using that [of rows] by (auto simp flip: bytes_ord.bmap_get_Some_iff [OF wf] split: if_splits)
qed

text \<open>A scan of a smaller range is the part of the larger scan that lies in it.\<close>

lemma scan_narrow:
  assumes inv: "tx_inv tx" and rows: "tx_scan tx lower upper = Some rows"
    and ord: "cmp_bytes lower upper \<noteq> Greater"
    and sub: "cmp_bytes lower lower' \<noteq> Greater" "cmp_bytes lower' upper' \<noteq> Greater" "cmp_bytes upper' upper \<noteq> Greater"
  shows "tx_scan tx lower' upper' = Some (filter (\<lambda>(k, v). key_in_range lower' upper' k) rows)"
proof -
  obtain rows1 where r1: "tx_scan tx lower upper = Some rows1" "bmap_wf cmp_bytes rows1"
    "\<And>k v. (k, v) \<in> set rows1 \<longleftrightarrow> key_in_range lower upper k \<and> tx_get tx k = Some v"
    using scan_mem [OF inv ord] by blast
  obtain rows2 where r2: "tx_scan tx lower' upper' = Some rows2" "bmap_wf cmp_bytes rows2"
    "\<And>k v. (k, v) \<in> set rows2 \<longleftrightarrow> key_in_range lower' upper' k \<and> tx_get tx k = Some v"
    using scan_mem [OF inv sub(2)] by blast
  let ?f = "filter (\<lambda>(k, v). key_in_range lower' upper' k) rows"
  have wf: "bmap_wf cmp_bytes ?f" using r1 rows by (simp add: bytes_ord.bmap_wf_filter)
  have "key_in_range lower' upper' k \<Longrightarrow> key_in_range lower upper k" for k
    using bytes_ord.cmp_le_trans [OF sub(1), of k] bytes_ord.cmp_less_le_trans [of k upper' upper] sub(3)
    by (auto simp: key_in_range_def)
  then have "(k, v) \<in> set ?f \<longleftrightarrow> (k, v) \<in> set rows2" for k v
    using r1(1,3) r2(3) rows by auto
  then have "?f = rows2"
    by (intro bytes_ord.bmap_ext [OF wf r2(2)] option_eq_SomeI)
      (simp add: bytes_ord.bmap_get_Some_iff [OF wf] bytes_ord.bmap_get_Some_iff [OF r2(2)])
  with r2(1) show ?thesis by simp
qed

end

locale store_tx = store_read +
  fixes tx_writable :: "'t \<Rightarrow> bool"
    and tx_put :: "'t \<Rightarrow> bytes \<Rightarrow> bytes \<Rightarrow> store_error + 't"
    and tx_del :: "'t \<Rightarrow> bytes \<Rightarrow> store_error + 't"
  assumes put_law: "tx_inv tx \<Longrightarrow> tx_writable tx \<Longrightarrow>
      \<exists>tx'. tx_put tx k v = Inr tx' \<and> tx_inv tx' \<and> tx_writable tx' \<and> tx_get tx' = (tx_get tx)(k \<mapsto> v)"
    and del_law: "tx_inv tx \<Longrightarrow> tx_writable tx \<Longrightarrow>
      \<exists>tx'. tx_del tx k = Inr tx' \<and> tx_inv tx' \<and> tx_writable tx' \<and> tx_get tx' = (tx_get tx)(k := None)"
begin

lemma run_ops_get:
  "tx_inv tx \<Longrightarrow> tx_writable tx \<Longrightarrow> \<exists>tx'. run_ops tx_put tx_del tx ops = Inr tx' \<and> tx_inv tx' \<and>
     tx_writable tx' \<and> tx_get tx' = apply_ops (tx_get tx) ops"
proof (induction ops arbitrary: tx)
  case (Cons oper ops)
  show ?case
  proof (cases oper)
    case (Put k v)
    with Cons.IH put_law [OF Cons.prems, of k v] show ?thesis by fastforce
  next
    case (Del k)
    with Cons.IH del_law [OF Cons.prems, of k] show ?thesis by fastforce
  qed
qed simp

end

text \<open>Two transactions that agree on every lookup agree on every scan.\<close>

lemma scans_agree:
  assumes "store_read inv1 get1 ex1 scan1 st1" and "store_read inv2 get2 ex2 scan2 st2"
    and "inv1 tx1" and "inv2 tx2" and "get1 tx1 = get2 tx2" and "cmp_bytes lower upper \<noteq> Greater"
  shows "scan1 tx1 lower upper = scan2 tx2 lower upper"
proof -
  obtain r1 where r1: "scan1 tx1 lower upper = Some r1" "bmap_wf cmp_bytes r1"
    "\<And>k. bmap_get cmp_bytes r1 k = (if key_in_range lower upper k then get1 tx1 k else None)"
    using store_read.scan_law [OF assms(1,3,6)] by blast
  obtain r2 where r2: "scan2 tx2 lower upper = Some r2" "bmap_wf cmp_bytes r2"
    "\<And>k. bmap_get cmp_bytes r2 k = (if key_in_range lower upper k then get2 tx2 k else None)"
    using store_read.scan_law [OF assms(2,4,6)] by blast
  have "r1 = r2"
    by (rule bytes_ord.bmap_ext [OF r1(2) r2(2)]) (simp add: r1(3) r2(3) assms(5))
  with r1 r2 show ?thesis by simp
qed

section \<open>The stores implement the contract\<close>

fun mem_wf :: "mem_tx \<Rightarrow> bool" where
  "mem_wf (Reader rdr) = bmap_wf cmp_bytes rdr"
| "mem_wf (Writer wtr cache) \<longleftrightarrow> bmap_wf cmp_bytes wtr \<and> bmap_wf cmp_bytes cache"

fun mem_writable :: "mem_tx \<Rightarrow> bool" where
  "mem_writable (Reader _) = False"
| "mem_writable (Writer _ _) = True"

lemma bmap_get_btree_range:
  "bmap_wf cmp_bytes m \<Longrightarrow> bmap_get cmp_bytes (bmap_range cmp_bytes m lower upper False) k =
     (if key_in_range lower upper k then bmap_get cmp_bytes m k else None)"
  by (simp add: bytes_ord.bmap_get_range key_in_range_def)

lemma mem_scan_law:
  assumes "mem_wf tx" and "cmp_bytes lower upper \<noteq> Greater"
  shows "\<exists>rows. mem_range_scan tx lower upper = Some rows \<and> bmap_wf cmp_bytes rows \<and>
    (\<forall>k. bmap_get cmp_bytes rows k = (if key_in_range lower upper k then mem_get tx k else None))"
  using assms
  by (cases tx)
    (auto simp: btree_range_def cache_collect_overlay bytes_ord.bmap_wf_range bmap_get_btree_range
      bmap_wf_overlay bmap_get_overlay split: option.split)

lemma mem_scan_tuple:
  "mem_range_scan_tuple E tx lower upper =
     Option.bind (mem_range_scan tx lower upper) (\<lambda>rows. those (map (\<lambda>(k, v). decode_tuple_from_kv E k v) rows))"
  by (cases tx) (auto simp: cache_collect_overlay split: option.split)

interpretation mem: store_tx mem_wf mem_get mem_exists mem_range_scan mem_range_scan_tuple mem_writable mem_put mem_del
proof
  fix tx k v lower upper E
  assume inv: "mem_wf tx"
  show "mem_exists tx k \<longleftrightarrow> mem_get tx k \<noteq> None"
    by (cases tx) (auto simp: bmap_contains_key_def split: option.splits)
  show "cmp_bytes lower upper \<noteq> Greater \<Longrightarrow> \<exists>rows. mem_range_scan tx lower upper = Some rows \<and>
      bmap_wf cmp_bytes rows \<and>
      (\<forall>k. bmap_get cmp_bytes rows k = (if key_in_range lower upper k then mem_get tx k else None))"
    using inv by (intro mem_scan_law)
  assume "mem_writable tx"
  then obtain wtr cache where tx: "tx = Writer wtr cache" by (cases tx) auto
  show "\<exists>tx'. mem_put tx k v = Inr tx' \<and> mem_wf tx' \<and> mem_writable tx' \<and> mem_get tx' = (mem_get tx)(k \<mapsto> v)"
    using inv by (auto simp: tx bytes_ord.bmap_wf_insert bytes_ord.bmap_get_insert bytes_ord.cmp_Equal_iff)
  show "\<exists>tx'. mem_del tx k = Inr tx' \<and> mem_wf tx' \<and> mem_writable tx' \<and> mem_get tx' = (mem_get tx)(k := None)"
    using inv by (auto simp: tx bytes_ord.bmap_wf_insert bytes_ord.bmap_get_insert bytes_ord.cmp_Equal_iff)
qed (rule mem_scan_tuple)

definition temp_writable :: "temp_tx \<Rightarrow> bool" where
  "temp_writable tx = True"

interpretation temp: store_tx "bmap_wf cmp_bytes" temp_get temp_exists temp_range_scan temp_range_scan_tuple
  temp_writable temp_put temp_del
proof
  fix tx :: temp_tx and k v lower upper E
  assume inv: "bmap_wf cmp_bytes tx"
  show "temp_exists tx k \<longleftrightarrow> temp_get tx k \<noteq> None"
    by (simp add: temp_exists_def temp_get_def bmap_contains_key_def)
  show "cmp_bytes lower upper \<noteq> Greater \<Longrightarrow> \<exists>rows. temp_range_scan tx lower upper = Some rows \<and>
      bmap_wf cmp_bytes rows \<and>
      (\<forall>k. bmap_get cmp_bytes rows k = (if key_in_range lower upper k then temp_get tx k else None))"
    using inv by (auto simp: temp_range_scan_def temp_get_def btree_range_def bytes_ord.bmap_wf_range
        bmap_get_btree_range)
  show "\<exists>tx'. temp_put tx k v = Inr tx' \<and> bmap_wf cmp_bytes tx' \<and> temp_writable tx' \<and>
      temp_get tx' = (temp_get tx)(k \<mapsto> v)"
    using inv by (auto simp: temp_put_def temp_get_def temp_writable_def bytes_ord.bmap_wf_insert
        bytes_ord.bmap_get_insert bytes_ord.cmp_Equal_iff)
  show "\<exists>tx'. temp_del tx k = Inr tx' \<and> bmap_wf cmp_bytes tx' \<and> temp_writable tx' \<and>
      temp_get tx' = (temp_get tx)(k := None)"
    using inv by (auto simp: temp_del_def temp_get_def temp_writable_def bytes_ord.bmap_wf_remove
        bytes_ord.bmap_get_remove bytes_ord.cmp_Equal_iff)
qed (simp add: temp_range_scan_tuple_def temp_range_scan_def)

section \<open>Commit\<close>

lemma commit_change_wf: "bmap_wf cmp_bytes w \<Longrightarrow> bmap_wf cmp_bytes (commit_change w kmv)"
  by (simp add: commit_change_def bytes_ord.bmap_wf_insert bytes_ord.bmap_wf_remove split: option.split)

lemma commit_changes_wf: "bmap_wf cmp_bytes w \<Longrightarrow> bmap_wf cmp_bytes (foldl commit_change w c)"
  by (induction c arbitrary: w) (simp_all add: commit_change_wf)

lemma commit_changes_get:
  "bmap_wf cmp_bytes w \<Longrightarrow> bmap_wf cmp_bytes c \<Longrightarrow>
   bmap_get cmp_bytes (foldl commit_change w c) q =
     (case bmap_get cmp_bytes c q of None \<Rightarrow> bmap_get cmp_bytes w q | Some mv \<Rightarrow> mv)"
proof (induction c arbitrary: w)
  case (Cons kmv c)
  obtain k mv where kmv: "kmv = (k, mv)" by (cases kmv)
  have "bmap_get cmp_bytes c k = None"
    by (rule bmap_get_below) (use Cons.prems kmv in \<open>simp add: bmap_wf_Cons\<close>)
  moreover have "bmap_get cmp_bytes (commit_change w kmv) q = (if q = k then mv else bmap_get cmp_bytes w q)"
    using Cons.prems(1)
    by (auto simp: commit_change_def kmv bytes_ord.bmap_get_insert bytes_ord.bmap_get_remove
        bytes_ord.cmp_Equal_iff split: option.split)
  ultimately show ?case
    using Cons.IH [OF commit_change_wf [OF Cons.prems(1)], of kmv] Cons.prems(2)
    by (auto simp: kmv bmap_wf_Cons bytes_ord.cmp_Equal_iff split: option.split)
qed simp

lemma mem_commit_get:
  assumes "mem_wf tx"
  shows "bmap_get cmp_bytes (mem_store (mem_commit tx)) = mem_get tx"
  using assms by (cases tx) (auto simp: commit_changes_get)

lemma mem_commit_wf: "mem_wf tx \<Longrightarrow> bmap_wf cmp_bytes (mem_store (mem_commit tx))"
  by (cases tx) (auto simp: commit_changes_wf)

lemma run_ops_mem_store:
  "run_ops mem_put mem_del tx ops = Inr tx' \<Longrightarrow> mem_store tx' = mem_store tx"
proof (induction ops arbitrary: tx)
  case (Cons oper ops)
  then show ?case by (cases tx; cases oper) force+
qed simp

section \<open>Properties\<close>

text \<open>
  C3: A write transaction of the memory store behaves as a map. Any sequence of puts and deletes
  succeeds, reads see the writes so far, the shared store is untouched until \<open>commit\<close>, and after
  \<open>commit\<close> a new read transaction sees exactly what the writer saw.
\<close>

theorem mem_transaction_correct:
  assumes "bmap_wf cmp_bytes store"
  shows "\<exists>tx. run_ops mem_put mem_del (mem_transact store True) ops = Inr tx \<and>
    mem_get tx = apply_ops (bmap_get cmp_bytes store) ops \<and>
    mem_store tx = store \<and>
    mem_get (mem_transact (mem_store (mem_commit tx)) False) = apply_ops (bmap_get cmp_bytes store) ops"
proof -
  have "mem_wf (mem_transact store True)" "mem_writable (mem_transact store True)"
    using assms by simp_all
  from mem.run_ops_get [OF this, of ops] obtain tx where tx:
    "run_ops mem_put mem_del (mem_transact store True) ops = Inr tx" "mem_wf tx" "mem_writable tx"
    "mem_get tx = apply_ops (mem_get (mem_transact store True)) ops"
    by blast
  have "mem_get (mem_transact store True) = bmap_get cmp_bytes store" by auto
  moreover have "mem_store tx = store" using run_ops_mem_store [OF tx(1)] by simp
  moreover have "mem_get (mem_transact (mem_store (mem_commit tx)) False) = mem_get tx"
    using mem_commit_get [OF tx(2)] by auto
  ultimately show ?thesis using tx by auto
qed

theorem mem_transaction_correct_witness:
  "\<exists>tx. run_ops mem_put mem_del (mem_transact [([1], [10]), ([2], [20])] True) [Del [1], Put [3] [30]] = Inr tx \<and>
    mem_get tx = apply_ops (bmap_get cmp_bytes [([1], [10]), ([2], [20])]) [Del [1], Put [3] [30]] \<and>
    mem_store tx = [([1], [10]), ([2], [20])] \<and>
    mem_get (mem_transact (mem_store (mem_commit tx)) False)
      = apply_ops (bmap_get cmp_bytes [([1], [10]), ([2], [20])]) [Del [1], Put [3] [30]]"
  by (rule mem_transaction_correct) (simp add: bmap_wf_def bset_wf_def)

text \<open>
  C8: A range scan of a write transaction, which merges the store with the uncommitted changes by
  two cursors, gives the same rows in the same order as a scan of a read transaction opened after
  the commit, for any bounds (out-of-order bounds panic in both).
\<close>

theorem writer_scan_is_committed_scan:
  assumes "mem_wf tx"
  shows "mem_range_scan tx lower upper =
    mem_range_scan (mem_transact (mem_store (mem_commit tx)) False) lower upper"
proof (cases "cmp_bytes lower upper = Greater")
  case True
  then show ?thesis by (cases tx) (simp_all add: btree_range_def)
next
  case False
  let ?rd = "mem_transact (mem_store (mem_commit tx)) False"
  have wf: "mem_wf ?rd" using mem_commit_wf [OF assms] by simp
  obtain r1 where r1: "mem_range_scan tx lower upper = Some r1" "bmap_wf cmp_bytes r1"
    "\<And>k. bmap_get cmp_bytes r1 k = (if key_in_range lower upper k then mem_get tx k else None)"
    using mem_scan_law [OF assms False] by blast
  obtain r2 where r2: "mem_range_scan ?rd lower upper = Some r2" "bmap_wf cmp_bytes r2"
    "\<And>k. bmap_get cmp_bytes r2 k = (if key_in_range lower upper k then mem_get ?rd k else None)"
    using mem_scan_law [OF wf False] by blast
  have "mem_get ?rd = mem_get tx" using mem_commit_get [OF assms] by auto
  then have "r1 = r2" by (intro bytes_ord.bmap_ext [OF r1(2) r2(2)]) (simp add: r1(3) r2(3))
  with r1 r2 show ?thesis by simp
qed

theorem writer_scan_is_committed_scan_witness:
  "mem_range_scan (Writer [([1], [10]), ([2], [20])] [([1], None), ([3], Some [30])]) [0] [9] =
   mem_range_scan (mem_transact (mem_store (mem_commit
     (Writer [([1], [10]), ([2], [20])] [([1], None), ([3], Some [30])]))) False) [0] [9]"
  by (rule writer_scan_is_committed_scan) (simp add: bmap_wf_def bset_wf_def)

text \<open>Whatever its cache holds, a transaction and a temporary store of the same map read the same.\<close>

lemma stores_agree:
  assumes "bmap_wf cmp_bytes t" and "mem_wf m" and "temp_get t = mem_get m"
  shows "temp_exists t k = mem_exists m k"
    and "temp_range_scan t lower upper = mem_range_scan m lower upper"
    and "temp_range_scan_tuple E t lower upper = mem_range_scan_tuple E m lower upper"
proof -
  show "temp_exists t k = mem_exists m k"
    using temp.exists_law [OF assms(1)] mem.exists_law [OF assms(2)] assms(3) by simp
  show scan: "temp_range_scan t lower upper = mem_range_scan m lower upper" for lower upper
  proof (cases "cmp_bytes lower upper = Greater")
    case True
    then show ?thesis by (cases m) (simp_all add: temp_range_scan_def btree_range_def)
  next
    case False
    with assms(3) show ?thesis
      by (intro scans_agree [OF temp.store_read_axioms mem.store_read_axioms assms(1,2)])
  qed
  show "temp_range_scan_tuple E t lower upper = mem_range_scan_tuple E m lower upper"
    by (simp only: temp.scan_tuple_law mem.scan_tuple_law scan)
qed

text \<open>
  C12: A temporary store and a write transaction of the memory store are interchangeable. Take any
  temporary store and any transaction, with whatever committed rows and uncommitted changes, that hold
  the same map: every sequence of puts and deletes succeeds on both, and afterwards all lookups,
  existence tests, range scans and decoded range scans are the same.
\<close>

theorem temp_and_mem_agree:
  assumes "bmap_wf cmp_bytes t" and "mem_wf m" and "mem_writable m" and "temp_get t = mem_get m"
  shows "\<exists>t' m'. run_ops temp_put temp_del t ops = Inr t' \<and> run_ops mem_put mem_del m ops = Inr m' \<and>
     temp_get t' = mem_get m' \<and> temp_exists t' = mem_exists m' \<and>
     temp_range_scan t' = mem_range_scan m' \<and>
     (\<forall>E. temp_range_scan_tuple E t' = mem_range_scan_tuple E m')"
proof -
  obtain t' where t: "run_ops temp_put temp_del t ops = Inr t'" "bmap_wf cmp_bytes t'"
    "temp_get t' = apply_ops (temp_get t) ops"
    using temp.run_ops_get [OF assms(1), of ops] by (auto simp: temp_writable_def)
  obtain m' where m: "run_ops mem_put mem_del m ops = Inr m'" "mem_wf m'"
    "mem_get m' = apply_ops (mem_get m) ops"
    using mem.run_ops_get [OF assms(2,3), of ops] by auto
  have eq: "temp_get t' = mem_get m'" by (simp add: t(3) m(3) assms(4))
  note agree = stores_agree [OF t(2) m(2) eq]
  have "temp_exists t' = mem_exists m'" "temp_range_scan t' = mem_range_scan m'"
    "temp_range_scan_tuple E t' = mem_range_scan_tuple E m'" for E
    by (rule ext, rule agree | rule ext, rule ext, rule agree)+
  with t(1) m(1) eq show ?thesis by blast
qed

theorem temp_and_mem_agree_witness:
  "\<exists>t' m'. run_ops temp_put temp_del [([2], [20]), ([3], [30])] [Del [2], Put [1] [10]] = Inr t' \<and>
     run_ops mem_put mem_del (Writer [([1], [10]), ([2], [20])] [([1], None), ([3], Some [30])])
       [Del [2], Put [1] [10]] = Inr m' \<and>
     temp_get t' = mem_get m' \<and> temp_exists t' = mem_exists m' \<and>
     temp_range_scan t' = mem_range_scan m' \<and>
     (\<forall>E. temp_range_scan_tuple E t' = mem_range_scan_tuple E m')"
  by (rule temp_and_mem_agree)
    (auto simp: bmap_wf_def bset_wf_def temp_get_def bytes_ord.cmp_Equal_iff)

end
