(* ===== verification/TimeTravel.thy ===== *)
theory TimeTravel
  imports Storage
begin

text \<open>
  Time-travel scans of the memory and temporary stores (\<open>SkipIterator\<close> and \<open>SkipDualIterator\<close> of
  \<open>retia-core/src/storage/mem.rs\<close>, \<open>range_skip_scan_tuple\<close> of \<open>mem.rs\<close> and \<open>temp.rs\<close>).

  An iterator seeks, looks at one row, and seeks again from the bound \<open>check_key_for_validity\<close>
  gives. The loop need not end, so it runs on fuel and distinguishes a result, a panic and running
  out of fuel. The lemmas: on rows with history that contain no terminal retraction, one more unit
  of fuel than there are rows is enough and the scan returns exactly the rows that are current at
  the given time; a terminal retraction makes the loop run forever.
\<close>

datatype 'a exec = Done 'a | Panic | Diverged

section \<open>The iterators\<close>

fun skip_next ::
  "ext \<Rightarrow> nat \<Rightarrow> kvstore \<Rightarrow> bytes \<Rightarrow> i64 \<Rightarrow> bytes \<Rightarrow> (tuple \<times> bytes) option exec" where
  "skip_next E 0 inner upper valid_at next_bound = Diverged"
| "skip_next E (Suc n) inner upper valid_at next_bound =
     (case btree_range inner next_bound upper of
        None \<Rightarrow> Panic
      | Some [] \<Rightarrow> Done None
      | Some ((candidate_key, candidate_val) # _) \<Rightarrow>
          (case check_key_for_validity E candidate_key valid_at of
             None \<Rightarrow> Panic
           | Some (ret, nxt_bound) \<Rightarrow>
               (case ret of
                  None \<Rightarrow> skip_next E n inner upper valid_at nxt_bound
                | Some nk \<Rightarrow>
                    (case extend_tuple_from_v E nk candidate_val of
                       None \<Rightarrow> Panic
                     | Some nk \<Rightarrow> Done (Some (nk, nxt_bound))))))"

text \<open>The row the dual iterator looks at; a deletion is a \<open>None\<close>.\<close>

definition dual_candidate :: "kvstore \<Rightarrow> change_log \<Rightarrow> (bytes \<times> bytes option) option" where
  "dual_candidate stored_rows delta_rows =
     (case (stored_rows, delta_rows) of
        ([], []) \<Rightarrow> None
      | ([], (delta_key, maybe_delta_val) # _) \<Rightarrow> Some (delta_key, maybe_delta_val)
      | ((stored_key, stored_val) # _, []) \<Rightarrow> Some (stored_key, Some stored_val)
      | ((stored_key, stored_val) # _, (delta_key, maybe_delta_val) # _) \<Rightarrow>
          if cmp_bytes stored_key delta_key = Less then Some (stored_key, Some stored_val)
          else Some (delta_key, maybe_delta_val))"

fun skip_dual_next ::
  "ext \<Rightarrow> nat \<Rightarrow> kvstore \<Rightarrow> change_log \<Rightarrow> bytes \<Rightarrow> i64 \<Rightarrow> bytes \<Rightarrow> (tuple \<times> bytes) option exec" where
  "skip_dual_next E 0 stored delta upper valid_at next_bound = Diverged"
| "skip_dual_next E (Suc n) stored delta upper valid_at next_bound =
     (case (btree_range stored next_bound upper, btree_range delta next_bound upper) of
        (Some stored_rows, Some delta_rows) \<Rightarrow>
          (case dual_candidate stored_rows delta_rows of
             None \<Rightarrow> Done None
           | Some (delta_key, None) \<Rightarrow>
               (case check_key_for_validity E delta_key valid_at of
                  None \<Rightarrow> Panic
                | Some (_, nxt_seek) \<Rightarrow> skip_dual_next E n stored delta upper valid_at nxt_seek)
           | Some (candidate_key, Some candidate_val) \<Rightarrow>
               (case check_key_for_validity E candidate_key valid_at of
                  None \<Rightarrow> Panic
                | Some (ret, nxt_bound) \<Rightarrow>
                    (case ret of
                       None \<Rightarrow> skip_dual_next E n stored delta upper valid_at nxt_bound
                     | Some nk \<Rightarrow>
                         (case extend_tuple_from_v E nk candidate_val of
                            None \<Rightarrow> Panic
                          | Some nk \<Rightarrow> Done (Some (nk, nxt_bound))))))
      | _ \<Rightarrow> Panic)"

text \<open>Collecting an iterator, given its \<open>next\<close>.\<close>

fun skip_collect :: "(nat \<Rightarrow> bytes \<Rightarrow> (tuple \<times> bytes) option exec) \<Rightarrow> nat \<Rightarrow> bytes \<Rightarrow> tuple list exec" where
  "skip_collect nxt 0 next_bound = Diverged"
| "skip_collect nxt (Suc n) next_bound =
     (case nxt (Suc n) next_bound of
        Done None \<Rightarrow> Done []
      | Done (Some (t, bound)) \<Rightarrow>
          (case skip_collect nxt n bound of
             Done ts \<Rightarrow> Done (t # ts)
           | Panic \<Rightarrow> Panic
           | Diverged \<Rightarrow> Diverged)
      | Panic \<Rightarrow> Panic
      | Diverged \<Rightarrow> Diverged)"

fun mem_range_skip_scan_tuple ::
  "ext \<Rightarrow> nat \<Rightarrow> mem_tx \<Rightarrow> bytes \<Rightarrow> bytes \<Rightarrow> i64 \<Rightarrow> tuple list exec" where
  "mem_range_skip_scan_tuple E fuel (Reader stored) lower upper valid_at =
     skip_collect (\<lambda>n. skip_next E n stored upper valid_at) fuel lower"
| "mem_range_skip_scan_tuple E fuel (Writer stored delta) lower upper valid_at =
     skip_collect (\<lambda>n. skip_dual_next E n stored delta upper valid_at) fuel lower"

definition temp_range_skip_scan_tuple ::
  "ext \<Rightarrow> nat \<Rightarrow> temp_tx \<Rightarrow> bytes \<Rightarrow> bytes \<Rightarrow> i64 \<Rightarrow> tuple list exec" where
  "temp_range_skip_scan_tuple E fuel tx lower upper valid_at =
     skip_collect (\<lambda>n. skip_next E n tx upper valid_at) fuel lower"

section \<open>Rows with history\<close>

text \<open>
  A row: the key columns, the validity that ends the key, and the stored value, or \<open>None\<close> when the
  transaction deletes the row.
\<close>

type_synonym hist_row = "tuple \<times> validity \<times> bytes option"

definition hist_entry :: "relation_id \<Rightarrow> hist_row \<Rightarrow> bytes \<times> bytes option" where
  "hist_entry r = (\<lambda>(k, v, b). (vld_key r k v, b))"

text \<open>
  Current at a time: the newest version of its key not after that time, where versions that are
  deleted still hide older ones (the dual iterator treats them so).
\<close>

definition blocks :: "i64 \<Rightarrow> hist_row \<Rightarrow> hist_row \<Rightarrow> bool" where
  "blocks valid_at = (\<lambda>(k', v', _) (k, v, _).
     k' = k \<and> cmp_validity v' v = Less \<and> sint (timestamp v') \<le> sint valid_at)"

definition current_at :: "i64 \<Rightarrow> hist_row list \<Rightarrow> hist_row \<Rightarrow> bool" where
  "current_at valid_at rows = (\<lambda>(k, v, b).
     sint (timestamp v) \<le> sint valid_at \<and> is_assert v \<and> b \<noteq> None \<and>
     \<not> (\<exists>x \<in> set rows. blocks valid_at x (k, v, b)))"

definition hist_tuple :: "ext \<Rightarrow> hist_row \<Rightarrow> tuple" where
  "hist_tuple E = (\<lambda>(k, v, b). the (extend_tuple_from_v E (k @ [Validity v]) (the b)))"

definition hist_row_ok :: "ext \<Rightarrow> relation_id \<Rightarrow> nat \<Rightarrow> bytes \<Rightarrow> hist_row \<Rightarrow> bool" where
  "hist_row_ok E r arity upper = (\<lambda>(k, v, b).
     length k = arity \<and> list_all (wf_value E) k \<and> list_all mem_ordered k \<and>
     v \<noteq> TERMINAL_VALIDITY \<and>
     cmp_bytes (vld_key r k TERMINAL_VALIDITY) upper \<noteq> Greater \<and>
     (case b of None \<Rightarrow> True | Some bs \<Rightarrow> extend_tuple_from_v E (k @ [Validity v]) bs \<noteq> None))"

section \<open>One iterator for both\<close>

text \<open>
  Both iterators seek in one ordered list of rows: the stored rows, or the stored rows with the
  change log laid over them.
\<close>

fun seek_next ::
  "ext \<Rightarrow> nat \<Rightarrow> change_log \<Rightarrow> bytes \<Rightarrow> i64 \<Rightarrow> bytes \<Rightarrow> (tuple \<times> bytes) option exec" where
  "seek_next E 0 m upper valid_at next_bound = Diverged"
| "seek_next E (Suc n) m upper valid_at next_bound =
     (case btree_range m next_bound upper of
        None \<Rightarrow> Panic
      | Some [] \<Rightarrow> Done None
      | Some ((k, mv) # _) \<Rightarrow>
          (case check_key_for_validity E k valid_at of
             None \<Rightarrow> Panic
           | Some (ret, nxt) \<Rightarrow>
               (case (mv, ret) of
                  (Some v, Some nk) \<Rightarrow>
                    (case extend_tuple_from_v E nk v of
                       None \<Rightarrow> Panic
                     | Some t \<Rightarrow> Done (Some (t, nxt)))
                | _ \<Rightarrow> seek_next E n m upper valid_at nxt)))"

definition as_log :: "kvstore \<Rightarrow> change_log" where
  "as_log d = map (\<lambda>(k, v). (k, Some v)) d"

fun lay_over :: "change_log \<Rightarrow> kvstore \<Rightarrow> change_log" where
  "lay_over [] d = as_log d"
| "lay_over (p # c) [] = p # c"
| "lay_over ((ck, cv) # c) ((dk, dv) # d) =
     (case cmp_bytes ck dk of
        Less \<Rightarrow> (ck, cv) # lay_over c ((dk, dv) # d)
      | Greater \<Rightarrow> (dk, Some dv) # lay_over ((ck, cv) # c) d
      | Equal \<Rightarrow> (ck, cv) # lay_over c d)"

lemma btree_range_as_log:
  "btree_range (as_log d) lower upper = map_option as_log (btree_range d lower upper)"
proof -
  have "filter (\<lambda>(k, v). P k) (as_log d) = as_log (filter (\<lambda>(k, v). P k) d)" for P :: "bytes \<Rightarrow> bool"
    by (induction d) (auto simp: as_log_def)
  then show ?thesis by (simp add: btree_range_def bmap_range_def)
qed

lemma as_log_simps [simp]: "as_log [] = []" "as_log ((k, v) # d) = (k, Some v) # as_log d"
  by (simp_all add: as_log_def)

lemma skip_next_seek:
  "skip_next E n inner upper valid_at b = seek_next E n (as_log inner) upper valid_at b"
proof (induction n arbitrary: b)
  case (Suc n)
  show ?case
    by (simp add: btree_range_as_log Suc.IH split: option.split list.split prod.split)
qed simp

lemma skip_next_seek_fun:
  "skip_next E n inner upper valid_at = seek_next E n (as_log inner) upper valid_at"
  by (rule ext) (rule skip_next_seek)

lemma lay_over_Nil [simp]: "lay_over c [] = c"
  by (cases c) (auto simp: as_log_def)

lemma lay_over_change_first:
  "\<forall>p \<in> set d. cmp_bytes ck (fst p) = Less \<Longrightarrow> lay_over ((ck, cv) # c) d = (ck, cv) # lay_over c d"
  by (cases d) auto

lemma lay_over_row_first:
  "\<forall>p \<in> set c. cmp_bytes dk (fst p) = Less \<Longrightarrow> lay_over c ((dk, dv) # d) = (dk, Some dv) # lay_over c d"
  by (cases c) (auto simp: as_log_def bytes_ord.cmp_Greater [symmetric])

lemma lay_over_filter:
  assumes "bmap_wf cmp_bytes c" and "bmap_wf cmp_bytes d"
  shows "filter (\<lambda>(k, v). P k) (lay_over c d) = lay_over (filter (\<lambda>(k, v). P k) c) (filter (\<lambda>(k, v). P k) d)"
  using assms
proof (induction c d rule: lay_over.induct)
  case (1 d)
  show ?case by (induction d) (auto simp: as_log_def)
next
  case (3 ck cv c dk dv d)
  show ?case
  proof (cases "cmp_bytes ck dk")
    case Less
    then have "\<forall>p \<in> set d. cmp_bytes ck (fst p) = Less"
      using "3.prems" by (auto simp: bmap_wf_Cons intro: bytes_ord.cmp_trans_less)
    with Less 3 show ?thesis by (auto simp: bmap_wf_Cons lay_over_change_first)
  next
    case Equal
    with 3 show ?thesis by (auto simp: bmap_wf_Cons bytes_ord.cmp_Equal_iff bytes_ord.cmp_refl)
  next
    case Greater
    then have "cmp_bytes dk ck = Less" by (simp add: bytes_ord.cmp_Greater)
    then have "\<forall>p \<in> set c. cmp_bytes dk (fst p) = Less"
      using "3.prems" by (auto simp: bmap_wf_Cons intro: bytes_ord.cmp_trans_less)
    with Greater \<open>cmp_bytes dk ck = Less\<close> 3 show ?thesis
      by (auto simp: bmap_wf_Cons lay_over_row_first)
  qed
qed simp

lemma btree_range_lay_over:
  assumes "bmap_wf cmp_bytes delta" and "bmap_wf cmp_bytes stored"
  shows "btree_range (lay_over delta stored) lower upper =
    (case (btree_range stored lower upper, btree_range delta lower upper) of
       (Some s, Some d) \<Rightarrow> Some (lay_over d s) | _ \<Rightarrow> None)"
  using lay_over_filter [OF assms] by (simp add: btree_range_def bmap_range_def)

lemma fst_lay_over: "p \<in> set (lay_over c d) \<Longrightarrow> fst p \<in> fst ` set c \<union> fst ` set d"
  by (induction c d rule: lay_over.induct) (force simp: as_log_def split: ordering.splits)+

lemma bmap_get_as_log: "bmap_get cmp_bytes (as_log d) k = map_option Some (bmap_get cmp_bytes d k)"
  by (induction d) auto

lemma bmap_wf_as_log: "bmap_wf cmp_bytes d \<Longrightarrow> bmap_wf cmp_bytes (as_log d)"
  by (induction d) (fastforce simp: bmap_wf_Cons as_log_def)+

lemma bmap_wf_lay_over:
  assumes "bmap_wf cmp_bytes c" and "bmap_wf cmp_bytes d"
  shows "bmap_wf cmp_bytes (lay_over c d)"
  using assms
proof (induction c d rule: lay_over.induct)
  case (3 ck cv c dk dv d)
  show ?case
  proof (cases "cmp_bytes ck dk")
    case Less
    then have "\<forall>p \<in> set d. cmp_bytes ck (fst p) = Less"
      using "3.prems" by (auto simp: bmap_wf_Cons intro: bytes_ord.cmp_trans_less)
    with Less 3 show ?thesis by (fastforce simp: bmap_wf_Cons dest: fst_lay_over)
  next
    case Equal
    with 3 show ?thesis by (fastforce simp: bmap_wf_Cons bytes_ord.cmp_Equal_iff bytes_ord.cmp_refl dest: fst_lay_over)
  next
    case Greater
    then have less: "cmp_bytes dk ck = Less" by (simp add: bytes_ord.cmp_Greater)
    then have "\<forall>p \<in> set c. cmp_bytes dk (fst p) = Less"
      using "3.prems" by (auto simp: bmap_wf_Cons intro: bytes_ord.cmp_trans_less)
    with Greater less 3 show ?thesis by (fastforce simp: bmap_wf_Cons dest: fst_lay_over)
  qed
qed (simp_all add: bmap_wf_as_log)

text \<open>What a transaction sees under a key: its own change, a deletion included, or the stored row.\<close>

definition uncommitted_row :: "kvstore \<Rightarrow> change_log \<Rightarrow> bytes \<Rightarrow> bytes option option" where
  "uncommitted_row stored delta k =
     (case bmap_get cmp_bytes delta k of
        Some change \<Rightarrow> Some change
      | None \<Rightarrow> map_option Some (bmap_get cmp_bytes stored k))"

lemma bmap_get_lay_over:
  assumes "bmap_wf cmp_bytes c" and "bmap_wf cmp_bytes d"
  shows "bmap_get cmp_bytes (lay_over c d) k = uncommitted_row d c k"
  using assms
proof (induction c d rule: lay_over.induct)
  case (3 ck cv c dk dv d)
  show ?case
  proof (cases "cmp_bytes ck dk")
    case Less
    with 3 show ?thesis by (auto simp: uncommitted_row_def bmap_wf_Cons)
  next
    case Equal
    with 3 show ?thesis
      by (auto simp: uncommitted_row_def bmap_wf_Cons bytes_ord.cmp_Equal_iff bytes_ord.cmp_refl
        split: option.splits)
  next
    case Greater
    then have less: "cmp_bytes dk ck = Less" by (simp add: bytes_ord.cmp_Greater)
    then have "bmap_get cmp_bytes ((ck, cv) # c) dk = None"
      using "3.prems" by (intro bmap_get_below) (auto simp: bmap_wf_Cons intro: bytes_ord.cmp_trans_less)
    with Greater 3 show ?thesis
      by (auto simp: uncommitted_row_def bmap_wf_Cons bytes_ord.cmp_Equal_iff split: option.splits if_splits)
  qed
qed (simp_all add: uncommitted_row_def bmap_get_as_log split: option.split)

lemma btree_range_lay_over_rows:
  assumes "bmap_wf cmp_bytes delta" and "bmap_wf cmp_bytes stored" and "cmp_bytes lower upper \<noteq> Greater"
    and "bmap_wf cmp_bytes rows"
    and "\<forall>k. bmap_get cmp_bytes rows k =
      (if key_in_range lower upper k then uncommitted_row stored delta k else None)"
  shows "btree_range (lay_over delta stored) lower upper = Some rows"
proof -
  note wf = bmap_wf_lay_over [OF assms(1,2)]
  have "bmap_range cmp_bytes (lay_over delta stored) lower upper False = rows"
    by (rule bytes_ord.bmap_ext [OF bytes_ord.bmap_wf_range [OF wf] assms(4)])
      (simp add: bmap_get_btree_range [OF wf] bmap_get_lay_over [OF assms(1,2)] assms(5))
  with assms(3) show ?thesis by (simp add: btree_range_def)
qed

lemma lay_over_committed:
  assumes "bmap_wf cmp_bytes delta" and "bmap_wf cmp_bytes stored" and "\<forall>p \<in> set delta. snd p \<noteq> None"
  shows "lay_over delta stored = as_log (mem_store (mem_commit (Writer stored delta)))"
proof (rule bytes_ord.bmap_ext)
  have wf: "mem_wf (Writer stored delta)" using assms by simp
  show "bmap_wf cmp_bytes (as_log (mem_store (mem_commit (Writer stored delta))))"
    by (rule bmap_wf_as_log [OF mem_commit_wf [OF wf]])
  have some: "bmap_get cmp_bytes delta k \<noteq> Some None" for k
    using assms(3) bytes_ord.bmap_get_Some_iff [OF assms(1)] by fastforce
  show "bmap_get cmp_bytes (lay_over delta stored) k =
      bmap_get cmp_bytes (as_log (mem_store (mem_commit (Writer stored delta)))) k" for k
    unfolding bmap_get_as_log mem_commit_get [OF wf] bmap_get_lay_over [OF assms(1,2)]
    using some [of k] by (auto simp: uncommitted_row_def split: option.split)
qed (rule bmap_wf_lay_over [OF assms(1,2)])

lemma dual_candidate_lay_over:
  "dual_candidate s d = (case lay_over d s of [] \<Rightarrow> None | p # _ \<Rightarrow> Some p)"
proof (cases d)
  case Nil
  then show ?thesis by (cases s) (auto simp: dual_candidate_def as_log_def)
next
  case (Cons p d')
  then show ?thesis
  proof (cases s)
    case (Cons q s')
    obtain ck cv dk dv where "p = (ck, cv)" "q = (dk, dv)" by (cases p; cases q) auto
    with \<open>d = p # d'\<close> Cons show ?thesis
      using bytes_ord.cmp_Greater [of ck dk] bytes_ord.cmp_Greater [of dk ck]
        bytes_ord.cmp_Equal_sym [of ck dk]
      by (cases "cmp_bytes ck dk") (auto simp: dual_candidate_def)
  qed (cases p, simp add: dual_candidate_def)
qed

lemma skip_dual_next_seek:
  assumes "bmap_wf cmp_bytes delta" and "bmap_wf cmp_bytes stored"
  shows "skip_dual_next E n stored delta upper valid_at b
    = seek_next E n (lay_over delta stored) upper valid_at b"
proof (induction n arbitrary: b)
  case (Suc n)
  show ?case
  proof (cases "btree_range stored b upper")
    case None
    then show ?thesis by (simp add: btree_range_lay_over [OF assms])
  next
    case (Some s)
    then obtain d where d: "btree_range delta b upper = Some d"
      by (auto simp: btree_range_def split: if_splits)
    show ?thesis
      by (cases "lay_over d s")
        (auto simp: Some d btree_range_lay_over [OF assms] dual_candidate_lay_over Suc.IH
          split: option.split prod.split)
  qed
qed simp

section \<open>The scan returns the current rows\<close>

lemma cmp_hist_rows:
  assumes "hist_row_ok E r n upper (k, v, b)" and "hist_row_ok E r n upper (k', v', b')"
  shows "cmp_bytes (vld_key r k w) (vld_key r k' w') = ordering_then (cmp_tuple E k k') (cmp_validity w w')"
  using assms by (intro cmp_vld_key) (auto simp: hist_row_ok_def)

lemma cmp_hist_keys_eq:
  "hist_row_ok E r n upper (k, v, b) \<Longrightarrow> cmp_tuple E k k' = Equal \<longleftrightarrow> k' = k" if "ext_ord E"
  using cmp_tuple_EqualD [of k E k'] total_cmp.cmp_refl [OF total_cmp_tuple [OF that]]
  by (auto simp: hist_row_ok_def)

text \<open>
  What remains after a seek: the rows from the new bound on. Rows skipped are not current, and
  they do not hide rows that stay.
\<close>

definition rows_from :: "relation_id \<Rightarrow> bytes \<Rightarrow> hist_row list \<Rightarrow> hist_row list" where
  "rows_from r bound rows = filter (\<lambda>(k, v, b). cmp_bytes bound (vld_key r k v) \<noteq> Greater) rows"

lemma cmp_validity_le_at:
  "cmp_validity \<lparr>timestamp = valid_at, is_assert = True\<rparr> v \<noteq> Greater \<longleftrightarrow>
   sint (timestamp v) \<le> sint valid_at"
  by (auto simp: cmp_validity_key)

lemma cmp_validity_terminal:
  "cmp_validity TERMINAL_VALIDITY v \<noteq> Greater \<longleftrightarrow> v = TERMINAL_VALIDITY"
  using TERMINAL_VALIDITY_greatest [of v] validity_ord.cmp_Greater [of TERMINAL_VALIDITY v]
    validity_ord.cmp_Equal_iff [of v TERMINAL_VALIDITY] validity_ord.cmp_refl
  by (cases "cmp_validity v TERMINAL_VALIDITY") (auto simp: validity_ord.cmp_Greater)

definition hist_rows_ok :: "ext \<Rightarrow> relation_id \<Rightarrow> nat \<Rightarrow> bytes \<Rightarrow> hist_row list \<Rightarrow> bool" where
  "hist_rows_ok E r arity upper rows \<longleftrightarrow>
     ext_ord E \<and> r \<le> 2 ^ 48 \<and> list_all (hist_row_ok E r arity upper) rows \<and>
     bmap_wf cmp_bytes (map (hist_entry r) rows)"

lemma hist_rows_okD:
  assumes "hist_rows_ok E r arity upper rows"
  shows "ext_ord E" "r \<le> 2 ^ 48" "x \<in> set rows \<Longrightarrow> hist_row_ok E r arity upper x"
  using assms by (auto simp: hist_rows_ok_def list_all_iff)

lemma hist_rows_ok_filter: "hist_rows_ok E r arity upper rows \<Longrightarrow> hist_rows_ok E r arity upper (filter P rows)"
  by (induction rows) (auto simp: hist_rows_ok_def list_all_iff bmap_wf_Cons hist_entry_def)

lemma later_rows:
  assumes "hist_rows_ok E r arity upper ((k, v, b) # rows)" and "(k', v', b') \<in> set rows"
  shows "cmp_tuple E k k' = Less \<or> k' = k \<and> cmp_validity v v' = Less"
proof -
  note ok = hist_rows_okD [OF assms(1)]
  have "cmp_bytes (vld_key r k v) (vld_key r k' v') = Less"
    using assms by (force simp: hist_rows_ok_def hist_entry_def bmap_wf_Cons)
  moreover have "cmp_bytes (vld_key r k v) (vld_key r k' v') = ordering_then (cmp_tuple E k k') (cmp_validity v v')"
    by (rule cmp_hist_rows [OF ok(3) [of "(k, v, b)"] ok(3) [of "(k', v', b')"]]) (use assms(2) in simp_all)
  moreover have "cmp_tuple E k k' = Equal \<longleftrightarrow> k' = k"
    by (rule cmp_hist_keys_eq [OF ok(1) ok(3) [of "(k, v, b)"]]) simp
  ultimately show ?thesis by (cases "cmp_tuple E k k'") auto
qed

lemma kept_iff:
  assumes "hist_rows_ok E r arity upper ((k, v, b) # rows)" and "(k', v', b') \<in> set ((k, v, b) # rows)"
  shows "cmp_bytes (vld_key r k w) (vld_key r k' v') \<noteq> Greater \<longleftrightarrow> k' \<noteq> k \<or> cmp_validity w v' \<noteq> Greater"
proof -
  note ok = hist_rows_okD [OF assms(1)]
  have cmp: "cmp_bytes (vld_key r k w) (vld_key r k' v') = ordering_then (cmp_tuple E k k') (cmp_validity w v')"
    by (rule cmp_hist_rows [OF ok(3) [of "(k, v, b)"] ok(3) [of "(k', v', b')"]]) (use assms(2) in simp_all)
  show ?thesis
  proof (cases "k' = k")
    case True
    then have "cmp_tuple E k k' = Equal" using total_cmp.cmp_refl [OF total_cmp_tuple [OF ok(1)]] by simp
    with cmp True show ?thesis by simp
  next
    case False
    with later_rows [OF assms(1)] assms(2) have "cmp_tuple E k k' = Less" by auto
    with cmp False show ?thesis by simp
  qed
qed

lemma head_not_blocked:
  assumes "hist_rows_ok E r arity upper ((k, v, b) # rows)" and "x \<in> set ((k, v, b) # rows)"
  shows "\<not> blocks valid_at x (k, v, b)"
proof
  obtain k' v' b' where x: "x = (k', v', b')" by (cases x)
  assume "blocks valid_at x (k, v, b)"
  then have k: "k' = k" and less: "cmp_validity v' v = Less" by (simp_all add: x blocks_def)
  then have "(k, v', b') \<in> set rows" using assms(2) x validity_ord.cmp_irrefl by auto
  moreover have "cmp_tuple E k k \<noteq> Less"
    by (rule total_cmp.cmp_irrefl [OF total_cmp_tuple [OF hist_rows_okD(1) [OF assms(1)]]])
  ultimately have "cmp_validity v v' = Less" using later_rows [OF assms(1)] by blast
  from validity_ord.cmp_trans_less [OF this less] show False using validity_ord.cmp_irrefl by blast
qed

lemma head_blocks:
  assumes "hist_rows_ok E r arity upper ((k, v, b) # rows)" and "(k, v', b') \<in> set rows"
    and "sint (timestamp v) \<le> sint valid_at"
  shows "blocks valid_at (k, v, b) (k, v', b')"
proof -
  have "cmp_tuple E k k \<noteq> Less"
    by (rule total_cmp.cmp_irrefl [OF total_cmp_tuple [OF hist_rows_okD(1) [OF assms(1)]]])
  then show ?thesis using later_rows [OF assms(1,2)] assms(3) by (simp add: blocks_def)
qed

lemma current_at_subset:
  assumes "\<And>y. y \<in> set rows \<Longrightarrow> blocks valid_at y x \<Longrightarrow> keep y"
  shows "current_at valid_at (filter keep rows) x = current_at valid_at rows x"
proof -
  have "(\<exists>y \<in> set (filter keep rows). blocks valid_at y x) \<longleftrightarrow> (\<exists>y \<in> set rows. blocks valid_at y x)"
    unfolding set_filter using assms by blast
  then show ?thesis unfolding current_at_def by (cases x) (simp only: prod.case)
qed

lemma filter_current_skip:
  assumes "\<And>x. x \<in> set rows \<Longrightarrow> \<not> keep x \<Longrightarrow> \<not> current_at valid_at rows x"
    and "\<And>x y. x \<in> set rows \<Longrightarrow> y \<in> set rows \<Longrightarrow> keep x \<Longrightarrow> blocks valid_at y x \<Longrightarrow> keep y"
  shows "filter (current_at valid_at (filter keep rows)) (filter keep rows) = filter (current_at valid_at rows) rows"
proof -
  have "filter (current_at valid_at (filter keep rows)) (filter keep rows)
      = filter (\<lambda>x. keep x \<and> current_at valid_at (filter keep rows) x) rows"
    by (simp add: conj_commute)
  also have "\<dots> = filter (current_at valid_at rows) rows"
  proof (rule filter_cong [OF refl])
    fix x
    assume x: "x \<in> set rows"
    show "(keep x \<and> current_at valid_at (filter keep rows) x) = current_at valid_at rows x"
    proof (cases "keep x")
      case True
      have "current_at valid_at (filter keep rows) x = current_at valid_at rows x"
        by (rule current_at_subset) (rule assms(2) [OF x _ True])
      with True show ?thesis by simp
    qed (use assms(1) [OF x] in simp)
  qed
  finally show ?thesis .
qed

lemma rows_from_keep:
  assumes "hist_rows_ok E r arity upper ((k, v, b) # rows)"
  shows "rows_from r (vld_key r k w) ((k, v, b) # rows) =
    filter (\<lambda>(k', v', b'). k' \<noteq> k \<or> cmp_validity w v' \<noteq> Greater) ((k, v, b) # rows)"
  unfolding rows_from_def
proof (rule filter_cong [OF refl])
  fix x
  assume x: "x \<in> set ((k, v, b) # rows)"
  obtain k' v' b' where "x = (k', v', b')" by (cases x)
  with x kept_iff [OF assms, of k' v' b' w]
  show "(case x of (k', v', b') \<Rightarrow> cmp_bytes (vld_key r k w) (vld_key r k' v') \<noteq> Greater)
      = (case x of (k', v', b') \<Rightarrow> k' \<noteq> k \<or> cmp_validity w v' \<noteq> Greater)"
    by simp
qed

text \<open>A version after the requested time: seek to the versions at that time.\<close>

lemma seek_future:
  assumes ok: "hist_rows_ok E r arity upper ((k, v, b) # rows)"
    and fut: "sint valid_at < sint (timestamp v)"
    and rest: "rest = rows_from r (vld_key r k \<lparr>timestamp = valid_at, is_assert = True\<rparr>) ((k, v, b) # rows)"
  shows "filter (current_at valid_at ((k, v, b) # rows)) ((k, v, b) # rows)
      = filter (current_at valid_at rest) rest"
    and "length rest < length ((k, v, b) # rows)"
proof -
  let ?all = "(k, v, b) # rows"
  let ?keep = "\<lambda>(k', v', b'). k' \<noteq> k \<or> sint (timestamp v') \<le> sint valid_at"
  have r: "rest = filter ?keep ?all"
    unfolding rest rows_from_keep [OF ok] cmp_validity_le_at ..
  show "filter (current_at valid_at ?all) ?all = filter (current_at valid_at rest) rest"
    unfolding r by (rule filter_current_skip [symmetric]) (auto simp: current_at_def blocks_def)
  show "length rest < length ?all"
    using fut unfolding r by (simp add: less_Suc_eq_le)
qed

text \<open>A version at or before the requested time decides for its key: seek past all versions.\<close>

lemma seek_past:
  assumes ok: "hist_rows_ok E r arity upper ((k, v, b) # rows)"
    and past: "sint (timestamp v) \<le> sint valid_at"
    and rest: "rest = rows_from r (vld_key r k TERMINAL_VALIDITY) ((k, v, b) # rows)"
  shows "filter (current_at valid_at ((k, v, b) # rows)) ((k, v, b) # rows)
      = (if is_assert v \<and> b \<noteq> None then [(k, v, b)] else []) @ filter (current_at valid_at rest) rest"
    and "length rest < length ((k, v, b) # rows)"
proof -
  let ?all = "(k, v, b) # rows"
  let ?keep = "\<lambda>(k', v', b' :: bytes option). k' \<noteq> k"
  have "filter (\<lambda>(k', v', b'). k' \<noteq> k \<or> cmp_validity TERMINAL_VALIDITY v' \<noteq> Greater) ?all = filter ?keep ?all"
    using hist_rows_okD(3) [OF ok]
    by (intro filter_cong) (auto simp: cmp_validity_terminal hist_row_ok_def)
  then have r: "rest = filter ?keep ?all"
    unfolding rest rows_from_keep [OF ok] .
  have cur: "current_at valid_at ?all (k, v, b) \<longleftrightarrow> is_assert v \<and> b \<noteq> None"
    using head_not_blocked [OF ok] past by (auto simp: current_at_def)
  have eq: "current_at valid_at ?all x \<longleftrightarrow> ?keep x \<and> current_at valid_at (filter ?keep ?all) x"
    if "x \<in> set rows" for x
  proof (cases "?keep x")
    case True
    then have "current_at valid_at (filter ?keep ?all) x = current_at valid_at ?all x"
      by (intro current_at_subset) (auto simp: blocks_def)
    with True show ?thesis by simp
  next
    case False
    then obtain v' b' where x: "x = (k, v', b')" by (cases x) auto
    have "blocks valid_at (k, v, b) x" using head_blocks [OF ok _ past] that x by simp
    with False show ?thesis by (auto simp: current_at_def x)
  qed
  have "filter (current_at valid_at ?all) rows
      = filter (\<lambda>x. ?keep x \<and> current_at valid_at (filter ?keep ?all) x) rows"
    by (rule filter_cong) (use eq in auto)
  also have "\<dots> = filter (current_at valid_at rest) rest"
    unfolding r by (simp add: conj_commute)
  finally show "filter (current_at valid_at ?all) ?all
      = (if is_assert v \<and> b \<noteq> None then [(k, v, b)] else []) @ filter (current_at valid_at rest) rest"
    using cur by simp
  show "length rest < length ?all"
    unfolding r by (simp add: less_Suc_eq_le)
qed

lemma btree_range_from:
  assumes "btree_range m bound upper = Some xs"
    and "cmp_bytes bound bound' \<noteq> Greater" and "cmp_bytes bound' upper \<noteq> Greater"
  shows "btree_range m bound' upper = Some (filter (\<lambda>(k, v). cmp_bytes bound' k \<noteq> Greater) xs)"
proof -
  have xs: "xs = bmap_range cmp_bytes m bound upper False"
    using assms(1) by (simp add: btree_range_def split: if_splits)
  have "cmp_bytes bound' k \<noteq> Greater \<Longrightarrow> cmp_bytes bound k \<noteq> Greater" for k
    by (rule bytes_ord.cmp_le_trans [OF assms(2)])
  then have "bmap_range cmp_bytes m bound' upper False = filter (\<lambda>(k, v). cmp_bytes bound' k \<noteq> Greater) xs"
    unfolding xs bmap_range_def filter_filter by (intro filter_cong) auto
  with assms(3) show ?thesis by (simp add: btree_range_def)
qed

lemma seek_bound:
  assumes rng: "btree_range m bound upper = Some (map (hist_entry r) ((k, v, b) # rows))"
    and ok: "hist_rows_ok E r arity upper ((k, v, b) # rows)"
    and le: "cmp_validity v w \<noteq> Greater"
  shows "btree_range m (vld_key r k w) upper =
    Some (map (hist_entry r) (rows_from r (vld_key r k w) ((k, v, b) # rows)))"
proof -
  note D = hist_rows_okD [OF ok]
  have head: "hist_row_ok E r arity upper (k, v, b)" by (rule D(3)) simp
  have cmp: "cmp_bytes (vld_key r k w1) (vld_key r k w2) = cmp_validity w1 w2" for w1 w2
    using cmp_hist_rows [OF head head, of w1 w2] total_cmp.cmp_refl [OF total_cmp_tuple [OF D(1)]] by simp
  have "(vld_key r k v, b) \<in> set (bmap_range cmp_bytes m bound upper False)"
    using rng by (simp add: btree_range_def hist_entry_def split: if_splits)
  then have "cmp_bytes bound (vld_key r k v) \<noteq> Greater"
    by (simp add: bmap_range_def)
  moreover have "cmp_bytes (vld_key r k v) (vld_key r k w) \<noteq> Greater"
    using le by (simp add: cmp)
  ultimately have lower: "cmp_bytes bound (vld_key r k w) \<noteq> Greater"
    by (rule bytes_ord.cmp_le_trans)
  have "cmp_bytes (vld_key r k w) (vld_key r k TERMINAL_VALIDITY) \<noteq> Greater"
    using TERMINAL_VALIDITY_greatest by (simp add: cmp)
  moreover have "cmp_bytes (vld_key r k TERMINAL_VALIDITY) upper \<noteq> Greater"
    using head by (simp add: hist_row_ok_def)
  ultimately have "cmp_bytes (vld_key r k w) upper \<noteq> Greater"
    by (rule bytes_ord.cmp_le_trans)
  from btree_range_from [OF rng lower this] show ?thesis
    by (simp add: rows_from_def filter_map o_def hist_entry_def split_def)
qed

definition seek_spec ::
  "ext \<Rightarrow> relation_id \<Rightarrow> nat \<Rightarrow> change_log \<Rightarrow> bytes \<Rightarrow> i64 \<Rightarrow> hist_row list \<Rightarrow>
   (tuple \<times> bytes) option exec \<Rightarrow> bool" where
  "seek_spec E r arity m upper valid_at rows res \<longleftrightarrow>
     (case filter (current_at valid_at rows) rows of
        [] \<Rightarrow> res = Done None
      | x # _ \<Rightarrow> (\<exists>bound rest. res = Done (Some (hist_tuple E x, bound)) \<and>
          btree_range m bound upper = Some (map (hist_entry r) rest) \<and>
          hist_rows_ok E r arity upper rest \<and> length rest < length rows \<and>
          filter (current_at valid_at rows) rows = x # filter (current_at valid_at rest) rest))"

lemma seek_spec_skip:
  assumes "seek_spec E r arity m upper valid_at rest res"
    and "filter (current_at valid_at rows) rows = filter (current_at valid_at rest) rest"
    and "length rest < length rows"
  shows "seek_spec E r arity m upper valid_at rows res"
proof (cases "filter (current_at valid_at rest) rest")
  case Nil
  with assms show ?thesis by (simp add: seek_spec_def)
next
  case (Cons x xs)
  with assms(1) obtain bound rest' where
    "res = Done (Some (hist_tuple E x, bound))" "btree_range m bound upper = Some (map (hist_entry r) rest')"
    "hist_rows_ok E r arity upper rest'" "length rest' < length rest"
    "filter (current_at valid_at rest) rest = x # filter (current_at valid_at rest') rest'"
    by (auto simp: seek_spec_def)
  with assms(2,3) show ?thesis unfolding seek_spec_def by (auto intro!: exI [of _ rest'])
qed

lemma seek_next_spec:
  assumes "length rows < n" and "btree_range m bound upper = Some (map (hist_entry r) rows)"
    and "hist_rows_ok E r arity upper rows"
  shows "seek_spec E r arity m upper valid_at rows (seek_next E n m upper valid_at bound)"
  using assms
proof (induction n arbitrary: rows bound)
  case (Suc n)
  note rng = Suc.prems(2) and ok = Suc.prems(3)
  show ?case
  proof (cases rows)
    case Nil
    then show ?thesis using rng by (simp add: seek_spec_def)
  next
    case (Cons x rows')
    obtain k v b where x: "x = (k, v, b)" by (cases x)
    have rows: "rows = (k, v, b) # rows'" by (simp add: Cons x)
    note D = hist_rows_okD [OF ok]
    have wf: "hist_row_ok E r arity upper (k, v, b)" by (rule D(3)) (simp add: rows)
    then have "list_all (wf_value E) k" by (simp add: hist_row_ok_def)
    note chk = check_key_row [OF D(1) this D(2), of v valid_at]
    show ?thesis
    proof (cases "sint valid_at < sint (timestamp v)")
      case True
      let ?w = "\<lparr>timestamp = valid_at, is_assert = True\<rparr>"
      define rest where "rest = rows_from r (vld_key r k ?w) rows"
      have "cmp_validity v ?w \<noteq> Greater" using True by (auto simp: cmp_validity_key)
      from seek_bound [OF rng [unfolded rows] ok [unfolded rows] this]
      have rng': "btree_range m (vld_key r k ?w) upper = Some (map (hist_entry r) rest)"
        by (simp add: rest_def rows)
      note F = seek_future [OF ok [unfolded rows] True, of rest, folded rows, OF rest_def]
      have "hist_rows_ok E r arity upper rest"
        unfolding rest_def rows_from_def by (rule hist_rows_ok_filter [OF ok])
      with F(2) Suc.prems(1) rng'
      have "seek_spec E r arity m upper valid_at rest (seek_next E n m upper valid_at (vld_key r k ?w))"
        by (intro Suc.IH) simp_all
      from seek_spec_skip [OF this F]
      show ?thesis using rng True chk by (auto simp: rows hist_entry_def split: option.split)
    next
      case False
      then have past: "sint (timestamp v) \<le> sint valid_at" by simp
      define rest where "rest = rows_from r (vld_key r k TERMINAL_VALIDITY) rows"
      from seek_bound [OF rng [unfolded rows] ok [unfolded rows] TERMINAL_VALIDITY_greatest]
      have rng': "btree_range m (vld_key r k TERMINAL_VALIDITY) upper = Some (map (hist_entry r) rest)"
        by (simp add: rest_def rows)
      note F = seek_past [OF ok [unfolded rows] past, of rest, folded rows, OF rest_def]
      have ok': "hist_rows_ok E r arity upper rest"
        unfolding rest_def rows_from_def by (rule hist_rows_ok_filter [OF ok])
      show ?thesis
      proof (cases "is_assert v \<and> b \<noteq> None")
        case True
        then obtain bs where b: "b = Some bs" by auto
        then obtain t where "extend_tuple_from_v E (k @ [Validity v]) bs = Some t"
          using wf by (auto simp: hist_row_ok_def)
        then have "seek_next E (Suc n) m upper valid_at bound
            = Done (Some (hist_tuple E (k, v, b), vld_key r k TERMINAL_VALIDITY))"
          using rng True chk past by (simp add: rows hist_entry_def b hist_tuple_def)
        then show ?thesis
          using True F ok' rng' by (auto simp: seek_spec_def)
      next
        case False
        with F(2) Suc.prems(1) rng' ok'
        have "seek_spec E r arity m upper valid_at rest (seek_next E n m upper valid_at (vld_key r k TERMINAL_VALIDITY))"
          by (intro Suc.IH) simp_all
        from seek_spec_skip [OF this _ F(2)] F(1) False
        have "seek_spec E r arity m upper valid_at rows (seek_next E n m upper valid_at (vld_key r k TERMINAL_VALIDITY))"
          by simp
        then show ?thesis using rng False chk past by (auto simp: rows hist_entry_def split: option.split)
      qed
    qed
  qed
qed simp

lemma seek_collect_spec:
  assumes "length rows < n" and "btree_range m bound upper = Some (map (hist_entry r) rows)"
    and "hist_rows_ok E r arity upper rows"
  shows "skip_collect (\<lambda>n. seek_next E n m upper valid_at) n bound =
    Done (map (hist_tuple E) (filter (current_at valid_at rows) rows))"
  using assms
proof (induction n arbitrary: rows bound)
  case (Suc n)
  note spec = seek_next_spec [OF Suc.prems, of valid_at, unfolded seek_spec_def]
  show ?case
  proof (cases "filter (current_at valid_at rows) rows")
    case Nil
    then show ?thesis using spec by (simp del: seek_next.simps)
  next
    case (Cons x xs)
    then obtain bound' rest where
      "seek_next E (Suc n) m upper valid_at bound = Done (Some (hist_tuple E x, bound'))"
      "btree_range m bound' upper = Some (map (hist_entry r) rest)"
      "hist_rows_ok E r arity upper rest" "length rest < length rows"
      "filter (current_at valid_at rows) rows = x # filter (current_at valid_at rest) rest"
      using spec by (auto simp del: seek_next.simps)
    with Suc.IH [of rest bound'] Suc.prems(1) show ?thesis by (simp del: seek_next.simps)
  qed
qed simp

lemma skip_dual_next_seek_fun:
  "bmap_wf cmp_bytes delta \<Longrightarrow> bmap_wf cmp_bytes stored \<Longrightarrow>
   skip_dual_next E n stored delta upper valid_at = seek_next E n (lay_over delta stored) upper valid_at"
  by (rule ext) (rule skip_dual_next_seek)

lemma btree_range_head:
  assumes "btree_range m bound upper = Some ((k, v) # rest)"
  shows "\<exists>rest'. btree_range m k upper = Some ((k, v) # rest')"
proof -
  have "(k, v) \<in> set (bmap_range cmp_bytes m bound upper False)"
    using assms by (auto simp: btree_range_def split: if_splits)
  then have "cmp_bytes bound k \<noteq> Greater" "cmp_bytes k upper = Less" by (simp_all add: bmap_range_def)
  then show ?thesis
    using btree_range_from [OF assms, of k] by (simp add: bytes_ord.cmp_refl)
qed

lemma skip_next_terminal:
  assumes "check_key_for_validity E key valid_at = Some (None, key)"
    and "btree_range stored bound upper = Some ((key, bs) # rest)"
  shows "skip_next E n stored upper valid_at bound = Diverged"
  using assms(2)
proof (induction n arbitrary: bound rest)
  case (Suc n)
  obtain rest' where "btree_range stored key upper = Some ((key, bs) # rest')"
    using btree_range_head [OF Suc.prems] by blast
  from Suc.IH [OF this] Suc.prems assms(1) show ?case by simp
qed simp

text \<open>A key with two versions, and a transaction that deletes the newer one.\<close>

definition two_versions :: "relation_id \<Rightarrow> tuple \<Rightarrow> i64 \<Rightarrow> i64 \<Rightarrow> kvstore" where
  "two_versions r k t1 t2 =
     [(vld_key r k \<lparr>timestamp = t2, is_assert = True\<rparr>, []), (vld_key r k \<lparr>timestamp = t1, is_assert = True\<rparr>, [])]"

definition newest_deleted :: "relation_id \<Rightarrow> tuple \<Rightarrow> i64 \<Rightarrow> change_log" where
  "newest_deleted r k t2 = [(vld_key r k \<lparr>timestamp = t2, is_assert = True\<rparr>, None)]"

section \<open>Properties\<close>

text \<open>
  C2: A time-travel scan of a read transaction is correct and ends. On rows with history (all keys
  of one relation and arity, no terminal retraction, all versions of a key below the upper bound),
  with at least one more unit of fuel than there are rows, \<open>range_skip_scan_tuple\<close> returns, in key
  order and without repetition, exactly the rows that are the newest version of their key at the
  requested time and are assertions.
\<close>

theorem skip_scan_correct:
  assumes "btree_range stored lower upper = Some (map (\<lambda>(k, v, bs). (vld_key r k v, bs)) rows)"
    and "hist_rows_ok E r arity upper (map (\<lambda>(k, v, bs). (k, v, Some bs)) rows)"
    and "length rows < fuel"
  shows "mem_range_skip_scan_tuple E fuel (Reader stored) lower upper valid_at =
    Done (map (hist_tuple E) (filter (current_at valid_at (map (\<lambda>(k, v, bs). (k, v, Some bs)) rows))
      (map (\<lambda>(k, v, bs). (k, v, Some bs)) rows)))"
proof -
  have "btree_range (as_log stored) lower upper
      = Some (map (hist_entry r) (map (\<lambda>(k, v, bs). (k, v, Some bs)) rows))"
    unfolding btree_range_as_log assms(1) by (simp add: as_log_def hist_entry_def split_def)
  from seek_collect_spec [OF _ this assms(2)] assms(3) show ?thesis
    by (simp add: skip_next_seek_fun)
qed

theorem skip_scan_correct_witness:
  "mem_range_skip_scan_tuple ext_example 4
      (Reader [(vld_key 7 [Null] \<lparr>timestamp = 2, is_assert = False\<rparr>, []),
         (vld_key 7 [Null] \<lparr>timestamp = 1, is_assert = True\<rparr>, []),
         (vld_key 7 [Bool True] \<lparr>timestamp = 1, is_assert = True\<rparr>, [])])
      (encode_as_key [] 7) (encode_as_key [] 8) 2
    = Done [[Bool True, Validity \<lparr>timestamp = 1, is_assert = True\<rparr>]]"
proof -
  let ?v1 = "\<lparr>timestamp = 1, is_assert = True\<rparr>" and ?v2 = "\<lparr>timestamp = 2, is_assert = False\<rparr>"
  let ?rows = "[([Null], ?v2, [] :: bytes), ([Null], ?v1, []), ([Bool True], ?v1, [])]"
  have rng: "btree_range [(vld_key 7 [Null] ?v2, []), (vld_key 7 [Null] ?v1, []), (vld_key 7 [Bool True] ?v1, [])]
      (encode_as_key [] 7) (encode_as_key [] 8) = Some (map (\<lambda>(k, v, bs). (vld_key 7 k v, bs)) ?rows)"
    by (simp add: btree_range_def bmap_range_def cmp_encode_as_key [where E = ext_example] cmp_ord_strict)
  have ok: "hist_rows_ok ext_example 7 1 (encode_as_key [] 8) (map (\<lambda>(k, v, bs). (k, v, Some bs)) ?rows)"
    by (simp add: hist_rows_ok_def hist_row_ok_def hist_entry_def bmap_wf_def bset_wf_def
        cmp_encode_as_key [where E = ext_example] cmp_ord_strict cmp_validity_key TERMINAL_VALIDITY_def
        extend_tuple_from_v_def less_prod_def)
  have cur: "map (hist_tuple ext_example) (filter (current_at 2 (map (\<lambda>(k, v, bs). (k, v, Some bs)) ?rows))
      (map (\<lambda>(k, v, bs). (k, v, Some bs)) ?rows)) = [[Bool True, Validity ?v1]]"
    by code_simp
  from skip_scan_correct [OF rng ok, of 4 2] show ?thesis
    unfolding cur by simp
qed

text \<open>
  C11: A time-travel scan inside a write transaction. Let the rows of the range be those of the store
  overridden by the uncommitted changes, a deleted row being kept as deleted. With the same provisos
  on the rows as for a read transaction, the scan returns exactly the rows that are current among
  them, where a deleted row still hides the older versions of its key. When the transaction has
  deleted nothing, the scan is the one of a read transaction opened after the commit.
\<close>

theorem skip_dual_scan_correct:
  assumes "bmap_wf cmp_bytes stored" and "bmap_wf cmp_bytes delta" and "cmp_bytes lower upper \<noteq> Greater"
    and "\<forall>k. bmap_get cmp_bytes (map (hist_entry r) rows) k =
      (if key_in_range lower upper k then uncommitted_row stored delta k else None)"
    and "hist_rows_ok E r arity upper rows" and "length rows < fuel"
  shows "mem_range_skip_scan_tuple E fuel (Writer stored delta) lower upper valid_at =
      Done (map (hist_tuple E) (filter (current_at valid_at rows) rows)) \<and>
    ((\<forall>p \<in> set delta. snd p \<noteq> None) \<longrightarrow>
      mem_range_skip_scan_tuple E fuel (Writer stored delta) lower upper valid_at =
      mem_range_skip_scan_tuple E fuel (mem_transact (mem_store (mem_commit (Writer stored delta))) False)
        lower upper valid_at)"
proof -
  have rng: "btree_range (lay_over delta stored) lower upper = Some (map (hist_entry r) rows)"
    using assms(5) by (intro btree_range_lay_over_rows [OF assms(2,1,3) _ assms(4)]) (simp add: hist_rows_ok_def)
  have seek: "mem_range_skip_scan_tuple E fuel (Writer stored delta) lower upper valid_at =
      skip_collect (\<lambda>n. seek_next E n (lay_over delta stored) upper valid_at) fuel lower"
    by (simp add: skip_dual_next_seek_fun assms(1,2))
  show ?thesis
    using seek_collect_spec [OF assms(6) rng assms(5)] lay_over_committed [OF assms(2,1)]
    unfolding seek by (simp add: skip_next_seek_fun)
qed

theorem skip_dual_scan_correct_witness:
  "let tx = Writer [(vld_key 7 [Null] \<lparr>timestamp = 1, is_assert = True\<rparr>, [])]
       [(vld_key 7 [Bool True] \<lparr>timestamp = 1, is_assert = True\<rparr>, Some [])] in
   mem_range_skip_scan_tuple ext_example 3 tx (encode_as_key [] 7) (encode_as_key [] 8) 2
     = Done [[Null, Validity \<lparr>timestamp = 1, is_assert = True\<rparr>], [Bool True, Validity \<lparr>timestamp = 1, is_assert = True\<rparr>]] \<and>
   mem_range_skip_scan_tuple ext_example 3 tx (encode_as_key [] 7) (encode_as_key [] 8) 2
     = mem_range_skip_scan_tuple ext_example 3 (mem_transact (mem_store (mem_commit tx)) False)
         (encode_as_key [] 7) (encode_as_key [] 8) 2"
proof -
  let ?v = "\<lparr>timestamp = 1, is_assert = True\<rparr>"
  let ?stored = "[(vld_key 7 [Null] ?v, [])]" and ?delta = "[(vld_key 7 [Bool True] ?v, Some [])]"
  let ?rows = "[([Null], ?v, Some []), ([Bool True], ?v, Some [])] :: hist_row list"
  have ok: "hist_rows_ok ext_example 7 1 (encode_as_key [] 8) ?rows"
    by (simp add: hist_rows_ok_def hist_row_ok_def hist_entry_def bmap_wf_def bset_wf_def
        cmp_encode_as_key [where E = ext_example] cmp_ord_strict TERMINAL_VALIDITY_def
        extend_tuple_from_v_def)
  have in_range: "key_in_range (encode_as_key [] 7) (encode_as_key [] 8) (vld_key 7 [x] ?v)"
    if "x = Null \<or> x = Bool True" for x
    using that by (auto simp: key_in_range_def cmp_encode_as_key [where E = ext_example] cmp_ord_strict)
  have view: "\<forall>k. bmap_get cmp_bytes (map (hist_entry 7) ?rows) k =
      (if key_in_range (encode_as_key [] 7) (encode_as_key [] 8) k then uncommitted_row ?stored ?delta k else None)"
    using in_range by (auto simp: uncommitted_row_def hist_entry_def bytes_ord.cmp_Equal_iff)
  have low: "cmp_bytes (encode_as_key [] 7) (encode_as_key [] 8) \<noteq> Greater"
    by (simp add: cmp_encode_as_key [where E = ext_example] cmp_ord_strict)
  have cur: "map (hist_tuple ext_example) (filter (current_at 2 ?rows) ?rows)
      = [[Null, Validity ?v], [Bool True, Validity ?v]]"
    by (simp add: current_at_def blocks_def validity_ord.cmp_refl hist_tuple_def extend_tuple_from_v_def)
  have wf: "bmap_wf cmp_bytes ?stored" "bmap_wf cmp_bytes ?delta" by (simp_all add: bmap_wf_def bset_wf_def)
  have fuel: "length ?rows < 3" and "\<forall>p \<in> set ?delta. snd p \<noteq> None" by simp_all
  with skip_dual_scan_correct [OF wf low view ok fuel, of 2] show ?thesis
    unfolding cur Let_def by blast
qed

text \<open>
  C15: A deleted version hides older ones only until the commit. Whenever a key has two assertions
  at times \<open>t1 < t2\<close> and a transaction deletes the version of \<open>t2\<close>, a time-travel scan at or after
  \<open>t2\<close> inside the transaction finds nothing for the key, while the same scan after the commit
  returns the version of \<open>t1\<close>.
\<close>

theorem deleted_version_hides_older:
  assumes ext: "ext_ord E" and r: "r \<le> 2 ^ 48"
    and k: "list_all (wf_value E) k" "list_all mem_ordered k"
    and t: "sint t1 < sint t2" "sint t2 \<le> sint valid_at"
  defines "tx \<equiv> Writer (two_versions r k t1 t2) (newest_deleted r k t2)"
    and "lower \<equiv> encode_as_key k r" and "upper \<equiv> encode_as_key (k @ [Bot]) r"
  shows "mem_range_skip_scan_tuple E 3 tx lower upper valid_at = Done [] \<and>
    mem_range_skip_scan_tuple E 3 (mem_transact (mem_store (mem_commit tx)) False) lower upper valid_at
      = Done [k @ [Validity \<lparr>timestamp = t1, is_assert = True\<rparr>]]"
proof -
  let ?v1 = "\<lparr>timestamp = t1, is_assert = True\<rparr>" and ?v2 = "\<lparr>timestamp = t2, is_assert = True\<rparr>"
  have kk: "cmp_tuple E k k = Equal" by (rule total_cmp.cmp_refl [OF total_cmp_tuple [OF ext]])
  have cmp: "cmp_bytes (vld_key r k v) (vld_key r k w) = cmp_validity v w" for v w
    using cmp_vld_key [OF k(2) k(2) refl, where r = r and v = v and w = w and E = E] kk by simp
  note pre = lex_cmp_append_refl [where f = "cmp_value E" and xs = k, OF total_cmp.cmp_refl [OF total_cmp_value [OF ext]]]
  have low: "cmp_bytes lower (vld_key r k v) = Less" for v
    using pre [of "[]"] k unfolding lower_def by (subst cmp_encode_as_key [where E = E]) simp_all
  have up: "cmp_bytes (vld_key r k v) upper = Less" for v
    using k unfolding upper_def by (subst cmp_encode_as_key [where E = E]) (simp_all add: pre cmp_value_Bot)
  have lu: "cmp_bytes lower upper = Less"
    using bytes_ord.cmp_trans_less [OF low [of ?v1] up] .
  have v: "cmp_validity ?v2 ?v1 = Less" "cmp_validity ?v1 ?v2 = Greater"
    using t by (simp_all add: cmp_validity_key)
  have nt: "?v1 \<noteq> TERMINAL_VALIDITY" "?v2 \<noteq> TERMINAL_VALIDITY" by (simp_all add: TERMINAL_VALIDITY_def)
  have ok: "hist_row_ok E r (length k) upper (k, w, Some [])" "hist_row_ok E r (length k) upper (k, w, None)"
    if "w \<noteq> TERMINAL_VALIDITY" for w
    using k that up by (simp_all add: hist_row_ok_def extend_tuple_from_v_def)
  let ?rows = "[(k, ?v2, None), (k, ?v1, Some [])]"
  have merged: "lay_over (newest_deleted r k t2) (two_versions r k t1 t2) = map (hist_entry r) ?rows"
    by (simp add: newest_deleted_def two_versions_def cmp validity_ord.cmp_refl hist_entry_def)
  have "skip_collect (\<lambda>n. seek_next E n (lay_over (newest_deleted r k t2) (two_versions r k t1 t2)) upper valid_at) 3 lower
      = Done (map (hist_tuple E) (filter (current_at valid_at ?rows) ?rows))"
    by (rule seek_collect_spec [where r = r and arity = "length k"])
      (use r in \<open>simp_all add: merged btree_range_def bmap_range_def lu low up hist_entry_def hist_rows_ok_def
        ok nt ext bmap_wf_def bset_wf_def cmp v\<close>)
  moreover have "bmap_wf cmp_bytes (two_versions r k t1 t2)" "bmap_wf cmp_bytes (newest_deleted r k t2)"
    by (simp_all add: two_versions_def newest_deleted_def bmap_wf_def bset_wf_def cmp v)
  moreover have "filter (current_at valid_at ?rows) ?rows = []"
    using t v by (simp add: current_at_def blocks_def)
  ultimately have "mem_range_skip_scan_tuple E 3 tx lower upper valid_at = Done []"
    by (simp add: tx_def skip_dual_next_seek_fun)
  moreover
  let ?left = "[(k, ?v1, Some [])]"
  have store: "mem_store (mem_commit tx) = [(vld_key r k ?v1, [])]"
    by (simp add: tx_def two_versions_def newest_deleted_def commit_change_def cmp validity_ord.cmp_refl)
  have "skip_collect (\<lambda>n. seek_next E n (as_log [(vld_key r k ?v1, [])]) upper valid_at) 3 lower
      = Done (map (hist_tuple E) (filter (current_at valid_at ?left) ?left))"
    by (rule seek_collect_spec [where r = r and arity = "length k"])
      (use r in \<open>simp_all add: btree_range_def bmap_range_def lu low up hist_entry_def hist_rows_ok_def ok nt ext
        bmap_wf_def bset_wf_def\<close>)
  moreover have "filter (current_at valid_at ?left) ?left = ?left"
    using t by (simp add: current_at_def blocks_def validity_ord.cmp_refl)
  ultimately show ?thesis
    by (simp add: store skip_next_seek_fun hist_tuple_def extend_tuple_from_v_def)
qed

theorem deleted_version_hides_older_witness:
  "mem_range_skip_scan_tuple ext_example 3
     (Writer (two_versions 7 [Null] 1 2) (newest_deleted 7 [Null] 2))
     (encode_as_key [Null] 7) (encode_as_key [Null, Bot] 7) 5 = Done []"
  using deleted_version_hides_older [of ext_example 7 "[Null]" 1 2 5] by simp

text \<open>
  C16: A stored retraction at the smallest timestamp makes every time-travel scan that reaches it
  run forever: the bound to seek to next is the key just read. However much fuel it gets, the scan
  does not return.
\<close>

theorem terminal_retraction_diverges:
  assumes "ext_ord E" and "list_all (wf_value E) k" and "r \<le> 2 ^ 48"
    and "btree_range stored lower upper = Some ((vld_key r k TERMINAL_VALIDITY, bs) # rest)"
  shows "mem_range_skip_scan_tuple E fuel (Reader stored) lower upper valid_at = Diverged"
proof -
  have "\<not> sint valid_at < sint (timestamp TERMINAL_VALIDITY)"
    using sint_64_range(1) [of valid_at] by (simp add: TERMINAL_VALIDITY_def)
  then have "check_key_for_validity E (vld_key r k TERMINAL_VALIDITY) valid_at
      = Some (None, vld_key r k TERMINAL_VALIDITY)"
    using check_key_row [OF assms(1-3)] by (simp add: TERMINAL_VALIDITY_def)
  from skip_next_terminal [OF this assms(4)] show ?thesis by (cases fuel) (simp_all del: skip_next.simps)
qed

theorem terminal_retraction_diverges_witness:
  "\<forall>fuel. mem_range_skip_scan_tuple ext_example fuel (Reader [(vld_key 7 [Null] TERMINAL_VALIDITY, [])])
     (encode_as_key [] 7) (encode_as_key [] 8) 0 = Diverged"
proof
  fix fuel
  have "btree_range [(vld_key 7 [Null] TERMINAL_VALIDITY, [] :: bytes)] (encode_as_key [] 7) (encode_as_key [] 8)
      = Some [(vld_key 7 [Null] TERMINAL_VALIDITY, [])]"
    by (simp add: btree_range_def bmap_range_def cmp_encode_as_key [where E = ext_example] cmp_ord_strict)
  then show "mem_range_skip_scan_tuple ext_example fuel (Reader [(vld_key 7 [Null] TERMINAL_VALIDITY, [])])
     (encode_as_key [] 7) (encode_as_key [] 8) 0 = Diverged"
    by (intro terminal_retraction_diverges [where k = "[Null]" and r = 7 and bs = "[]" and rest = "[]"]) simp_all
qed

end
