(* ===== verification/Coltype.thy ===== *)
theory Coltype
  imports Memcmp
begin

text \<open>
  \<open>retia-core/src/data/relation.rs\<close>: column types, the metadata of a stored relation, and the
  coercion of a value to a column type, with its error cases as values.

  The text of a JSON value is what \<open>to_string\<close> prints, so an array is its elements between brackets.
  A base64 string for a vector column is read in the byte order of the (little-endian) target.
  The lemmas: a coerced value has the type of the column, and coercion leaves values of the type
  alone, so it is idempotent.
\<close>

datatype vec_element_type = EltF32 | EltF64

datatype col_type =
    TAny
  | TBool
  | TInt
  | TFloat
  | TString
  | TBytes
  | TUuid
  | TList (eltype: nullable_col_type) (list_len: "nat option")
  | TVec (vec_eltype: vec_element_type) (vec_len: nat)
  | TTuple "nullable_col_type list"
  | TValidity
  | TJson
and nullable_col_type = Nullable (coltype: col_type) (nullable: bool)

datatype coerce_error =
    InvalidNullValue nullable_col_type
  | DataCoercionFailed nullable_col_type data_value
  | BadListLength nullable_col_type nat
  | DataCoercionFromBot
  | BadBase64EncodedString bytes
  | InvalidValidity data_value
  | PanicBeforeEpoch \<comment> \<open>\<open>duration_since(UNIX_EPOCH).unwrap()\<close> panics\<close>

section \<open>Coercion\<close>

definition el_type :: "vector \<Rightarrow> vec_element_type" where
  "el_type v = (case v of F32 _ \<Rightarrow> EltF32 | F64 _ \<Rightarrow> EltF64)"

text \<open>Cutting a byte string into elements of \<open>w\<close> bytes, a short tail dropped, least byte first.\<close>

fun le_words :: "nat \<Rightarrow> nat \<Rightarrow> bytes \<Rightarrow> nat list" where
  "le_words w 0 bs = []"
| "le_words w (Suc n) bs = be_value (rev (take w bs)) # le_words w n (drop w bs)"

definition coerce_validity :: "ext \<Rightarrow> i64 \<Rightarrow> data_value \<Rightarrow> coerce_error + data_value" where
  "coerce_validity E cur_vld data =
     (case data of
        Validity _ \<Rightarrow> Inr data
      | Str s \<Rightarrow>
          if s = str_bytes ''ASSERT'' then Inr (Validity \<lparr>timestamp = cur_vld, is_assert = True\<rparr>)
          else if s = str_bytes ''RETRACT'' then Inr (Validity \<lparr>timestamp = cur_vld, is_assert = False\<rparr>)
          else
            (let (asserts, ts_str) =
               (case s of
                  c # remaining \<Rightarrow> if c = 0x7E then (False, remaining) else (True, s)
                | [] \<Rightarrow> (True, s))
             in case rfc3339_micros E ts_str of
                  None \<Rightarrow> Inl (InvalidValidity (Str s))
                | Some micros \<Rightarrow>
                    if micros < 0 then Inl PanicBeforeEpoch
                    else let microseconds = (word_of_int micros :: i64)
                         in if sint microseconds = 2 ^ 63 - 1 \<or> sint microseconds = - (2 ^ 63)
                            then Inl (InvalidValidity (Str s))
                            else Inr (Validity \<lparr>timestamp = microseconds, is_assert = asserts\<rparr>))
      | List l \<Rightarrow>
          (case l of
             [x, y] \<Rightarrow>
               (case (get_int x, get_bool y) of
                  (Some ts, Some asserts) \<Rightarrow>
                    if sint ts = 2 ^ 63 - 1 \<or> sint ts = - (2 ^ 63) then Inl (InvalidValidity (List l))
                    else Inr (Validity \<lparr>timestamp = ts, is_assert = asserts\<rparr>)
                | _ \<Rightarrow> Inl (InvalidValidity (List l)))
           | _ \<Rightarrow> Inl (InvalidValidity (List l)))
      | v \<Rightarrow> Inl (InvalidValidity v))"

definition coerce_vec ::
  "ext \<Rightarrow> nullable_col_type \<Rightarrow> vec_element_type \<Rightarrow> nat \<Rightarrow> data_value \<Rightarrow> coerce_error + data_value" where
  "coerce_vec E self elt len data =
     (case data of
        List l \<Rightarrow>
          if length l \<noteq> len then Inl (BadListLength self (length l))
          else (case elt of
                  EltF32 \<Rightarrow> map_ok (\<lambda>es. Vec (F32 es))
                    (try_collect (\<lambda>el. map_ok f64_as_f32 (ok_or (get_float el) (DataCoercionFailed self data))) l)
                | EltF64 \<Rightarrow> map_ok (\<lambda>es. Vec (F64 es))
                    (try_collect (\<lambda>el. ok_or (get_float el) (DataCoercionFailed self data)) l))
      | Vec arr \<Rightarrow>
          if elt \<noteq> el_type arr \<or> len \<noteq> vector_len arr then Inl (DataCoercionFailed self data)
          else Inr data
      | Str s \<Rightarrow>
          (case base64_decode E s of
             None \<Rightarrow> Inl (DataCoercionFailed self data)
           | Some bs \<Rightarrow>
               (case elt of
                  EltF32 \<Rightarrow>
                    if length bs div 4 \<noteq> len then Inl (DataCoercionFailed self data)
                    else Inr (Vec (F32 (map word_of_nat (le_words 4 len bs))))
                | EltF64 \<Rightarrow>
                    if length bs div 8 \<noteq> len then Inl (DataCoercionFailed self data)
                    else Inr (Vec (F64 (map word_of_nat (le_words 8 len bs))))))
      | _ \<Rightarrow> Inl (DataCoercionFailed self data))"

definition json_array :: "bytes list \<Rightarrow> bytes" where
  "json_array js = str_bytes ''['' @ concat (tl (concat (map (\<lambda>j. [str_bytes '','', j]) js))) @ str_bytes '']''"

text \<open>\<open>JsonValue::from\<close> of what coercion to JSON returns: the text itself, or null.\<close>

definition json_of_coerced :: "data_value \<Rightarrow> bytes" where
  "json_of_coerced v = (case v of Json j \<Rightarrow> j | _ \<Rightarrow> str_bytes ''null'')"

function coerce :: "ext \<Rightarrow> nullable_col_type \<Rightarrow> i64 \<Rightarrow> data_value \<Rightarrow> coerce_error + data_value" where
  "coerce E self cur_vld data =
     (if data = Null then (if nullable self then Inr data else Inl (InvalidNullValue self))
      else (case coltype self of
        TAny \<Rightarrow> (case data of Set s \<Rightarrow> Inr (List s) | Bot \<Rightarrow> Inl DataCoercionFromBot | d \<Rightarrow> Inr d)
      | TBool \<Rightarrow> map_ok Bool (ok_or (get_bool data) (DataCoercionFailed self data))
      | TInt \<Rightarrow> map_ok (\<lambda>i. Num (IntN i)) (ok_or (get_int data) (DataCoercionFailed self data))
      | TFloat \<Rightarrow> map_ok (\<lambda>f. Num (FloatN f)) (ok_or (get_float data) (DataCoercionFailed self data))
      | TString \<Rightarrow> (case data of Str _ \<Rightarrow> Inr data | _ \<Rightarrow> Inl (DataCoercionFailed self data))
      | TBytes \<Rightarrow>
          (case data of
             Bytes _ \<Rightarrow> Inr data
           | Str s \<Rightarrow> map_ok Bytes (ok_or (base64_decode E s) (BadBase64EncodedString s))
           | _ \<Rightarrow> Inl (DataCoercionFailed self data))
      | TUuid \<Rightarrow> map_ok Uuid (ok_or (get_uuid E data) (DataCoercionFailed self data))
      | TList elt len \<Rightarrow>
          (case data of
             List l \<Rightarrow>
               if (case len of None \<Rightarrow> False | Some n \<Rightarrow> n \<noteq> length l)
               then Inl (BadListLength self (length l))
               else map_ok List (try_collect (\<lambda>el. coerce E elt cur_vld el) l)
           | _ \<Rightarrow> Inl (DataCoercionFailed self data))
      | TVec elt len \<Rightarrow> coerce_vec E self elt len data
      | TTuple typ \<Rightarrow>
          (case data of
             List l \<Rightarrow>
               if length typ \<noteq> length l then Inl (BadListLength self (length l))
               else map_ok List (try_collect (\<lambda>(el, t). coerce E t cur_vld el) (zip l typ))
           | _ \<Rightarrow> Inl (DataCoercionFailed self data))
      | TValidity \<Rightarrow> coerce_validity E cur_vld data
      | TJson \<Rightarrow>
          (case data of
             List l \<Rightarrow> map_ok (\<lambda>vs. Json (json_array (map json_of_coerced vs)))
                (try_collect (\<lambda>el. coerce E self cur_vld el) l)
           | Set l \<Rightarrow> map_ok (\<lambda>vs. Json (json_array (map json_of_coerced vs)))
                (try_collect (\<lambda>el. coerce E self cur_vld el) l)
           | Vec (F32 a) \<Rightarrow> Inr (Json (json_array (map (json_f32 E) a)))
           | Vec (F64 a) \<Rightarrow> Inr (Json (json_array (map (\<lambda>f. json_macro E (Num (FloatN f))) a)))
           | Json j \<Rightarrow> Inr (Json j)
           | Bot \<Rightarrow> Inr (Json (str_bytes ''null''))
           | _ \<Rightarrow> Inr (Json (json_macro E data)))))"

  by pat_completeness auto
termination
  by (relation "measure (\<lambda>(E, self, cur_vld, data). size data)")
    (auto simp: less_Suc_eq_le size_list_estimation' dest!: set_zip_leftD)

declare coerce.simps [simp del]

section \<open>Metadata\<close>

record 'e column_def =
  col_name :: bytes
  typing :: nullable_col_type
  default_gen :: "'e option"

record 'e stored_relation_metadata =
  keys :: "'e column_def list"
  non_keys :: "'e column_def list"

datatype column_error =
    ColumnNotProvided bytes
  | IncompatibleTyping bytes nullable_col_type nullable_col_type
  | ColumnNotFound bytes

definition satisfied_by_required_col ::
  "'e stored_relation_metadata \<Rightarrow> 'e column_def \<Rightarrow> column_error + unit" where
  "satisfied_by_required_col self col =
     (if list_ex (\<lambda>target. col_name target = col_name col) (keys self @ non_keys self) then Inr ()
      else if default_gen col = None then Inl (ColumnNotProvided (col_name col))
      else Inr ())"

definition compatible_with_col ::
  "'e stored_relation_metadata \<Rightarrow> 'e column_def \<Rightarrow> column_error + unit" where
  "compatible_with_col self col =
     (case find (\<lambda>target. col_name target = col_name col) (keys self @ non_keys self) of
        Some target \<Rightarrow>
          if (\<not> nullable (typing col) \<or> coltype (typing col) \<noteq> TAny) \<and> typing target \<noteq> typing col
          then Inl (IncompatibleTyping (col_name col) (typing target) (typing col))
          else Inr ()
      | None \<Rightarrow> Inl (ColumnNotFound (col_name col)))"

fun all_ok :: "('a \<Rightarrow> 'e + unit) \<Rightarrow> 'a list \<Rightarrow> 'e + unit" where
  "all_ok f [] = Inr ()"
| "all_ok f (x # xs) = (case f x of Inl e \<Rightarrow> Inl e | Inr _ \<Rightarrow> all_ok f xs)"

text \<open>\<open>RelationHandle::ensure_compatible\<close> on the metadata of the handle and of the input.\<close>

definition ensure_compatible ::
  "'e stored_relation_metadata \<Rightarrow> 'e stored_relation_metadata \<Rightarrow> bool \<Rightarrow> column_error + unit" where
  "ensure_compatible self inp is_remove_or_update =
     (case all_ok (compatible_with_col self) (keys inp @ non_keys self) of
        Inl e \<Rightarrow> Inl e
      | Inr _ \<Rightarrow>
          (case all_ok (satisfied_by_required_col inp) (keys self) of
             Inl e \<Rightarrow> Inl e
           | Inr _ \<Rightarrow>
               if is_remove_or_update then Inr ()
               else all_ok (satisfied_by_required_col inp) (non_keys self)))"

section \<open>Typing\<close>

function has_type :: "nullable_col_type \<Rightarrow> data_value \<Rightarrow> bool" where
  "has_type self v =
     (if v = Null then nullable self
      else (case coltype self of
        TAny \<Rightarrow> (case v of Set _ \<Rightarrow> False | Bot \<Rightarrow> False | _ \<Rightarrow> True)
      | TBool \<Rightarrow> (case v of Bool _ \<Rightarrow> True | _ \<Rightarrow> False)
      | TInt \<Rightarrow> (case v of Num (IntN _) \<Rightarrow> True | _ \<Rightarrow> False)
      | TFloat \<Rightarrow> (case v of Num (FloatN _) \<Rightarrow> True | _ \<Rightarrow> False)
      | TString \<Rightarrow> (case v of Str _ \<Rightarrow> True | _ \<Rightarrow> False)
      | TBytes \<Rightarrow> (case v of Bytes _ \<Rightarrow> True | _ \<Rightarrow> False)
      | TUuid \<Rightarrow> (case v of Uuid _ \<Rightarrow> True | _ \<Rightarrow> False)
      | TList elt len \<Rightarrow>
          (case v of
             List l \<Rightarrow> (case len of None \<Rightarrow> True | Some n \<Rightarrow> n = length l) \<and> list_all (\<lambda>x. has_type elt x) l
           | _ \<Rightarrow> False)
      | TVec elt len \<Rightarrow> (case v of Vec arr \<Rightarrow> elt = el_type arr \<and> len = vector_len arr | _ \<Rightarrow> False)
      | TTuple typ \<Rightarrow>
          (case v of
             List l \<Rightarrow> length typ = length l \<and> list_all (\<lambda>(x, t). has_type t x) (zip l typ)
           | _ \<Rightarrow> False)
      | TValidity \<Rightarrow> (case v of Validity _ \<Rightarrow> True | _ \<Rightarrow> False)
      | TJson \<Rightarrow> (case v of Json _ \<Rightarrow> True | _ \<Rightarrow> False)))"

  by pat_completeness auto
termination
  by (relation "measure (\<lambda>(self, v). size v)")
    (auto simp: less_Suc_eq_le size_list_estimation' dest!: set_zip_leftD)

declare has_type.simps [simp del]

lemma length_le_words [simp]: "length (le_words w n bs) = n"
  by (induction n arbitrary: bs) auto

lemma coerce_vec_type:
  "coerce_vec E self elt len data = Inr v \<Longrightarrow>
   \<exists>arr. v = Vec arr \<and> elt = el_type arr \<and> len = vector_len arr"
  by (auto simp: coerce_vec_def el_type_def vector_len_def try_collect_Inr
      dest: list_all2_lengthD split: data_value.splits if_splits vec_element_type.splits option.splits)

lemma coerce_validity_type: "coerce_validity E cur_vld data = Inr v \<Longrightarrow> \<exists>vld. v = Validity vld"
  by (auto simp: coerce_validity_def Let_def split: data_value.splits if_splits option.splits list.splits prod.splits)

lemma coerce_Null [simp]:
  "coerce E self cur_vld Null = (if nullable self then Inr Null else Inl (InvalidNullValue self))"
  by (subst coerce.simps) simp

lemma has_type_Null [simp]: "has_type self Null = nullable self"
  by (subst has_type.simps) simp

lemma coerce_type:
  "coerce E self cur_vld data = Inr v \<Longrightarrow> has_type self v"
proof (induction E self cur_vld data arbitrary: v rule: coerce.induct)
  case (1 E self cur_vld data)
  show ?case
  proof (cases "data = Null")
    case True
    with "1.prems" show ?thesis by (auto split: if_splits)
  next
    case nn: False
    note pr = "1.prems" [unfolded coerce.simps [of E self cur_vld data] if_not_P [OF nn]]
    show ?thesis
    proof (cases "coltype self")
      case (TList elt len)
      from pr TList obtain l where d: "data = List l" by (cases data) simp_all
      note pr' = pr [unfolded TList d col_type.case data_value.case]
      have len: "\<not> (case len of None \<Rightarrow> False | Some n \<Rightarrow> n \<noteq> length l)"
        using pr' by (rule contrapos_pn) simp
      obtain ws where ws: "list_all2 (\<lambda>x y. coerce E elt cur_vld x = Inr y) l ws" "v = List ws"
        using pr' [unfolded if_not_P [OF len]] by (auto simp: try_collect_Inr)
      have "has_type elt (ws ! i)" if "i < length ws" for i
        by (rule "1.IH"(1) [OF nn TList d len, of "l ! i"])
          (use ws(1) that in \<open>auto simp: list_all2_conv_all_nth\<close>)
      then have "list_all (has_type elt) ws" by (auto simp: list_all_length)
      moreover have "length ws = length l" using ws(1) by (simp add: list_all2_lengthD)
      ultimately show ?thesis
        using TList ws(2) len by (cases len) (simp_all add: has_type.simps [of self])
    next
      case (TTuple ts)
      from pr TTuple obtain l1 where d: "data = List l1" by (cases data) simp_all
      note pr' = pr [unfolded TTuple d col_type.case data_value.case]
      have "\<not> length ts \<noteq> length l1" using pr' by (rule contrapos_pn) simp
      with pr' d obtain l ws where l: "data = List l" "\<not> length ts \<noteq> length l"
        "list_all2 (\<lambda>(x, t) y. coerce E t cur_vld x = Inr y) (zip l ts) ws" "v = List ws"
        by (auto simp: try_collect_Inr split_def)
      have len: "length ws = length ts" using l(2,3) by (auto dest: list_all2_lengthD)
      have "has_type (ts ! i) (ws ! i)" if "i < length ws" for i
      proof (rule "1.IH"(2) [OF nn TTuple l(1,2), of "(l ! i, ts ! i)", OF _ refl])
        show "(l ! i, ts ! i) \<in> set (zip l ts)" using that len l(2) by (auto simp: set_zip)
        show "coerce E (ts ! i) cur_vld (l ! i) = Inr (ws ! i)"
          using l(2,3) that len by (auto simp: list_all2_conv_all_nth)
      qed
      then have "list_all (\<lambda>(x, t). has_type t x) (zip ws ts)"
        using len by (auto simp: list_all_iff set_zip)
      with TTuple l len show ?thesis by (simp add: has_type.simps [of self])
    next
      case (TVec elt len)
      with pr coerce_vec_type [of E self elt len data v] show ?thesis by (auto simp: has_type.simps [of self])
    next
      case TValidity
      with pr coerce_validity_type [of E cur_vld data v] show ?thesis by (auto simp: has_type.simps [of self])
    next
      case TJson
      have "\<exists>j. v = Json j"
        using pr unfolding TJson col_type.case by (cases data) (auto split: vector.splits)
      with TJson show ?thesis by (auto simp: has_type.simps [of self])
    next
      case TAny
      with pr nn show ?thesis by (cases data) (auto simp: has_type.simps [of self])
    next
      case TString
      with pr show ?thesis by (cases data) (auto simp: has_type.simps [of self])
    next
      case TBytes
      with pr show ?thesis by (cases data) (auto simp: has_type.simps [of self])
    next
      case TBool
      then have "\<exists>b. v = Bool b" using pr by (simp only: col_type.case) auto
      with TBool show ?thesis by (auto simp: has_type.simps [of self])
    next
      case TInt
      then have "\<exists>b. v = Num (IntN b)" using pr by (simp only: col_type.case) auto
      with TInt show ?thesis by (auto simp: has_type.simps [of self])
    next
      case TFloat
      then have "\<exists>b. v = Num (FloatN b)" using pr by (simp only: col_type.case) auto
      with TFloat show ?thesis by (auto simp: has_type.simps [of self])
    next
      case TUuid
      then have "\<exists>b. v = Uuid b" using pr by (simp only: col_type.case) auto
      with TUuid show ?thesis by (auto simp: has_type.simps [of self])
    qed
  qed
qed

lemma coerce_id: "has_type self v \<Longrightarrow> coerce E self cur_vld v = Inr v"
proof (induction self v rule: has_type.induct)
  case (1 self v)
  show ?case
  proof (cases "v = Null")
    case True
    with "1.prems" show ?thesis by simp
  next
    case nn: False
    note cs = coerce.simps [of E self cur_vld v, unfolded if_not_P [OF nn]]
    note pr = "1.prems" [unfolded has_type.simps [of self v] if_not_P [OF nn]]
    show ?thesis
    proof (cases "coltype self")
      case (TList elt len)
      with pr obtain l where l: "v = List l" by (cases v) auto
      have "try_collect (coerce E elt cur_vld) l = Inr l"
        using pr TList l "1.IH"(1) [OF nn TList l]
        by (auto simp: try_collect_Inr list_all2_conv_all_nth list_all_iff)
      with pr TList l show ?thesis by (subst coerce.simps) (auto split: option.splits)
    next
      case (TTuple ts)
      with pr obtain l where l: "v = List l" by (cases v) auto
      have "coerce E (ts ! i) cur_vld (l ! i) = Inr (l ! i)" if "i < length l" for i
      proof (rule "1.IH"(2) [OF nn TTuple l, of "(l ! i, ts ! i)", OF _ refl])
        show mem: "(l ! i, ts ! i) \<in> set (zip l ts)"
          using that pr TTuple l by (auto simp: set_zip)
        show "has_type (ts ! i) (l ! i)"
          using mem pr TTuple l by (auto simp: list_all_iff)
      qed
      then have "try_collect (\<lambda>(x, t). coerce E t cur_vld x) (zip l ts) = Inr l"
        using pr TTuple l by (auto simp: try_collect_Inr list_all2_conv_all_nth)
      with pr TTuple l show ?thesis by (subst coerce.simps) auto
    next
      case TInt
      with pr obtain i where "v = Num (IntN i)" by (cases v) (auto split: rnum.splits)
      with TInt show ?thesis by (subst coerce.simps) (simp add: get_int_def num_get_int_def)
    next
      case TFloat
      with pr obtain f where "v = Num (FloatN f)" by (cases v) (auto split: rnum.splits)
      with TFloat show ?thesis by (subst coerce.simps) (simp add: get_float_def num_get_float_def)
    qed (use pr in \<open>unfold cs, (cases v; simp add: coerce_vec_def coerce_validity_def get_bool_def get_uuid_def)+\<close>)
  qed
qed

lemma all_ok_iff: "all_ok f xs = Inr () \<longleftrightarrow> (\<forall>x \<in> set xs. f x = Inr ())"
  by (induction xs) (auto split: sum.splits)

lemma satisfied_iff:
  "satisfied_by_required_col inp col = Inr () \<longleftrightarrow>
     default_gen col \<noteq> None \<or> col_name col \<in> col_name ` set (keys inp @ non_keys inp)"
  by (auto simp: satisfied_by_required_col_def list_ex_iff image_iff) (metis UnCI)+

lemma find_distinct:
  "distinct (map f xs) \<Longrightarrow> x \<in> set xs \<Longrightarrow> find (\<lambda>y. f y = f x) xs = Some x"
  by (induction xs) (auto simp: image_iff)

lemma compatible_with_own_col:
  "distinct (map col_name (keys self @ non_keys self)) \<Longrightarrow> col \<in> set (keys self @ non_keys self) \<Longrightarrow>
   compatible_with_col self col = Inr ()"
  using find_distinct [of col_name "keys self @ non_keys self" col]
  by (simp add: compatible_with_col_def)

section \<open>Properties\<close>

text \<open>
  C5: What coercion accepts has the type of the column, and coercing it again, at any later time,
  changes nothing. It holds for every column type, nested lists, tuples, vectors and JSON included.
\<close>

theorem coerce_well_typed:
  assumes "coerce E self cur_vld data = Inr v"
  shows "has_type self v \<and> coerce E self later_vld v = Inr v"
  using coerce_type [OF assms] coerce_id by blast

theorem coerce_well_typed_witness:
  "has_type (Nullable (TTuple [Nullable TFloat False, Nullable TInt True]) False)
     (List [Num (FloatN (i64_as_f64 3)), Null]) \<and>
   coerce ext_base (Nullable (TTuple [Nullable TFloat False, Nullable TInt True]) False) 9
     (List [Num (FloatN (i64_as_f64 3)), Null]) = Inr (List [Num (FloatN (i64_as_f64 3)), Null])"
proof (rule coerce_well_typed)
  show "coerce ext_base (Nullable (TTuple [Nullable TFloat False, Nullable TInt True]) False) 5
      (List [Num (IntN 3), Null]) = Inr (List [Num (FloatN (i64_as_f64 3)), Null])"
    by (simp add: coerce.simps get_float_def num_get_float_def)
qed

text \<open>
  C17: What \<open>ensure_compatible\<close> accepts. For a stored relation with distinct column names, it accepts
  an input exactly when every key column of the input exists in the relation with the same type (or is
  untyped), and every column of the relation, only every key for a removal or an update, has a default
  or is named among the input's columns. Nothing is asked of the types, or even the existence in the
  relation, of the input's non-key columns: the loop meant for them runs over the relation's own.
\<close>

theorem ensure_compatible_ignores_non_keys:
  assumes "distinct (map col_name (keys self @ non_keys self))"
  shows "ensure_compatible self inp is_remove_or_update = Inr () \<longleftrightarrow>
    (\<forall>col \<in> set (keys inp). compatible_with_col self col = Inr ()) \<and>
    (\<forall>col \<in> set (keys self @ (if is_remove_or_update then [] else non_keys self)).
      default_gen col \<noteq> None \<or> col_name col \<in> col_name ` set (keys inp @ non_keys inp))"
proof -
  have "all_ok (compatible_with_col self) (keys inp @ non_keys self) = Inr () \<longleftrightarrow>
      (\<forall>col \<in> set (keys inp). compatible_with_col self col = Inr ())"
    using compatible_with_own_col [OF assms] by (auto simp: all_ok_iff)
  then show ?thesis
    unfolding ensure_compatible_def
    by (cases "all_ok (compatible_with_col self) (keys inp @ non_keys self)";
        cases "all_ok (satisfied_by_required_col inp) (keys self)")
      (use all_ok_iff [of "satisfied_by_required_col inp" "keys self"]
        all_ok_iff [of "satisfied_by_required_col inp" "non_keys self"] in \<open>auto simp: satisfied_iff\<close>)
qed

theorem ensure_compatible_ignores_non_keys_witness:
  "ensure_compatible
     \<lparr>keys = [], non_keys = [\<lparr>col_name = [1], typing = Nullable TInt False, default_gen = None :: unit option\<rparr>]\<rparr>
     \<lparr>keys = [], non_keys = [\<lparr>col_name = [1], typing = Nullable TString False, default_gen = None\<rparr>,
        \<lparr>col_name = [2], typing = Nullable TInt False, default_gen = None\<rparr>]\<rparr> False = Inr ()"
  by (subst ensure_compatible_ignores_non_keys) simp_all

end
