(* ===== verification/Relation_Handle.thy ===== *)
theory Relation_Handle
  imports TimeTravel Coltype
begin

text \<open>
  Stored relations (\<open>RelationHandle\<close> of \<open>retia-core/src/runtime/relation.rs\<close>): how rows become keys
  and values, lookups and scans over the transaction of a session, and the choice of an index.

  A session (\<open>SessionTx\<close>) has a transaction of the persistent store, here the memory store, and one of
  the temporary store; \<open>is_temp\<close> chooses. A panic is \<open>None\<close>. The client lemmas are proved in the
  context of the locale \<open>store_read\<close>, so they hold for both stores.
\<close>

datatype access_level = Hidden | ReadOnly | Protected | Normal

text \<open>
  The handle, with the expression type of column defaults as parameter. Of the HNSW, FTS and LSH
  indices only the names matter here.
\<close>

datatype 'e relation_handle = RelationHandle
  (rel_name: bytes)
  (rel_id: relation_id)
  (metadata: "'e stored_relation_metadata")
  (put_triggers: "bytes list")
  (rm_triggers: "bytes list")
  (replace_triggers: "bytes list")
  (rel_access: access_level)
  (is_temp: bool)
  (indices: "(bytes \<times> 'e relation_handle \<times> nat list) list")
  (hnsw_indices: "bytes list")
  (fts_indices: "bytes list")
  (lsh_indices: "bytes list")

datatype relation_error = StoredRelArityMismatch bytes nat nat

record session_tx =
  persist_tx :: mem_tx
  temp_store :: temp_tx

definition has_index :: "'e relation_handle \<Rightarrow> bytes \<Rightarrow> bool" where
  "has_index h index_name \<longleftrightarrow>
     index_name \<in> set (map fst (indices h)) \<or> index_name \<in> set (hnsw_indices h) \<or>
     index_name \<in> set (fts_indices h) \<or> index_name \<in> set (lsh_indices h)"

definition has_no_index :: "'e relation_handle \<Rightarrow> bool" where
  "has_no_index h \<longleftrightarrow> indices h = [] \<and> hnsw_indices h = [] \<and> fts_indices h = [] \<and> lsh_indices h = []"

definition has_triggers :: "'e relation_handle \<Rightarrow> bool" where
  "has_triggers h \<longleftrightarrow> put_triggers h \<noteq> [] \<or> rm_triggers h \<noteq> []"

abbreviation n_keys :: "'e relation_handle \<Rightarrow> nat" where
  "n_keys h \<equiv> length (keys (metadata h))"

definition rel_arity :: "'e relation_handle \<Rightarrow> nat" where
  "rel_arity h = length (non_keys (metadata h)) + n_keys h"

definition raw_binding_map :: "'e relation_handle \<Rightarrow> (bytes, nat) btree" where
  "raw_binding_map h =
     foldl (\<lambda>ret (i, col). bmap_insert cmp_bytes (col_name col) (i + n_keys h) ret)
       (foldl (\<lambda>ret (i, col). bmap_insert cmp_bytes (col_name col) i ret) []
          (enumerate 0 (keys (metadata h))))
       (enumerate 0 (non_keys (metadata h)))"

section \<open>Rows as keys and values\<close>

definition encode_key_prefix :: "'e relation_handle \<Rightarrow> bytes" where
  "encode_key_prefix h = write_u64 (rel_id h)"

definition encode_key_for_store :: "'e relation_handle \<Rightarrow> tuple \<Rightarrow> relation_error + bytes" where
  "encode_key_for_store h t =
     (if length t < n_keys h then Inl (StoredRelArityMismatch (rel_name h) (rel_arity h) (length t))
      else Inr (encode_key_prefix h @ concat (map encode_datavalue (take (n_keys h) t))))"

definition encode_partial_key_for_store :: "'e relation_handle \<Rightarrow> tuple \<Rightarrow> bytes" where
  "encode_partial_key_for_store h t = encode_key_prefix h @ concat (map encode_datavalue t)"

definition encode_val_for_store :: "ext \<Rightarrow> 'e relation_handle \<Rightarrow> tuple \<Rightarrow> bytes option" where
  "encode_val_for_store E h t =
     (if length t < n_keys h then None
      else map_option (\<lambda>bs. encode_key_prefix h @ bs) (rmp_serialize E (drop (n_keys h) t)))"

definition encode_val_only_for_store :: "ext \<Rightarrow> 'e relation_handle \<Rightarrow> tuple \<Rightarrow> bytes option" where
  "encode_val_only_for_store E h t = map_option (\<lambda>bs. encode_key_prefix h @ bs) (rmp_serialize E t)"

definition amend_key_prefix :: "'e relation_handle \<Rightarrow> bytes \<Rightarrow> bytes option" where
  "amend_key_prefix h data = (if length data < 8 then None else Some (encode_key_prefix h @ drop 8 data))"

section \<open>Lookups and scans\<close>

definition rel_range_scan_tuple ::
  "ext \<Rightarrow> 'e relation_handle \<Rightarrow> session_tx \<Rightarrow> bytes \<Rightarrow> bytes \<Rightarrow> tuple list option" where
  "rel_range_scan_tuple E h tx lower upper =
     (if is_temp h then temp_range_scan_tuple E (temp_store tx) lower upper
      else mem_range_scan_tuple E (persist_tx tx) lower upper)"

definition rel_range_skip_scan_tuple ::
  "ext \<Rightarrow> nat \<Rightarrow> 'e relation_handle \<Rightarrow> session_tx \<Rightarrow> bytes \<Rightarrow> bytes \<Rightarrow> i64 \<Rightarrow> tuple list exec" where
  "rel_range_skip_scan_tuple E fuel h tx lower upper valid_at =
     (if is_temp h then temp_range_skip_scan_tuple E fuel (temp_store tx) lower upper valid_at
      else mem_range_skip_scan_tuple E fuel (persist_tx tx) lower upper valid_at)"

definition rel_store_get :: "'e relation_handle \<Rightarrow> session_tx \<Rightarrow> bytes \<Rightarrow> bytes option" where
  "rel_store_get h tx key = (if is_temp h then temp_get (temp_store tx) key else mem_get (persist_tx tx) key)"

definition rel_scan_all :: "ext \<Rightarrow> 'e relation_handle \<Rightarrow> session_tx \<Rightarrow> tuple list option" where
  "rel_scan_all E h tx =
     (case relation_id_next (rel_id h) of
        None \<Rightarrow> None
      | Some nxt \<Rightarrow> rel_range_scan_tuple E h tx (encode_as_key [] (rel_id h)) (encode_as_key [] nxt))"

definition rel_skip_scan_all :: "ext \<Rightarrow> nat \<Rightarrow> 'e relation_handle \<Rightarrow> session_tx \<Rightarrow> i64 \<Rightarrow> tuple list exec" where
  "rel_skip_scan_all E fuel h tx valid_at =
     (case relation_id_next (rel_id h) of
        None \<Rightarrow> Panic
      | Some nxt \<Rightarrow>
          rel_range_skip_scan_tuple E fuel h tx (encode_as_key [] (rel_id h)) (encode_as_key [] nxt) valid_at)"

definition rel_get :: "ext \<Rightarrow> 'e relation_handle \<Rightarrow> session_tx \<Rightarrow> tuple \<Rightarrow> tuple option option" where
  "rel_get E h tx key =
     (let key_data = encode_as_key key (rel_id h)
      in case rel_store_get h tx key_data of
           None \<Rightarrow> Some None
         | Some val_data \<Rightarrow> map_option Some (decode_tuple_from_kv E key_data val_data))"

definition rel_get_val_only :: "ext \<Rightarrow> 'e relation_handle \<Rightarrow> session_tx \<Rightarrow> tuple \<Rightarrow> tuple option option" where
  "rel_get_val_only E h tx key =
     (case rel_store_get h tx (encode_as_key key (rel_id h)) of
        None \<Rightarrow> Some None
      | Some val_data \<Rightarrow>
          if length val_data < ENCODED_KEY_MIN_LEN then None
          else map_option Some (rmp_from_slice E (drop ENCODED_KEY_MIN_LEN val_data)))"

definition rel_exists :: "'e relation_handle \<Rightarrow> session_tx \<Rightarrow> tuple \<Rightarrow> bool" where
  "rel_exists h tx key =
     (if is_temp h then temp_exists (temp_store tx) (encode_as_key key (rel_id h))
      else mem_exists (persist_tx tx) (encode_as_key key (rel_id h)))"

definition rel_scan_prefix :: "ext \<Rightarrow> 'e relation_handle \<Rightarrow> session_tx \<Rightarrow> tuple \<Rightarrow> tuple list option" where
  "rel_scan_prefix E h tx prefix =
     (let lower = take (n_keys h) prefix; upper = lower @ [Bot]
      in rel_range_scan_tuple E h tx (encode_as_key lower (rel_id h)) (encode_as_key upper (rel_id h)))"

definition rel_skip_scan_prefix ::
  "ext \<Rightarrow> nat \<Rightarrow> 'e relation_handle \<Rightarrow> session_tx \<Rightarrow> tuple \<Rightarrow> i64 \<Rightarrow> tuple list exec" where
  "rel_skip_scan_prefix E fuel h tx prefix valid_at =
     (let lower = take (n_keys h) prefix; upper = lower @ [Bot]
      in rel_range_skip_scan_tuple E fuel h tx (encode_as_key lower (rel_id h))
           (encode_as_key upper (rel_id h)) valid_at)"

definition rel_scan_bounded_prefix ::
  "ext \<Rightarrow> 'e relation_handle \<Rightarrow> session_tx \<Rightarrow> tuple \<Rightarrow> tuple \<Rightarrow> tuple \<Rightarrow> tuple list option" where
  "rel_scan_bounded_prefix E h tx prefix lower upper =
     rel_range_scan_tuple E h tx (encode_as_key (prefix @ lower) (rel_id h))
       (encode_as_key (prefix @ upper @ [Bot]) (rel_id h))"

definition rel_skip_scan_bounded_prefix ::
  "ext \<Rightarrow> nat \<Rightarrow> 'e relation_handle \<Rightarrow> session_tx \<Rightarrow> tuple \<Rightarrow> tuple \<Rightarrow> tuple \<Rightarrow> i64 \<Rightarrow> tuple list exec" where
  "rel_skip_scan_bounded_prefix E fuel h tx prefix lower upper valid_at =
     rel_range_skip_scan_tuple E fuel h tx (encode_as_key (prefix @ lower) (rel_id h))
       (encode_as_key (prefix @ upper @ [Bot]) (rel_id h)) valid_at"

section \<open>Choosing an index\<close>

datatype index_position_use = Join | BindForLater | Ignored

text \<open>\<open>None\<close> when \<open>arg_uses[*i]\<close> is out of range.\<close>

fun join_prefix_len :: "index_position_use list \<Rightarrow> nat list \<Rightarrow> nat option" where
  "join_prefix_len arg_uses [] = Some 0"
| "join_prefix_len arg_uses (i # mapper) =
     (if length arg_uses \<le> i then None
      else if arg_uses ! i = Join then map_option Suc (join_prefix_len arg_uses mapper)
      else Some 0)"

fun choose_loop ::
  "nat \<Rightarrow> index_position_use list \<Rightarrow> bool \<Rightarrow> nat list \<Rightarrow> nat \<Rightarrow> ('h \<times> nat list \<times> bool) option \<Rightarrow>
   ('h \<times> nat list) list \<Rightarrow> ('h \<times> nat list \<times> bool) option option" where
  "choose_loop nk arg_uses validity_query required max_prefix_len chosen [] = Some chosen"
| "choose_loop nk arg_uses validity_query required max_prefix_len chosen ((manifest, mapper) # rest) =
     (if validity_query \<and> mapper = [] then None
      else if validity_query \<and> (nk = 0 \<or> last mapper \<noteq> nk - 1)
        then choose_loop nk arg_uses validity_query required max_prefix_len chosen rest
      else (case join_prefix_len arg_uses mapper of
              None \<Rightarrow> None
            | Some cur_prefix_len \<Rightarrow>
                if max_prefix_len < cur_prefix_len
                then choose_loop nk arg_uses validity_query required cur_prefix_len
                       (Some (manifest, mapper, list_ex (\<lambda>need_pos. need_pos \<notin> set mapper) required)) rest
                else choose_loop nk arg_uses validity_query required max_prefix_len chosen rest))"

definition choose_index ::
  "'e relation_handle \<Rightarrow> index_position_use list \<Rightarrow> bool \<Rightarrow>
   ('e relation_handle \<times> nat list \<times> bool) option option" where
  "choose_index h arg_uses validity_query =
     (if indices h = [] then Some None
      else (case arg_uses of
              [] \<Rightarrow> None
            | first # _ \<Rightarrow>
                if first = Join then Some None
                else choose_loop (n_keys h) arg_uses validity_query
                       (filter (\<lambda>i. arg_uses ! i \<noteq> Ignored) [0..<length arg_uses]) 0 None
                       (map snd (indices h))))"

section \<open>Rows and their entries\<close>

text \<open>What rmp\_serde promises: reading back what it wrote.\<close>

definition rmp_ok :: "ext \<Rightarrow> data_value list \<Rightarrow> bool" where
  "rmp_ok E vs \<longleftrightarrow> (\<exists>bs. rmp_serialize E vs = Some bs \<and> rmp_from_slice E bs = Some vs)"

definition row_ok :: "ext \<Rightarrow> 'e relation_handle \<Rightarrow> tuple \<Rightarrow> bool" where
  "row_ok E h t \<longleftrightarrow> length t = rel_arity h \<and> list_all (wf_value E) (take (n_keys h) t) \<and>
     list_all mem_ordered (take (n_keys h) t) \<and> Bot \<notin> set (take (n_keys h) t) \<and> rmp_ok E (drop (n_keys h) t)"

definition row_key :: "'e relation_handle \<Rightarrow> tuple \<Rightarrow> bytes" where
  "row_key h t = encode_as_key (take (n_keys h) t) (rel_id h)"

definition row_entry :: "ext \<Rightarrow> 'e relation_handle \<Rightarrow> tuple \<Rightarrow> bytes \<times> bytes" where
  "row_entry E h t = (row_key h t, the (encode_val_for_store E h t))"

lemma n_keys_le_arity: "n_keys h \<le> rel_arity h"
  by (simp add: rel_arity_def)

lemma encode_key_for_store_row: "row_ok E h t \<Longrightarrow> encode_key_for_store h t = Inr (row_key h t)"
  using n_keys_le_arity [of h]
  by (simp add: row_ok_def encode_key_for_store_def row_key_def encode_as_key_def encode_key_prefix_def)

lemma encode_val_for_store_row:
  assumes "row_ok E h t"
  obtains bs where "encode_val_for_store E h t = Some (write_u64 (rel_id h) @ bs)"
    and "rmp_from_slice E bs = Some (drop (n_keys h) t)"
  using assms n_keys_le_arity [of h] that
  by (auto simp: row_ok_def rmp_ok_def encode_val_for_store_def encode_key_prefix_def)

lemma decode_row_entry:
  assumes "ext_ord E" and "row_ok E h t"
  shows "decode_tuple_from_kv E (row_key h t) (the (encode_val_for_store E h t)) = Some t"
proof -
  obtain bs where val: "encode_val_for_store E h t = Some (write_u64 (rel_id h) @ bs)"
    and bs: "rmp_from_slice E bs = Some (drop (n_keys h) t)"
    using assms(2) by (rule encode_val_for_store_row)
  have "write_u64 (rel_id h) \<noteq> []"
    using length_write_u64 [of "rel_id h"] by (metis list.size(3) zero_neq_numeral)
  moreover have "decode_tuple_from_key E (row_key h t) = Some (take (n_keys h) t)"
    using assms by (simp add: row_key_def decode_tuple_encode row_ok_def)
  ultimately show ?thesis
    by (simp add: decode_tuple_from_kv_def extend_tuple_from_v_def val bs)
qed

lemma those_decode_rows:
  "ext_ord E \<Longrightarrow> list_all (row_ok E h) rows \<Longrightarrow>
   those (map (\<lambda>(k, v). decode_tuple_from_kv E k v) (map (row_entry E h) rows)) = Some rows"
  by (induction rows) (simp_all add: row_entry_def decode_row_entry)

text \<open>The keys a prefix scan visits, on rows.\<close>

lemma prefix_rows:
  assumes "ext_ord E" and "row_ok E h t" and "list_all mem_ordered p" and "length p \<le> n_keys h"
  shows "key_in_range (encode_as_key p (rel_id h)) (encode_as_key (p @ [Bot]) (rel_id h)) (row_key h t)
    \<longleftrightarrow> take (length p) t = p"
proof -
  have ord: "list_all mem_ordered (take (n_keys h) t)" using assms(2) by (simp add: row_ok_def)
  have "key_in_range (encode_as_key p (rel_id h)) (encode_as_key (p @ [Bot]) (rel_id h)) (row_key h t)
    \<longleftrightarrow> (\<exists>s. take (n_keys h) t = p @ s \<and> (s = [] \<or> hd s \<noteq> Bot))"
    unfolding key_in_range_def row_key_def by (rule prefix_scan_bounds [OF assms(1,3) ord])
  also have "\<dots> \<longleftrightarrow> take (length p) (take (n_keys h) t) = p"
  proof
    assume eq: "take (length p) (take (n_keys h) t) = p"
    let ?s = "drop (length p) (take (n_keys h) t)"
    have "take (n_keys h) t = take (length p) (take (n_keys h) t) @ ?s"
      by (simp only: append_take_drop_id)
    then have "take (n_keys h) t = p @ ?s" unfolding eq .
    moreover have "?s = [] \<or> hd ?s \<noteq> Bot"
    proof (cases "?s = []")
      case False
      then have "hd ?s \<in> set ?s" by (rule hd_in_set)
      then have "hd ?s \<in> set (take (n_keys h) t)" by (rule set_drop_subset [THEN subsetD])
      moreover have "Bot \<notin> set (take (n_keys h) t)" using assms(2) by (simp add: row_ok_def)
      ultimately have "hd ?s \<noteq> Bot" by metis
      then show ?thesis ..
    qed simp
    ultimately show "\<exists>s. take (n_keys h) t = p @ s \<and> (s = [] \<or> hd s \<noteq> Bot)" by blast
  next
    assume "\<exists>s. take (n_keys h) t = p @ s \<and> (s = [] \<or> hd s \<noteq> Bot)"
    then obtain s where "take (n_keys h) t = p @ s" by blast
    then have "take (length p) (take (n_keys h) t) = take (length p) (p @ s)" by (rule arg_cong)
    also have "\<dots> = p" by simp
    finally show "take (length p) (take (n_keys h) t) = p" .
  qed
  also have "\<dots> \<longleftrightarrow> take (length p) t = p"
    using assms(4) by (simp add: min_absorb1)
  finally show ?thesis .
qed

lemma cmp_prefix_bounds:
  assumes "ext_ord E" and "list_all mem_ordered p"
  shows "cmp_bytes (encode_as_key p r) (encode_as_key (p @ [Bot]) r) \<noteq> Greater"
proof -
  have "lex_cmp (cmp_value E) (p @ []) (p @ [Bot]) = lex_cmp (cmp_value E) [] [Bot]"
    by (rule lex_cmp_append_refl) (rule total_cmp.cmp_refl [OF total_cmp_value [OF assms(1)]])
  then show ?thesis using assms(2) by (subst cmp_encode_as_key [where E = E]) simp_all
qed

context store_read
begin

text \<open>The contents of a relation in a transaction: the scan over all its keys.\<close>

lemma scan_tuple_prefix:
  assumes inv: "tx_inv tx" and ext: "ext_ord E" and ids: "rel_id h < nxt"
    and contents: "tx_scan tx (encode_as_key [] (rel_id h)) (encode_as_key [] nxt) = Some (map (row_entry E h) rows)"
    and ok: "list_all (row_ok E h) rows"
    and p: "list_all mem_ordered p" "length p \<le> n_keys h"
  shows "tx_scan_tuple E tx (encode_as_key p (rel_id h)) (encode_as_key (p @ [Bot]) (rel_id h))
    = Some (filter (\<lambda>t. take (length p) t = p) rows)"
proof -
  let ?lo = "encode_as_key p (rel_id h)" and ?hi = "encode_as_key (p @ [Bot]) (rel_id h)"
  have "tx_scan tx ?lo ?hi = Some (filter (\<lambda>(k, v). key_in_range ?lo ?hi k) (map (row_entry E h) rows))"
  proof (rule scan_narrow [OF inv contents])
    show "cmp_bytes (encode_as_key [] (rel_id h)) (encode_as_key [] nxt) \<noteq> Greater"
      "cmp_bytes ?hi (encode_as_key [] nxt) \<noteq> Greater"
      using p ids by (simp_all add: cmp_encode_as_key [where E = E] cmp_ord_strict)
    show "cmp_bytes (encode_as_key [] (rel_id h)) ?lo \<noteq> Greater"
      using p by (cases p) (simp_all add: cmp_encode_as_key [where E = E])
    show "cmp_bytes ?lo ?hi \<noteq> Greater" by (rule cmp_prefix_bounds [OF ext p(1)])
  qed
  also have "filter (\<lambda>(k, v). key_in_range ?lo ?hi k) (map (row_entry E h) rows)
      = map (row_entry E h) (filter (\<lambda>t. take (length p) t = p) rows)"
  proof -
    have "filter (\<lambda>t. key_in_range ?lo ?hi (row_key h t)) rows = filter (\<lambda>t. take (length p) t = p) rows"
      by (rule filter_cong [OF refl]) (use ok prefix_rows [OF ext _ p(1) p(2)] in \<open>simp add: list_all_iff\<close>)
    then show ?thesis by (simp add: filter_map o_def row_entry_def)
  qed
  finally have "tx_scan_tuple E tx ?lo ?hi = those (map (\<lambda>(k, v). decode_tuple_from_kv E k v)
      (map (row_entry E h) (filter (\<lambda>t. take (length p) t = p) rows)))"
    unfolding scan_tuple_law by (simp only: Option.bind.simps)
  also have "\<dots> = Some (filter (\<lambda>t. take (length p) t = p) rows)"
    by (rule those_decode_rows [OF ext]) (use ok in \<open>simp add: list_all_iff\<close>)
  finally show ?thesis .
qed

end

section \<open>Index choice\<close>

text \<open>An index is eligible when a time-travel query may use it.\<close>

definition index_eligible :: "nat \<Rightarrow> bool \<Rightarrow> nat list \<Rightarrow> bool" where
  "index_eligible nk validity_query mapper \<longleftrightarrow> \<not> (validity_query \<and> (nk = 0 \<or> last mapper \<noteq> nk - 1))"

definition prefixes_within ::
  "nat \<Rightarrow> index_position_use list \<Rightarrow> bool \<Rightarrow> nat \<Rightarrow> ('h \<times> nat list) list \<Rightarrow> bool" where
  "prefixes_within nk arg_uses validity_query m cands \<longleftrightarrow>
     list_all (\<lambda>(h, mapper). index_eligible nk validity_query mapper \<longrightarrow>
       (case join_prefix_len arg_uses mapper of None \<Rightarrow> False | Some l \<Rightarrow> l \<le> m)) cands"

lemma prefixes_within_mono:
  "prefixes_within nk arg_uses vq m cands \<Longrightarrow> m \<le> m' \<Longrightarrow> prefixes_within nk arg_uses vq m' cands"
  by (auto simp: prefixes_within_def list_all_iff split: option.splits)

lemma choose_loop_best:
  assumes "choose_loop nk arg_uses vq required m chosen cands = Some res"
  shows "res = chosen \<and> prefixes_within nk arg_uses vq m cands \<or>
    (\<exists>h mapper l. res = Some (h, mapper, list_ex (\<lambda>p. p \<notin> set mapper) required) \<and> (h, mapper) \<in> set cands \<and>
       index_eligible nk vq mapper \<and> join_prefix_len arg_uses mapper = Some l \<and> m < l \<and>
       prefixes_within nk arg_uses vq l cands)"
  using assms
proof (induction cands arbitrary: m chosen)
  case Nil
  then show ?case by (simp add: prefixes_within_def)
next
  case (Cons c cands)
  obtain h mapper where c: "c = (h, mapper)" by (cases c)
  have within: "prefixes_within nk arg_uses vq m' (c # cands) \<longleftrightarrow>
      (index_eligible nk vq mapper \<longrightarrow>
        (case join_prefix_len arg_uses mapper of None \<Rightarrow> False | Some l \<Rightarrow> l \<le> m')) \<and>
      prefixes_within nk arg_uses vq m' cands" for m'
    by (simp add: prefixes_within_def c)
  show ?case
  proof (cases "index_eligible nk vq mapper")
    case False
    then have "choose_loop nk arg_uses vq required m chosen cands = Some res"
      using Cons.prems by (simp add: c index_eligible_def split: if_splits)
    from Cons.IH [OF this] show ?thesis using False unfolding within by auto
  next
    case True
    with Cons.prems obtain l where l: "join_prefix_len arg_uses mapper = Some l"
      by (cases "join_prefix_len arg_uses mapper") (simp_all add: c index_eligible_def split: if_splits)
    show ?thesis
    proof (cases "m < l")
      case less: True
      let ?new = "Some (h, mapper, list_ex (\<lambda>p. p \<notin> set mapper) required)"
      have "choose_loop nk arg_uses vq required l ?new cands = Some res"
        using Cons.prems True l less by (simp add: c index_eligible_def split: if_splits)
      from Cons.IH [OF this] show ?thesis
      proof (elim disjE exE conjE)
        assume "res = ?new" "prefixes_within nk arg_uses vq l cands"
        with True l less have "res = ?new \<and> (h, mapper) \<in> set (c # cands) \<and> index_eligible nk vq mapper \<and>
            join_prefix_len arg_uses mapper = Some l \<and> m < l \<and> prefixes_within nk arg_uses vq l (c # cands)"
          unfolding within by (simp add: c)
        then show ?thesis by blast
      next
        fix h' mapper' l'
        assume *: "res = Some (h', mapper', list_ex (\<lambda>p. p \<notin> set mapper') required)"
          "(h', mapper') \<in> set cands" "index_eligible nk vq mapper'" "join_prefix_len arg_uses mapper' = Some l'"
          "l < l'" "prefixes_within nk arg_uses vq l' cands"
        then have "(h', mapper') \<in> set (c # cands)" "m < l'" "prefixes_within nk arg_uses vq l' (c # cands)"
          unfolding within using less l by simp_all
        with * show ?thesis by blast
      qed
    next
      case False
      then have "choose_loop nk arg_uses vq required m chosen cands = Some res"
        using Cons.prems True l by (simp add: c index_eligible_def split: if_splits)
      from Cons.IH [OF this] show ?thesis
        unfolding within l using False by (auto simp: not_less)
    qed
  qed
qed

section \<open>Properties\<close>

text \<open>
  C7: A stored row is read back. For a row that fits the relation, both encoders succeed, putting the
  pair into a write transaction succeeds, looking the key columns up then gives the whole row, and
  every other key of the store reads as before.
\<close>

theorem stored_row_roundtrip:
  assumes "ext_ord E" and "row_ok E h t" and "\<not> is_temp h"
    and "mem_wf (persist_tx s)" and "mem_writable (persist_tx s)"
  shows "\<exists>key v tx. encode_key_for_store h t = Inr key \<and> encode_val_for_store E h t = Some v \<and>
    mem_put (persist_tx s) key v = Inr tx \<and>
    rel_get E h (s\<lparr>persist_tx := tx\<rparr>) (take (n_keys h) t) = Some (Some t) \<and>
    (\<forall>k. k \<noteq> key \<longrightarrow> mem_get tx k = mem_get (persist_tx s) k)"
proof -
  obtain v where v: "encode_val_for_store E h t = Some v"
    using assms(2) encode_val_for_store_row by blast
  obtain tx where tx: "mem_put (persist_tx s) (row_key h t) v = Inr tx"
    "mem_get tx = (mem_get (persist_tx s))(row_key h t \<mapsto> v)"
    using mem.put_law [OF assms(4,5)] by blast
  have "rel_get E h (s\<lparr>persist_tx := tx\<rparr>) (take (n_keys h) t) = Some (Some t)"
    using decode_row_entry [OF assms(1,2)] assms(3) tx(2) v
    by (simp add: rel_get_def rel_store_get_def row_key_def)
  with tx v encode_key_for_store_row [OF assms(2)] show ?thesis by auto
qed

definition handle_example :: "unit relation_handle" where
  "handle_example = RelationHandle [114] 7
     \<lparr>keys = [\<lparr>col_name = [97], typing = Nullable TInt False, default_gen = None\<rparr>,
              \<lparr>col_name = [98], typing = Nullable TInt False, default_gen = None\<rparr>],
      non_keys = [\<lparr>col_name = [99], typing = Nullable TAny True, default_gen = None\<rparr>]\<rparr>
     [] [] [] Normal False [] [] [] []"

lemma row_ok_example:
  "row_ok ext_example handle_example [Num (IntN 1), Num (IntN 2), Null]"
  using rmp_example_roundtrip [of "[Null]"]
  by (simp add: row_ok_def handle_example_def rel_arity_def rmp_ok_def)

theorem stored_row_roundtrip_witness:
  "\<exists>key v tx. encode_key_for_store handle_example [Num (IntN 1), Num (IntN 2), Null] = Inr key \<and>
    encode_val_for_store ext_example handle_example [Num (IntN 1), Num (IntN 2), Null] = Some v \<and>
    mem_put (Writer [] []) key v = Inr tx \<and>
    rel_get ext_example handle_example \<lparr>persist_tx = tx, temp_store = []\<rparr> [Num (IntN 1), Num (IntN 2)]
      = Some (Some [Num (IntN 1), Num (IntN 2), Null])"
  using stored_row_roundtrip [OF ext_ord_example row_ok_example, of "\<lparr>persist_tx = Writer [] [], temp_store = []\<rparr>"]
  by (auto simp: handle_example_def)

text \<open>
  C4: A prefix scan of a relation returns exactly the rows that begin with the prefix, in key order.
  The rows of the relation are what a scan over all its keys finds; the session may read the persistent
  or the temporary store, inside a write transaction or not; a prefix longer than the key is cut.
\<close>

theorem scan_prefix_correct:
  assumes "ext_ord E" and "list_all (row_ok E h) rows" and "rel_id h < nxt"
    and "mem_wf (persist_tx s)" and "bmap_wf cmp_bytes (temp_store s)"
    and "(if is_temp h then temp_range_scan (temp_store s) else mem_range_scan (persist_tx s))
        (encode_as_key [] (rel_id h)) (encode_as_key [] nxt) = Some (map (row_entry E h) rows)"
    and "list_all mem_ordered prefix"
  shows "rel_scan_prefix E h s prefix =
    Some (filter (\<lambda>t. take (length (take (n_keys h) prefix)) t = take (n_keys h) prefix) rows)"
proof -
  have p: "list_all mem_ordered (take (n_keys h) prefix)"
    using assms(7) by (auto simp: list_all_iff dest: in_set_takeD)
  show ?thesis
    using mem.scan_tuple_prefix [OF assms(4,1,3) _ assms(2) p] temp.scan_tuple_prefix [OF assms(5,1,3) _ assms(2) p]
      assms(6)
    by (cases "is_temp h") (simp_all add: rel_scan_prefix_def rel_range_scan_tuple_def Let_def)
qed

theorem scan_prefix_correct_witness:
  "rel_scan_prefix ext_example handle_example
     \<lparr>persist_tx = Reader [row_entry ext_example handle_example [Num (IntN 1), Num (IntN 2), Null]], temp_store = []\<rparr>
     [Num (IntN 1)] = Some [[Num (IntN 1), Num (IntN 2), Null]]"
proof -
  let ?t = "[Num (IntN 1), Num (IntN 2), Null]" and ?h = handle_example
  let ?s = "\<lparr>persist_tx = Reader [row_entry ext_example ?h ?t], temp_store = []\<rparr>"
  have "(if is_temp ?h then temp_range_scan (temp_store ?s) else mem_range_scan (persist_tx ?s))
      (encode_as_key [] (rel_id ?h)) (encode_as_key [] 8) = Some (map (row_entry ext_example ?h) [?t])"
    by (simp add: handle_example_def row_entry_def row_key_def btree_range_def bmap_range_def
        cmp_encode_as_key [where E = ext_example] cmp_ord_strict)
  then have "rel_scan_prefix ext_example ?h ?s [Num (IntN 1)] =
      Some (filter (\<lambda>t. take (length (take (n_keys ?h) [Num (IntN 1)])) t = take (n_keys ?h) [Num (IntN 1)]) [?t])"
    by (intro scan_prefix_correct [where nxt = 8])
      (simp_all add: row_ok_example bmap_wf_def bset_wf_def, simp add: handle_example_def)
  then show ?thesis by (simp add: handle_example_def)
qed

text \<open>
  C9: The index chosen for a lookup is the best one: it is one of the relation's indices, a
  time-travel query may use it, it starts with at least one joined column, no usable index starts
  with more joined columns, and the extra join is requested exactly when it lacks a needed column.
\<close>

theorem choose_index_best:
  assumes "choose_index h arg_uses validity_query = Some (Some (ix, mapper, need_join))"
  shows "\<exists>l > 0. (ix, mapper) \<in> snd ` set (indices h) \<and> index_eligible (n_keys h) validity_query mapper \<and>
    join_prefix_len arg_uses mapper = Some l \<and>
    prefixes_within (n_keys h) arg_uses validity_query l (map snd (indices h)) \<and>
    (need_join \<longleftrightarrow> (\<exists>i < length arg_uses. arg_uses ! i \<noteq> Ignored \<and> i \<notin> set mapper))"
proof -
  have "choose_loop (n_keys h) arg_uses validity_query
      (filter (\<lambda>i. arg_uses ! i \<noteq> Ignored) [0..<length arg_uses]) 0 None (map snd (indices h))
    = Some (Some (ix, mapper, need_join))"
    using assms by (auto simp: choose_index_def split: if_splits list.splits)
  from choose_loop_best [OF this] show ?thesis by (auto simp: list_ex_iff)
qed

theorem choose_index_best_witness:
  "\<exists>l > 0. (handle_example, [1, 0]) \<in> snd ` set [([105], handle_example, [1, 0])] \<and>
     join_prefix_len [BindForLater, Join] [1, 0] = Some l"
proof -
  let ?h = "RelationHandle [114] 7
     \<lparr>keys = [\<lparr>col_name = [97], typing = Nullable TInt False, default_gen = None\<rparr>,
              \<lparr>col_name = [98], typing = Nullable TInt False, default_gen = None\<rparr>], non_keys = []\<rparr>
     [] [] [] Normal False [([105], handle_example, [1, 0])] [] [] []"
  have "choose_index ?h [BindForLater, Join] False = Some (Some (handle_example, [1, 0], False))"
    by (simp add: choose_index_def upt_rec)
  from choose_index_best [OF this] show ?thesis by auto
qed

end
