(* ===== verification/Aggr.thy ===== *)
theory Aggr
  imports Memcmp
begin

unbundle bit_operations_syntax

text \<open>
  \<open>retia-core/src/data/aggr.rs\<close>: the aggregations. A normal aggregation is an accumulator with
  \<open>set\<close> and \<open>get\<close>; a meet aggregation merges a value into another in place and reports whether it
  changed. Trait objects are the datatypes \<open>normal_aggr\<close> (with the accumulator's fields) and
  \<open>meet_aggr\<close>. Error messages are kept as the name of the aggregation in the message; an in-place
  update that fails has no result, since every caller drops the store it failed on. Counters wrap.
  The random number of \<open>choice_rand\<close> (crate rand) is an argument. \<open>BTreeSet::intersection\<close> takes the
  elements of the first set.
\<close>

section \<open>Errors and sets\<close>

datatype aggr_error =
    CannotCompute string "data_value list"
  | NonNumerical string
  | RequiresPair string
  | LengthsDiffer string bytes bytes
  | BadCollectArg data_value
  | CollectNotPositive i64

definition bset_intersection :: "('a \<Rightarrow> 'a \<Rightarrow> ordering) \<Rightarrow> 'a list \<Rightarrow> 'a list \<Rightarrow> 'a list" where
  "bset_intersection cmp xs ys = filter (\<lambda>x. bset_contains cmp x ys) xs"

text \<open>\<open>inserted |= l.insert(v)\<close> for every \<open>v\<close>: the new set and whether anything was new.\<close>

fun bset_insert_all ::
  "('a \<Rightarrow> 'a \<Rightarrow> ordering) \<Rightarrow> 'a list \<Rightarrow> bool \<Rightarrow> 'a list \<Rightarrow> 'a list \<times> bool" where
  "bset_insert_all cmp l inserted [] = (l, inserted)"
| "bset_insert_all cmp l inserted (v # s) =
     bset_insert_all cmp (bset_insert cmp v l) (inserted \<or> \<not> bset_contains cmp v l) s"

section \<open>Normal aggregations\<close>

definition aggr_and_set :: "bool \<Rightarrow> data_value \<Rightarrow> aggr_error + bool" where
  "aggr_and_set accum v =
     (case v of Bool b \<Rightarrow> Inr (accum \<and> b) | _ \<Rightarrow> Inl (CannotCompute ''and'' [v]))"

definition aggr_and_get :: "bool \<Rightarrow> data_value" where
  "aggr_and_get accum = Bool accum"

definition aggr_or_set :: "bool \<Rightarrow> data_value \<Rightarrow> aggr_error + bool" where
  "aggr_or_set accum v =
     (case v of Bool b \<Rightarrow> Inr (accum \<or> b) | _ \<Rightarrow> Inl (CannotCompute ''or'' [v]))"

definition aggr_or_get :: "bool \<Rightarrow> data_value" where
  "aggr_or_get accum = Bool accum"

definition aggr_unique_set :: "ext \<Rightarrow> data_value list \<Rightarrow> data_value \<Rightarrow> data_value list" where
  "aggr_unique_set E accum v = bset_insert (cmp_value E) v accum"

definition aggr_unique_get :: "data_value list \<Rightarrow> data_value" where
  "aggr_unique_get accum = List accum"

definition aggr_group_count_set ::
  "ext \<Rightarrow> (data_value, i64) btree \<Rightarrow> data_value \<Rightarrow> (data_value, i64) btree" where
  "aggr_group_count_set E accum v =
     (let entry = (case bmap_get (cmp_value E) accum v of None \<Rightarrow> 0 | Some n \<Rightarrow> n)
      in bmap_insert (cmp_value E) v (entry + 1) accum)"

definition aggr_group_count_get :: "(data_value, i64) btree \<Rightarrow> data_value" where
  "aggr_group_count_get accum = List (map (\<lambda>(k, v). List [k, Num (IntN v)]) accum)"

definition aggr_count_unique_set ::
  "ext \<Rightarrow> i64 \<times> data_value list \<Rightarrow> data_value \<Rightarrow> i64 \<times> data_value list" where
  "aggr_count_unique_set E st v =
     (case st of (count, accum) \<Rightarrow>
        if \<not> bset_contains (cmp_value E) v accum
        then (count + 1, bset_insert (cmp_value E) v accum) else (count, accum))"

definition aggr_count_unique_get :: "i64 \<times> data_value list \<Rightarrow> data_value" where
  "aggr_count_unique_get st = Num (IntN (fst st))"

definition aggr_union_set :: "ext \<Rightarrow> data_value list \<Rightarrow> data_value \<Rightarrow> aggr_error + data_value list" where
  "aggr_union_set E accum v =
     (case v of
        List l \<Rightarrow> Inr (bset_extend (cmp_value E) accum l)
      | _ \<Rightarrow> Inl (CannotCompute ''union'' [v]))"

definition aggr_union_get :: "data_value list \<Rightarrow> data_value" where
  "aggr_union_get accum = List accum"

definition aggr_intersection_set ::
  "ext \<Rightarrow> data_value list option \<Rightarrow> data_value \<Rightarrow> aggr_error + data_value list option" where
  "aggr_intersection_set E accum v =
     (case v of
        List l \<Rightarrow>
          (case accum of
             Some acc \<Rightarrow> Inr (Some (bset_intersection (cmp_value E) acc (bset_from_iter (cmp_value E) l)))
           | None \<Rightarrow> Inr (Some (bset_from_iter (cmp_value E) l)))
      | _ \<Rightarrow> Inl (CannotCompute ''intersection'' [v]))"

definition aggr_intersection_get :: "data_value list option \<Rightarrow> data_value" where
  "aggr_intersection_get accum = (case accum of None \<Rightarrow> List [] | Some l \<Rightarrow> List l)"

definition aggr_collect_set :: "nat option \<Rightarrow> data_value list \<Rightarrow> data_value \<Rightarrow> data_value list" where
  "aggr_collect_set limit accum v =
     (case limit of
        Some n \<Rightarrow> if n \<le> length accum then accum else accum @ [v]
      | None \<Rightarrow> accum @ [v])"

definition aggr_collect_get :: "data_value list \<Rightarrow> data_value" where
  "aggr_collect_get accum = List accum"

definition u64_as_f64 :: "u64 \<Rightarrow> f64" where
  "u64_as_f64 n = f64_of_dyadic False (unat n) 0"

definition f64_one :: f64 where
  "f64_one = 0x3FF0000000000000"

definition aggr_choice_rand_set :: "f64 \<Rightarrow> u64 \<times> data_value \<Rightarrow> data_value \<Rightarrow> u64 \<times> data_value" where
  "aggr_choice_rand_set rd st v =
     (let count = fst st + 1;
          prob = f64_div f64_one (u64_as_f64 count)
      in (count, if f64_lt rd prob then v else snd st))"

definition aggr_choice_rand_get :: "u64 \<times> data_value \<Rightarrow> data_value" where
  "aggr_choice_rand_get st = snd st"

definition aggr_count_set :: "i64 \<Rightarrow> data_value \<Rightarrow> i64" where
  "aggr_count_set count v = count + 1"

definition aggr_count_get :: "i64 \<Rightarrow> data_value" where
  "aggr_count_get count = Num (IntN count)"

definition aggr_variance_set :: "i64 \<times> f64 \<times> f64 \<Rightarrow> data_value \<Rightarrow> aggr_error + i64 \<times> f64 \<times> f64" where
  "aggr_variance_set st v =
     (case (st, v) of
        ((count, ssum, sum_sq), Num n) \<Rightarrow>
          (let f = num_get_float n in Inr (count + 1, f64_add ssum f, f64_add sum_sq (f64_mul f f)))
      | _ \<Rightarrow> Inl (CannotCompute ''variance'' [v]))"

definition aggr_variance_get :: "i64 \<times> f64 \<times> f64 \<Rightarrow> data_value" where
  "aggr_variance_get st =
     (case st of (count, ssum, sum_sq) \<Rightarrow>
        let ct = i64_as_f64 count
        in Num (FloatN (f64_div (f64_sub sum_sq (f64_div (f64_mul ssum ssum) ct)) (f64_sub ct f64_one))))"

definition aggr_std_dev_set :: "i64 \<times> f64 \<times> f64 \<Rightarrow> data_value \<Rightarrow> aggr_error + i64 \<times> f64 \<times> f64" where
  "aggr_std_dev_set st v =
     (case (st, v) of
        ((count, ssum, sum_sq), Num n) \<Rightarrow>
          (let f = num_get_float n in Inr (count + 1, f64_add ssum f, f64_add sum_sq (f64_mul f f)))
      | _ \<Rightarrow> Inl (CannotCompute ''std_dev'' [v]))"

definition aggr_std_dev_get :: "i64 \<times> f64 \<times> f64 \<Rightarrow> data_value" where
  "aggr_std_dev_get st =
     (case st of (count, ssum, sum_sq) \<Rightarrow>
        let ct = i64_as_f64 count;
            var = f64_div (f64_sub sum_sq (f64_div (f64_mul ssum ssum) ct)) (f64_sub ct f64_one)
        in Num (FloatN (f64_sqrt var)))"

definition aggr_mean_set :: "i64 \<times> f64 \<Rightarrow> data_value \<Rightarrow> aggr_error + i64 \<times> f64" where
  "aggr_mean_set st v =
     (case (st, v) of
        ((count, ssum), Num n) \<Rightarrow> Inr (count + 1, f64_add ssum (num_get_float n))
      | _ \<Rightarrow> Inl (CannotCompute ''mean'' [v]))"

definition aggr_mean_get :: "i64 \<times> f64 \<Rightarrow> data_value" where
  "aggr_mean_get st = (case st of (count, ssum) \<Rightarrow> Num (FloatN (f64_div ssum (i64_as_f64 count))))"

definition aggr_sum_set :: "f64 \<Rightarrow> data_value \<Rightarrow> aggr_error + f64" where
  "aggr_sum_set ssum v =
     (case v of Num n \<Rightarrow> Inr (f64_add ssum (num_get_float n)) | _ \<Rightarrow> Inl (CannotCompute ''sum'' [v]))"

definition aggr_sum_get :: "f64 \<Rightarrow> data_value" where
  "aggr_sum_get ssum = Num (FloatN ssum)"

definition aggr_product_set :: "f64 \<Rightarrow> data_value \<Rightarrow> aggr_error + f64" where
  "aggr_product_set prod_acc v =
     (case v of
        Num n \<Rightarrow> Inr (f64_mul prod_acc (num_get_float n))
      | _ \<Rightarrow> Inl (CannotCompute ''product'' [v]))"

definition aggr_product_get :: "f64 \<Rightarrow> data_value" where
  "aggr_product_get prod_acc = Num (FloatN prod_acc)"

definition aggr_min_set :: "data_value \<Rightarrow> data_value \<Rightarrow> aggr_error + data_value" where
  "aggr_min_set found v =
     (if v = Null then Inr found
      else if found = Null then Inr v
      else and_then (ok_or (get_float found) (NonNumerical ''min'')) (\<lambda>f1.
           and_then (ok_or (get_float v) (NonNumerical ''min'')) (\<lambda>f2.
           Inr (if f64_lt f2 f1 then v else found))))"

definition aggr_min_get :: "data_value \<Rightarrow> data_value" where
  "aggr_min_get found = found"

definition aggr_max_set :: "data_value \<Rightarrow> data_value \<Rightarrow> aggr_error + data_value" where
  "aggr_max_set found v =
     (if v = Null then Inr found
      else if found = Null then Inr v
      else and_then (ok_or (get_float found) (NonNumerical ''min'')) (\<lambda>f1.
           and_then (ok_or (get_float v) (NonNumerical ''min'')) (\<lambda>f2.
           Inr (if f64_lt f1 f2 then v else found))))"

definition aggr_max_get :: "data_value \<Rightarrow> data_value" where
  "aggr_max_get found = found"

definition aggr_latest_by_set ::
  "ext \<Rightarrow> data_value \<times> data_value \<Rightarrow> data_value \<Rightarrow> aggr_error + data_value \<times> data_value" where
  "aggr_latest_by_set E st v =
     (case (st, v) of
        ((found, cost), List l) \<Rightarrow>
          (case l of
             [x, c] \<Rightarrow> Inr (if cmp_value E c cost = Greater then (x, c) else (found, cost))
           | _ \<Rightarrow> Inl (RequiresPair ''latest_by''))
      | _ \<Rightarrow> Inl (CannotCompute ''latest_by'' [v]))"

definition aggr_latest_by_get :: "data_value \<times> data_value \<Rightarrow> data_value" where
  "aggr_latest_by_get st = fst st"

definition aggr_smallest_by_set ::
  "ext \<Rightarrow> data_value \<times> data_value \<Rightarrow> data_value \<Rightarrow> aggr_error + data_value \<times> data_value" where
  "aggr_smallest_by_set E st v =
     (case (st, v) of
        ((found, cost), List l) \<Rightarrow>
          (case l of
             [x, c] \<Rightarrow> Inr (if cost = Null \<or> cmp_value E c cost = Less then (x, c) else (found, cost))
           | _ \<Rightarrow> Inl (RequiresPair ''smallest_by''))
      | _ \<Rightarrow> Inl (CannotCompute ''smallest_by'' [v]))"

definition aggr_smallest_by_get :: "data_value \<times> data_value \<Rightarrow> data_value" where
  "aggr_smallest_by_get st = fst st"

definition aggr_min_cost_set :: "data_value \<times> f64 \<Rightarrow> data_value \<Rightarrow> aggr_error + data_value \<times> f64" where
  "aggr_min_cost_set st v =
     (case (st, v) of
        ((found, cost), List l) \<Rightarrow>
          (case l of
             [x, c] \<Rightarrow>
               and_then (ok_or (get_float c) (NonNumerical ''min_cost'')) (\<lambda>cost'.
               Inr (if f64_lt cost' cost then (x, cost') else (found, cost)))
           | _ \<Rightarrow> Inl (RequiresPair ''min_cost''))
      | _ \<Rightarrow> Inl (CannotCompute ''min_cost'' [v]))"

definition aggr_min_cost_get :: "data_value \<times> f64 \<Rightarrow> data_value" where
  "aggr_min_cost_get st = (case st of (found, cost) \<Rightarrow> List [found, Num (FloatN cost)])"

definition aggr_shortest_set ::
  "data_value list option \<Rightarrow> data_value \<Rightarrow> aggr_error + data_value list option" where
  "aggr_shortest_set found v =
     (case v of
        List l \<Rightarrow>
          (case found of
             None \<Rightarrow> Inr (Some l)
           | Some old \<Rightarrow> Inr (Some (if length l < length old then l else old)))
      | _ \<Rightarrow> Inl (CannotCompute ''shortest'' [v]))"

definition aggr_shortest_get :: "data_value list option \<Rightarrow> data_value" where
  "aggr_shortest_get found = (case found of None \<Rightarrow> Null | Some l \<Rightarrow> List l)"

definition aggr_choice_set :: "data_value \<Rightarrow> data_value \<Rightarrow> data_value" where
  "aggr_choice_set found v = (if found = Null then v else found)"

definition aggr_choice_get :: "data_value \<Rightarrow> data_value" where
  "aggr_choice_get found = found"

text \<open>The three bit aggregations of byte strings have the same \<open>set\<close> up to the operation.\<close>

definition aggr_bit_set ::
  "string \<Rightarrow> (u8 \<Rightarrow> u8 \<Rightarrow> u8) \<Rightarrow> bytes \<Rightarrow> data_value \<Rightarrow> aggr_error + bytes" where
  "aggr_bit_set name f res v =
     (case v of
        Bytes bs \<Rightarrow>
          if res = [] then Inr bs
          else if length res = length bs then Inr (map2 f res bs)
          else Inl (LengthsDiffer name res bs)
      | _ \<Rightarrow> Inl (CannotCompute name [v]))"

definition aggr_bit_and_set :: "bytes \<Rightarrow> data_value \<Rightarrow> aggr_error + bytes" where
  "aggr_bit_and_set = aggr_bit_set ''bit_and'' (AND)"

definition aggr_bit_and_get :: "bytes \<Rightarrow> data_value" where
  "aggr_bit_and_get res = Bytes res"

definition aggr_bit_or_set :: "bytes \<Rightarrow> data_value \<Rightarrow> aggr_error + bytes" where
  "aggr_bit_or_set = aggr_bit_set ''bit_or'' (OR)"

definition aggr_bit_or_get :: "bytes \<Rightarrow> data_value" where
  "aggr_bit_or_get res = Bytes res"

definition aggr_bit_xor_set :: "bytes \<Rightarrow> data_value \<Rightarrow> aggr_error + bytes" where
  "aggr_bit_xor_set = aggr_bit_set ''bit_xor'' (XOR)"

definition aggr_bit_xor_get :: "bytes \<Rightarrow> data_value" where
  "aggr_bit_xor_get res = Bytes res"

section \<open>Trait objects\<close>

datatype normal_aggr =
    AggrAnd bool
  | AggrOr bool
  | AggrUnique "data_value list"
  | AggrGroupCount "(data_value, i64) btree"
  | AggrCountUnique "i64 \<times> data_value list"
  | AggrUnion "data_value list"
  | AggrIntersection "data_value list option"
  | AggrCollect "nat option" "data_value list"
  | AggrChoiceRand "u64 \<times> data_value"
  | AggrCount i64
  | AggrVariance "i64 \<times> f64 \<times> f64"
  | AggrStdDev "i64 \<times> f64 \<times> f64"
  | AggrMean "i64 \<times> f64"
  | AggrSum f64
  | AggrProduct f64
  | AggrMin data_value
  | AggrMax data_value
  | AggrLatestBy "data_value \<times> data_value"
  | AggrSmallestBy "data_value \<times> data_value"
  | AggrMinCost "data_value \<times> f64"
  | AggrShortest "data_value list option"
  | AggrChoice data_value
  | AggrBitAnd bytes
  | AggrBitOr bytes
  | AggrBitXor bytes

fun normal_set :: "ext \<Rightarrow> f64 \<Rightarrow> normal_aggr \<Rightarrow> data_value \<Rightarrow> aggr_error + normal_aggr" where
  "normal_set E rd (AggrAnd s) v = map_ok AggrAnd (aggr_and_set s v)"
| "normal_set E rd (AggrOr s) v = map_ok AggrOr (aggr_or_set s v)"
| "normal_set E rd (AggrUnique s) v = Inr (AggrUnique (aggr_unique_set E s v))"
| "normal_set E rd (AggrGroupCount s) v = Inr (AggrGroupCount (aggr_group_count_set E s v))"
| "normal_set E rd (AggrCountUnique s) v = Inr (AggrCountUnique (aggr_count_unique_set E s v))"
| "normal_set E rd (AggrUnion s) v = map_ok AggrUnion (aggr_union_set E s v)"
| "normal_set E rd (AggrIntersection s) v = map_ok AggrIntersection (aggr_intersection_set E s v)"
| "normal_set E rd (AggrCollect l s) v = Inr (AggrCollect l (aggr_collect_set l s v))"
| "normal_set E rd (AggrChoiceRand s) v = Inr (AggrChoiceRand (aggr_choice_rand_set rd s v))"
| "normal_set E rd (AggrCount s) v = Inr (AggrCount (aggr_count_set s v))"
| "normal_set E rd (AggrVariance s) v = map_ok AggrVariance (aggr_variance_set s v)"
| "normal_set E rd (AggrStdDev s) v = map_ok AggrStdDev (aggr_std_dev_set s v)"
| "normal_set E rd (AggrMean s) v = map_ok AggrMean (aggr_mean_set s v)"
| "normal_set E rd (AggrSum s) v = map_ok AggrSum (aggr_sum_set s v)"
| "normal_set E rd (AggrProduct s) v = map_ok AggrProduct (aggr_product_set s v)"
| "normal_set E rd (AggrMin s) v = map_ok AggrMin (aggr_min_set s v)"
| "normal_set E rd (AggrMax s) v = map_ok AggrMax (aggr_max_set s v)"
| "normal_set E rd (AggrLatestBy s) v = map_ok AggrLatestBy (aggr_latest_by_set E s v)"
| "normal_set E rd (AggrSmallestBy s) v = map_ok AggrSmallestBy (aggr_smallest_by_set E s v)"
| "normal_set E rd (AggrMinCost s) v = map_ok AggrMinCost (aggr_min_cost_set s v)"
| "normal_set E rd (AggrShortest s) v = map_ok AggrShortest (aggr_shortest_set s v)"
| "normal_set E rd (AggrChoice s) v = Inr (AggrChoice (aggr_choice_set s v))"
| "normal_set E rd (AggrBitAnd s) v = map_ok AggrBitAnd (aggr_bit_and_set s v)"
| "normal_set E rd (AggrBitOr s) v = map_ok AggrBitOr (aggr_bit_or_set s v)"
| "normal_set E rd (AggrBitXor s) v = map_ok AggrBitXor (aggr_bit_xor_set s v)"

fun normal_get :: "normal_aggr \<Rightarrow> data_value" where
  "normal_get (AggrAnd s) = aggr_and_get s"
| "normal_get (AggrOr s) = aggr_or_get s"
| "normal_get (AggrUnique s) = aggr_unique_get s"
| "normal_get (AggrGroupCount s) = aggr_group_count_get s"
| "normal_get (AggrCountUnique s) = aggr_count_unique_get s"
| "normal_get (AggrUnion s) = aggr_union_get s"
| "normal_get (AggrIntersection s) = aggr_intersection_get s"
| "normal_get (AggrCollect l s) = aggr_collect_get s"
| "normal_get (AggrChoiceRand s) = aggr_choice_rand_get s"
| "normal_get (AggrCount s) = aggr_count_get s"
| "normal_get (AggrVariance s) = aggr_variance_get s"
| "normal_get (AggrStdDev s) = aggr_std_dev_get s"
| "normal_get (AggrMean s) = aggr_mean_get s"
| "normal_get (AggrSum s) = aggr_sum_get s"
| "normal_get (AggrProduct s) = aggr_product_get s"
| "normal_get (AggrMin s) = aggr_min_get s"
| "normal_get (AggrMax s) = aggr_max_get s"
| "normal_get (AggrLatestBy s) = aggr_latest_by_get s"
| "normal_get (AggrSmallestBy s) = aggr_smallest_by_get s"
| "normal_get (AggrMinCost s) = aggr_min_cost_get s"
| "normal_get (AggrShortest s) = aggr_shortest_get s"
| "normal_get (AggrChoice s) = aggr_choice_get s"
| "normal_get (AggrBitAnd s) = aggr_bit_and_get s"
| "normal_get (AggrBitOr s) = aggr_bit_or_get s"
| "normal_get (AggrBitXor s) = aggr_bit_xor_get s"

section \<open>Meet aggregations\<close>

datatype meet_aggr =
    MeetAggrAnd | MeetAggrOr | MeetAggrMin | MeetAggrMax | MeetAggrChoice | MeetAggrBitAnd
  | MeetAggrBitOr | MeetAggrUnion | MeetAggrIntersection | MeetAggrShortest | MeetAggrMinCost

fun init_val :: "meet_aggr \<Rightarrow> data_value" where
  "init_val MeetAggrAnd = Bool True"
| "init_val MeetAggrOr = Bool False"
| "init_val MeetAggrMin = Null"
| "init_val MeetAggrMax = Null"
| "init_val MeetAggrChoice = Null"
| "init_val MeetAggrBitAnd = Bytes []"
| "init_val MeetAggrBitOr = Bytes []"
| "init_val MeetAggrUnion = Set []"
| "init_val MeetAggrIntersection = Null"
| "init_val MeetAggrShortest = Null"
| "init_val MeetAggrMinCost = List [Null, Num (FloatN (f64_infinity False))]"

type_synonym meet_result = "aggr_error + data_value \<times> bool"

definition meet_and_update :: "data_value \<Rightarrow> data_value \<Rightarrow> meet_result" where
  "meet_and_update left right =
     (case (left, right) of
        (Bool l, Bool r) \<Rightarrow> Inr (Bool (l \<and> r), l = (l \<and> r))
      | _ \<Rightarrow> Inl (CannotCompute ''and'' [left, right]))"

definition meet_or_update :: "data_value \<Rightarrow> data_value \<Rightarrow> meet_result" where
  "meet_or_update left right =
     (case (left, right) of
        (Bool l, Bool r) \<Rightarrow> Inr (Bool (l \<or> r), l = (l \<or> r))
      | _ \<Rightarrow> Inl (CannotCompute ''or'' [left, right]))"

definition meet_union_update :: "ext \<Rightarrow> data_value \<Rightarrow> data_value \<Rightarrow> meet_result" where
  "meet_union_update E left right =
     (let left = (case left of List l \<Rightarrow> Set (bset_from_iter (cmp_value E) l) | _ \<Rightarrow> left)
      in case (left, right) of
           (Set l, Set s) \<Rightarrow> Inr (map_prod Set id (bset_insert_all (cmp_value E) l False s))
         | (Set l, List s) \<Rightarrow> Inr (map_prod Set id (bset_insert_all (cmp_value E) l False s))
         | _ \<Rightarrow> Inl (CannotCompute ''union'' [right]))"

definition meet_intersection_update :: "ext \<Rightarrow> data_value \<Rightarrow> data_value \<Rightarrow> meet_result" where
  "meet_intersection_update E left right =
     (if left = Null \<and> right \<noteq> Null then Inr (right, True)
      else if right = Null then Inr (left, False)
      else
        (let left = (case left of List l \<Rightarrow> Set (bset_from_iter (cmp_value E) l) | _ \<Rightarrow> left)
         in case (left, right) of
              (Set l, Set s) \<Rightarrow>
                (let new_set = bset_intersection (cmp_value E) l s
                 in if length l = length new_set then Inr (left, False) else Inr (Set new_set, True))
            | (Set l, List s) \<Rightarrow>
                (let new_set = bset_intersection (cmp_value E) l (bset_from_iter (cmp_value E) s)
                 in if length l = length new_set then Inr (left, False) else Inr (Set new_set, True))
            | _ \<Rightarrow> Inl (CannotCompute ''union'' [right])))"

definition meet_min_update :: "data_value \<Rightarrow> data_value \<Rightarrow> meet_result" where
  "meet_min_update left right =
     (if right = Null then Inr (left, False)
      else if left = Null then Inr (right, True)
      else and_then (ok_or (get_float left) (NonNumerical ''min'')) (\<lambda>f1.
           and_then (ok_or (get_float right) (NonNumerical ''min'')) (\<lambda>f2.
           Inr (if f64_lt f2 f1 then (right, True) else (left, False)))))"

definition meet_max_update :: "data_value \<Rightarrow> data_value \<Rightarrow> meet_result" where
  "meet_max_update left right =
     (if right = Null then Inr (left, False)
      else if left = Null then Inr (right, True)
      else and_then (ok_or (get_float left) (NonNumerical ''min'')) (\<lambda>f1.
           and_then (ok_or (get_float right) (NonNumerical ''min'')) (\<lambda>f2.
           Inr (if f64_lt f1 f2 then (right, True) else (left, False)))))"

definition meet_min_cost_update :: "data_value \<Rightarrow> data_value \<Rightarrow> meet_result" where
  "meet_min_cost_update left right =
     (case (left, right) of
        (List prev, List l) \<Rightarrow>
          (case (prev, l) of
             ([_, prev_c], [_, cur_c]) \<Rightarrow>
               and_then (ok_or (get_float cur_c) (NonNumerical ''min_cost'')) (\<lambda>cur_cost.
               and_then (ok_or (get_float prev_c) (NonNumerical ''prev_cost'')) (\<lambda>prev_cost.
               Inr (if f64_le prev_cost cur_cost then (left, False) else (right, True))))
           | _ \<Rightarrow> Inl (RequiresPair ''min_cost''))
      | _ \<Rightarrow> Inl (CannotCompute ''min_cost'' [left, right]))"

definition meet_shortest_update :: "data_value \<Rightarrow> data_value \<Rightarrow> meet_result" where
  "meet_shortest_update left right =
     (if left = Null \<and> right \<noteq> Null then Inr (right, True)
      else if right = Null then Inr (left, False)
      else (case (left, right) of
              (List l, List r) \<Rightarrow> Inr (if length r < length l then (right, True) else (left, False))
            | _ \<Rightarrow> Inl (CannotCompute ''shortest'' [left, right])))"

definition meet_choice_update :: "data_value \<Rightarrow> data_value \<Rightarrow> meet_result" where
  "meet_choice_update left right =
     Inr (if left = Null \<and> right \<noteq> Null then (right, True) else (left, False))"

definition meet_bit_update :: "string \<Rightarrow> (u8 \<Rightarrow> u8 \<Rightarrow> u8) \<Rightarrow> data_value \<Rightarrow> data_value \<Rightarrow> meet_result" where
  "meet_bit_update name f left right =
     (case (left, right) of
        (Bytes l, Bytes r) \<Rightarrow>
          if l = r then Inr (left, False)
          else if l = [] then Inr (right, True)
          else if length l = length r then Inr (Bytes (map2 f l r), True)
          else Inl (LengthsDiffer name l r)
      | _ \<Rightarrow> Inl (CannotCompute name [left, right]))"

definition meet_bit_and_update :: "data_value \<Rightarrow> data_value \<Rightarrow> meet_result" where
  "meet_bit_and_update = meet_bit_update ''bit_and'' (AND)"

definition meet_bit_or_update :: "data_value \<Rightarrow> data_value \<Rightarrow> meet_result" where
  "meet_bit_or_update = meet_bit_update ''bit_or'' (OR)"

fun meet_update :: "ext \<Rightarrow> meet_aggr \<Rightarrow> data_value \<Rightarrow> data_value \<Rightarrow> meet_result" where
  "meet_update E MeetAggrAnd l r = meet_and_update l r"
| "meet_update E MeetAggrOr l r = meet_or_update l r"
| "meet_update E MeetAggrMin l r = meet_min_update l r"
| "meet_update E MeetAggrMax l r = meet_max_update l r"
| "meet_update E MeetAggrChoice l r = meet_choice_update l r"
| "meet_update E MeetAggrBitAnd l r = meet_bit_and_update l r"
| "meet_update E MeetAggrBitOr l r = meet_bit_or_update l r"
| "meet_update E MeetAggrUnion l r = meet_union_update E l r"
| "meet_update E MeetAggrIntersection l r = meet_intersection_update E l r"
| "meet_update E MeetAggrShortest l r = meet_shortest_update l r"
| "meet_update E MeetAggrMinCost l r = meet_min_cost_update l r"

section \<open>Names\<close>

datatype aggr_name =
    AGGR_AND | AGGR_OR | AGGR_UNIQUE | AGGR_GROUP_COUNT | AGGR_COUNT_UNIQUE | AGGR_UNION
  | AGGR_INTERSECTION | AGGR_COLLECT | AGGR_CHOICE_RAND | AGGR_COUNT | AGGR_VARIANCE | AGGR_STD_DEV
  | AGGR_MEAN | AGGR_SUM | AGGR_PRODUCT | AGGR_MIN | AGGR_MAX | AGGR_LATEST_BY | AGGR_SMALLEST_BY
  | AGGR_MIN_COST | AGGR_SHORTEST | AGGR_CHOICE | AGGR_BIT_AND | AGGR_BIT_OR | AGGR_BIT_XOR

definition is_meet :: "aggr_name \<Rightarrow> bool" where
  "is_meet a \<longleftrightarrow> a \<in> {AGGR_AND, AGGR_OR, AGGR_UNION, AGGR_INTERSECTION, AGGR_MIN, AGGR_MAX,
     AGGR_MIN_COST, AGGR_SHORTEST, AGGR_CHOICE, AGGR_BIT_AND, AGGR_BIT_OR}"

definition parse_aggr :: "string \<Rightarrow> aggr_name option" where
  "parse_aggr name = map_of
     [(''and'', AGGR_AND), (''or'', AGGR_OR), (''unique'', AGGR_UNIQUE), (''group_count'', AGGR_GROUP_COUNT),
      (''union'', AGGR_UNION), (''intersection'', AGGR_INTERSECTION), (''count'', AGGR_COUNT),
      (''count_unique'', AGGR_COUNT_UNIQUE), (''variance'', AGGR_VARIANCE), (''std_dev'', AGGR_STD_DEV),
      (''sum'', AGGR_SUM), (''product'', AGGR_PRODUCT), (''min'', AGGR_MIN), (''max'', AGGR_MAX),
      (''mean'', AGGR_MEAN), (''choice'', AGGR_CHOICE), (''collect'', AGGR_COLLECT),
      (''shortest'', AGGR_SHORTEST), (''min_cost'', AGGR_MIN_COST), (''bit_and'', AGGR_BIT_AND),
      (''bit_or'', AGGR_BIT_OR), (''bit_xor'', AGGR_BIT_XOR), (''latest_by'', AGGR_LATEST_BY),
      (''smallest_by'', AGGR_SMALLEST_BY), (''choice_rand'', AGGR_CHOICE_RAND)] name"

text \<open>\<open>None\<close> is the \<open>unreachable!\<close> of the code.\<close>

fun meet_init :: "aggr_name \<Rightarrow> meet_aggr option" where
  "meet_init AGGR_AND = Some MeetAggrAnd"
| "meet_init AGGR_OR = Some MeetAggrOr"
| "meet_init AGGR_MIN = Some MeetAggrMin"
| "meet_init AGGR_MAX = Some MeetAggrMax"
| "meet_init AGGR_CHOICE = Some MeetAggrChoice"
| "meet_init AGGR_BIT_AND = Some MeetAggrBitAnd"
| "meet_init AGGR_BIT_OR = Some MeetAggrBitOr"
| "meet_init AGGR_UNION = Some MeetAggrUnion"
| "meet_init AGGR_INTERSECTION = Some MeetAggrIntersection"
| "meet_init AGGR_SHORTEST = Some MeetAggrShortest"
| "meet_init AGGR_MIN_COST = Some MeetAggrMinCost"
| "meet_init _ = None"

fun normal_init :: "aggr_name \<Rightarrow> data_value list \<Rightarrow> aggr_error + normal_aggr" where
  "normal_init AGGR_AND args = Inr (AggrAnd True)"
| "normal_init AGGR_OR args = Inr (AggrOr False)"
| "normal_init AGGR_COUNT args = Inr (AggrCount 0)"
| "normal_init AGGR_GROUP_COUNT args = Inr (AggrGroupCount [])"
| "normal_init AGGR_COUNT_UNIQUE args = Inr (AggrCountUnique (0, []))"
| "normal_init AGGR_SUM args = Inr (AggrSum (f64_zero False))"
| "normal_init AGGR_PRODUCT args = Inr (AggrProduct f64_one)"
| "normal_init AGGR_MIN args = Inr (AggrMin Null)"
| "normal_init AGGR_MAX args = Inr (AggrMax Null)"
| "normal_init AGGR_MEAN args = Inr (AggrMean (0, f64_zero False))"
| "normal_init AGGR_VARIANCE args = Inr (AggrVariance (0, f64_zero False, f64_zero False))"
| "normal_init AGGR_STD_DEV args = Inr (AggrStdDev (0, f64_zero False, f64_zero False))"
| "normal_init AGGR_CHOICE args = Inr (AggrChoice Null)"
| "normal_init AGGR_BIT_AND args = Inr (AggrBitAnd [])"
| "normal_init AGGR_BIT_OR args = Inr (AggrBitOr [])"
| "normal_init AGGR_BIT_XOR args = Inr (AggrBitXor [])"
| "normal_init AGGR_UNIQUE args = Inr (AggrUnique [])"
| "normal_init AGGR_UNION args = Inr (AggrUnion [])"
| "normal_init AGGR_INTERSECTION args = Inr (AggrIntersection None)"
| "normal_init AGGR_SHORTEST args = Inr (AggrShortest None)"
| "normal_init AGGR_MIN_COST args = Inr (AggrMinCost (Null, f64_infinity False))"
| "normal_init AGGR_LATEST_BY args = Inr (AggrLatestBy (Null, Null))"
| "normal_init AGGR_SMALLEST_BY args = Inr (AggrSmallestBy (Null, Null))"
| "normal_init AGGR_CHOICE_RAND args = Inr (AggrChoiceRand (0, Null))"
| "normal_init AGGR_COLLECT args =
     (case args of
        [] \<Rightarrow> Inr (AggrCollect None [])
      | arg # _ \<Rightarrow>
          (case get_int arg of
             None \<Rightarrow> Inl (BadCollectArg arg)
           | Some n \<Rightarrow> if 0 < sint n then Inr (AggrCollect (Some (unat n)) []) else Inl (CollectNotPositive n)))"

section \<open>Sets under the order of values\<close>

context total_cmp
begin

lemma bset_contains_simps [simp]:
  "\<not> bset_contains cmp z []"
  "bset_contains cmp z (x # xs) \<longleftrightarrow> cmp z x = Equal \<or> bset_contains cmp z xs"
  by (simp_all add: bset_contains_def)

lemma bset_contains_cong: "cmp z x = Equal \<Longrightarrow> bset_contains cmp z xs \<longleftrightarrow> bset_contains cmp x xs"
  using cmp_eq_left [of z x] by (simp add: bset_contains_def)

lemma bset_contains_extend:
  "bset_contains cmp z (bset_extend cmp l s) \<longleftrightarrow> bset_contains cmp z l \<or> bset_contains cmp z s"
  by (induction s arbitrary: l) (auto simp: bset_extend_def bset_contains_insert)

lemma bset_wf_extend: "bset_wf cmp l \<Longrightarrow> bset_wf cmp (bset_extend cmp l s)"
  by (induction s arbitrary: l) (auto simp: bset_extend_def bset_wf_insert)

lemma bset_contains_from_iter: "bset_contains cmp z (bset_from_iter cmp s) \<longleftrightarrow> bset_contains cmp z s"
  by (simp add: bset_from_iter_def bset_contains_extend)

lemma bset_wf_from_iter: "bset_wf cmp (bset_from_iter cmp s)"
  by (simp add: bset_from_iter_def bset_wf_extend)

lemma bset_insert_all_eq:
  "bset_insert_all cmp l b s = (bset_extend cmp l s, b \<or> (\<exists>v \<in> set s. \<not> bset_contains cmp v l))"
proof (induction s arbitrary: l b)
  case (Cons v s)
  have "(\<exists>w \<in> set s. \<not> bset_contains cmp w (bset_insert cmp v l)) \<or> \<not> bset_contains cmp v l \<longleftrightarrow>
    (\<exists>w \<in> set (v # s). \<not> bset_contains cmp w l)"
    using bset_contains_cong [of _ v l] by (auto simp: bset_contains_insert)
  with Cons show ?case by (auto simp: bset_extend_def)
qed (simp add: bset_extend_def)

lemma bset_contains_intersection:
  "bset_contains cmp z (bset_intersection cmp l s) \<longleftrightarrow> bset_contains cmp z l \<and> bset_contains cmp z s"
  using bset_contains_cong [of z _ s]
  by (auto simp: bset_intersection_def bset_contains_def list_ex_iff)

lemma bset_wf_intersection: "bset_wf cmp l \<Longrightarrow> bset_wf cmp (bset_intersection cmp l s)"
  by (simp add: bset_wf_def bset_intersection_def sorted_wrt_filter)

lemma bset_contains_self: "x \<in> set l \<Longrightarrow> bset_contains cmp x l"
  using cmp_refl by (auto simp: bset_contains_def list_ex_iff)

end

lemma length_intersection:
  "length l = length (bset_intersection cmp l s) \<longleftrightarrow> (\<forall>x \<in> set l. bset_contains cmp x s)"
  unfolding bset_intersection_def
  by (metis filter_True filter_id_conv length_filter_less order_less_irrefl)

section \<open>The abstract meaning of a meet aggregation\<close>

text \<open>
  A meet aggregation merges values as a semilattice merges what the values stand for: a truth value,
  a number to minimise or maximise (nothing for null), a set, or a byte string. \<open>meet_ok\<close> are the
  values an aggregation is meant for (byte strings of a common length \<open>n\<close>), \<open>meet_abs\<close> what they
  stand for, and \<open>abs_join\<close> the operation they are merged with.
\<close>

datatype abs_value = AbsBool bool | AbsNum "int option" | AbsSet "data_value set option" | AbsBytes bytes

definition value_set :: "ext \<Rightarrow> data_value list \<Rightarrow> data_value set" where
  "value_set E l = {z. bset_contains (cmp_value E) z l}"

definition num_key_of :: "data_value \<Rightarrow> int option" where
  "num_key_of v = map_option f64_ieee_key (get_float v)"

fun meet_abs :: "ext \<Rightarrow> meet_aggr \<Rightarrow> data_value \<Rightarrow> abs_value" where
  "meet_abs E MeetAggrAnd v = AbsBool (v = Bool True)"
| "meet_abs E MeetAggrOr v = AbsBool (v = Bool True)"
| "meet_abs E MeetAggrMin v = AbsNum (num_key_of v)"
| "meet_abs E MeetAggrMax v = AbsNum (num_key_of v)"
| "meet_abs E MeetAggrChoice v = AbsBool (v \<noteq> Null)"
| "meet_abs E MeetAggrBitAnd v = AbsBytes (case v of Bytes b \<Rightarrow> b | _ \<Rightarrow> [])"
| "meet_abs E MeetAggrBitOr v = AbsBytes (case v of Bytes b \<Rightarrow> b | _ \<Rightarrow> [])"
| "meet_abs E MeetAggrUnion v =
     AbsSet (case v of List l \<Rightarrow> Some (value_set E l) | Set l \<Rightarrow> Some (value_set E l) | _ \<Rightarrow> None)"
| "meet_abs E MeetAggrIntersection v =
     AbsSet (case v of List l \<Rightarrow> Some (value_set E l) | Set l \<Rightarrow> Some (value_set E l) | _ \<Rightarrow> None)"
| "meet_abs E MeetAggrShortest v = AbsNum (case v of List l \<Rightarrow> Some (int (length l)) | _ \<Rightarrow> None)"
| "meet_abs E MeetAggrMinCost v = AbsNum (case v of List [_, c] \<Rightarrow> num_key_of c | _ \<Rightarrow> None)"

fun combine_option :: "('a \<Rightarrow> 'a \<Rightarrow> 'a) \<Rightarrow> 'a option \<Rightarrow> 'a option \<Rightarrow> 'a option" where
  "combine_option f None y = y"
| "combine_option f x None = x"
| "combine_option f (Some x) (Some y) = Some (f x y)"

definition combine_bytes :: "(u8 \<Rightarrow> u8 \<Rightarrow> u8) \<Rightarrow> bytes \<Rightarrow> bytes \<Rightarrow> bytes" where
  "combine_bytes f x y = (if x = [] then y else if y = [] then x else map2 f x y)"

definition bool_op :: "meet_aggr \<Rightarrow> bool \<Rightarrow> bool \<Rightarrow> bool" where
  "bool_op op = (if op = MeetAggrAnd then (\<and>) else (\<or>))"

definition num_op :: "meet_aggr \<Rightarrow> int \<Rightarrow> int \<Rightarrow> int" where
  "num_op op = (if op = MeetAggrMax then max else min)"

definition set_op :: "meet_aggr \<Rightarrow> 'a set \<Rightarrow> 'a set \<Rightarrow> 'a set" where
  "set_op op = (if op = MeetAggrUnion then (\<union>) else (\<inter>))"

definition byte_op :: "meet_aggr \<Rightarrow> u8 \<Rightarrow> u8 \<Rightarrow> u8" where
  "byte_op op = (if op = MeetAggrBitAnd then (AND) else (OR))"

fun abs_join :: "meet_aggr \<Rightarrow> abs_value \<Rightarrow> abs_value \<Rightarrow> abs_value" where
  "abs_join op (AbsBool x) (AbsBool y) = AbsBool (bool_op op x y)"
| "abs_join op (AbsNum x) (AbsNum y) = AbsNum (combine_option (num_op op) x y)"
| "abs_join op (AbsSet x) (AbsSet y) = AbsSet (combine_option (set_op op) x y)"
| "abs_join op (AbsBytes x) (AbsBytes y) = AbsBytes (combine_bytes (byte_op op) x y)"
| "abs_join op x y = x"

definition num_ok :: "data_value \<Rightarrow> bool" where
  "num_ok v \<longleftrightarrow> (\<exists>f. get_float v = Some f \<and> \<not> f64_is_nan f)"

definition set_ok :: "ext \<Rightarrow> data_value \<Rightarrow> bool" where
  "set_ok E v \<longleftrightarrow> ext_ord E \<and> (case v of List l \<Rightarrow> True | Set l \<Rightarrow> bset_wf (cmp_value E) l | _ \<Rightarrow> False)"

definition bytes_ok :: "nat \<Rightarrow> data_value \<Rightarrow> bool" where
  "bytes_ok n v \<longleftrightarrow> (case v of Bytes b \<Rightarrow> length b = n | _ \<Rightarrow> False)"

fun meet_ok :: "ext \<Rightarrow> nat \<Rightarrow> meet_aggr \<Rightarrow> data_value \<Rightarrow> bool" where
  "meet_ok E n MeetAggrAnd v = (\<exists>b. v = Bool b)"
| "meet_ok E n MeetAggrOr v = (\<exists>b. v = Bool b)"
| "meet_ok E n MeetAggrMin v = (v = Null \<or> num_ok v)"
| "meet_ok E n MeetAggrMax v = (v = Null \<or> num_ok v)"
| "meet_ok E n MeetAggrChoice v = True"
| "meet_ok E n MeetAggrBitAnd v = bytes_ok n v"
| "meet_ok E n MeetAggrBitOr v = bytes_ok n v"
| "meet_ok E n MeetAggrUnion v = set_ok E v"
| "meet_ok E n MeetAggrIntersection v = (v = Null \<or> set_ok E v)"
| "meet_ok E n MeetAggrShortest v = (v = Null \<or> (\<exists>l. v = List l))"
| "meet_ok E n MeetAggrMinCost v = (\<exists>x c. v = List [x, c] \<and> num_ok c)"

section \<open>The contract of a meet aggregation\<close>

text \<open>
  What semi-naive evaluation needs of a merge: on the intended values it succeeds, stays among them
  and computes a commutative, associative and idempotent operation on what they stand for. Then
  merging a collection of values gives the same whatever the order and the repetitions.
\<close>

locale meet_semilattice =
  fixes ok :: "'v \<Rightarrow> bool" and abs :: "'v \<Rightarrow> 'a" and join :: "'a \<Rightarrow> 'a \<Rightarrow> 'a"
    and update :: "'v \<Rightarrow> 'v \<Rightarrow> 'e + 'v \<times> bool"
  assumes update_refines:
      "ok l \<Longrightarrow> ok r \<Longrightarrow> \<exists>v c. update l r = Inr (v, c) \<and> ok v \<and> abs v = join (abs l) (abs r)"
    and join_comm: "ok x \<Longrightarrow> ok y \<Longrightarrow> join (abs x) (abs y) = join (abs y) (abs x)"
    and join_assoc: "ok x \<Longrightarrow> ok y \<Longrightarrow> ok z \<Longrightarrow>
      join (join (abs x) (abs y)) (abs z) = join (abs x) (join (abs y) (abs z))"
    and join_idem: "ok x \<Longrightarrow> join (abs x) (abs x) = abs x"
begin

lemma fold_lub:
  assumes "ok v" and "list_all ok vs"
  shows "\<exists>w. try_fold (\<lambda>l r. map_ok fst (update l r)) v vs = Inr w \<and> ok w \<and>
    (\<forall>x \<in> set (v # vs). join (abs x) (abs w) = abs w) \<and>
    (\<forall>u. ok u \<longrightarrow> (\<forall>x \<in> set (v # vs). join (abs x) (abs u) = abs u) \<longrightarrow> join (abs w) (abs u) = abs u)"
  using assms
proof (induction vs arbitrary: v)
  case Nil
  then show ?case by (simp add: join_idem)
next
  case (Cons r vs)
  then have r: "ok r" by simp
  obtain v' c where v': "update v r = Inr (v', c)" "ok v'" "abs v' = join (abs v) (abs r)"
    using update_refines [OF Cons.prems(1) r] by blast
  obtain w where w: "try_fold (\<lambda>l r. map_ok fst (update l r)) v' vs = Inr w" "ok w"
    and ub: "\<forall>x \<in> set (v' # vs). join (abs x) (abs w) = abs w"
    and lub: "\<And>u. ok u \<Longrightarrow> \<forall>x \<in> set (v' # vs). join (abs x) (abs u) = abs u \<Longrightarrow> join (abs w) (abs u) = abs u"
    using Cons.IH [OF v'(2)] Cons.prems(2) by auto
  have vw: "join (abs v') (abs w) = abs w" using ub by simp
  have "join (abs v) (abs v') = abs v'"
    using join_assoc [OF Cons.prems(1) Cons.prems(1) r] join_idem [OF Cons.prems(1)] v'(3) by simp
  then have ub_v: "join (abs v) (abs w) = abs w"
    using join_assoc [OF Cons.prems(1) v'(2) w(2)] vw by simp
  have "join (abs r) (abs v') = abs v'"
    using join_assoc [OF Cons.prems(1) r r] join_comm [OF r v'(2)] join_idem [OF r] v'(3) by simp
  then have ub_r: "join (abs r) (abs w) = abs w"
    using join_assoc [OF r v'(2) w(2)] vw by simp
  have least: "join (abs w) (abs u) = abs u"
    if "ok u" "\<forall>x \<in> set (v # r # vs). join (abs x) (abs u) = abs u" for u
  proof (rule lub [OF that(1)])
    have "join (abs v') (abs u) = abs u"
      using join_assoc [OF Cons.prems(1) r that(1)] v'(3) that(2) by simp
    with that(2) show "\<forall>x \<in> set (v' # vs). join (abs x) (abs u) = abs u" by simp
  qed
  show ?case
    using w ub ub_v ub_r least v'(1) by (intro exI [of _ w]) auto
qed

lemma fold_order_independent:
  assumes "list_all ok (v # vs)" and "set (v # vs) = set (u # us)"
  shows "\<exists>w w'. try_fold (\<lambda>l r. map_ok fst (update l r)) v vs = Inr w \<and>
    try_fold (\<lambda>l r. map_ok fst (update l r)) u us = Inr w' \<and> ok w \<and> ok w' \<and> abs w = abs w'"
proof -
  have ok: "ok v" "list_all ok vs" "ok u" "list_all ok us"
    using assms unfolding list_all_iff by auto
  obtain w where w: "try_fold (\<lambda>l r. map_ok fst (update l r)) v vs = Inr w" "ok w"
    and w_ub: "\<forall>x \<in> set (v # vs). join (abs x) (abs w) = abs w"
    and w_lub: "\<And>z. ok z \<Longrightarrow> \<forall>x \<in> set (v # vs). join (abs x) (abs z) = abs z \<Longrightarrow> join (abs w) (abs z) = abs z"
    using fold_lub [OF ok(1,2)] by blast
  obtain w' where w': "try_fold (\<lambda>l r. map_ok fst (update l r)) u us = Inr w'" "ok w'"
    and w'_ub: "\<forall>x \<in> set (u # us). join (abs x) (abs w') = abs w'"
    and w'_lub: "\<And>z. ok z \<Longrightarrow> \<forall>x \<in> set (u # us). join (abs x) (abs z) = abs z \<Longrightarrow> join (abs w') (abs z) = abs z"
    using fold_lub [OF ok(3,4)] by blast
  have "join (abs w) (abs w') = abs w'"
    by (rule w_lub [OF w'(2)]) (use w'_ub in \<open>simp only: assms(2)\<close>)
  moreover have "join (abs w') (abs w) = abs w"
    by (rule w'_lub [OF w(2)]) (use w_ub in \<open>simp only: assms(2)\<close>)
  ultimately have "abs w = abs w'" using join_comm [OF w(2) w'(2)] by simp
  with w w' show ?thesis by blast
qed

lemma fold_fold:
  assumes "ok v" and "list_all ok vs"
  shows "\<exists>w. try_fold (\<lambda>l r. map_ok fst (update l r)) v vs = Inr w \<and> ok w \<and>
    abs w = fold (\<lambda>r a. join a (abs r)) vs (abs v)"
  using assms
proof (induction vs arbitrary: v)
  case (Cons r vs)
  then obtain v' c where "update v r = Inr (v', c)" "ok v'" "abs v' = join (abs v) (abs r)"
    using update_refines [of v r] by auto
  with Cons.IH [of v'] Cons.prems show ?case by auto
qed simp

end

section \<open>The merges meet the contract\<close>

lemma combine_option_None [simp]: "combine_option f x None = x"
  by (cases x) simp_all

lemma combine_option_laws:
  "(\<And>x y. f x y = f y x) \<Longrightarrow> combine_option f a b = combine_option f b a"
  "(\<And>x y z. f (f x y) z = f x (f y z)) \<Longrightarrow>
     combine_option f (combine_option f a b) c = combine_option f a (combine_option f b c)"
  "(\<And>x. f x x = x) \<Longrightarrow> combine_option f a a = a"
  by (cases a; cases b; cases c; simp)+

lemma map2_laws:
  "(\<And>x y. f x y = f y x) \<Longrightarrow> map2 f a b = map2 f b a"
  "(\<And>x y z. f (f x y) z = f x (f y z)) \<Longrightarrow> map2 f (map2 f a b) c = map2 f a (map2 f b c)"
  "(\<And>x. f x x = x) \<Longrightarrow> map2 f a a = a"
  by (auto simp: list_eq_iff_nth_eq)

lemma combine_bytes_laws:
  "(\<And>x y. f x y = f y x) \<Longrightarrow> combine_bytes f a b = combine_bytes f b a"
  "(\<And>x. f x x = x) \<Longrightarrow> combine_bytes f a a = a"
  using map2_laws(1) [of f a b] map2_laws(3) [of f a] by (auto simp: combine_bytes_def)

lemma combine_bytes_assoc:
  assumes "\<And>x y z. f (f x y) z = f x (f y z)"
    and "length a = n" and "length b = n" and "length c = n"
  shows "combine_bytes f (combine_bytes f a b) c = combine_bytes f a (combine_bytes f b c)"
  using assms(2-4) map2_laws(2) [OF assms(1), of a b c] by (auto simp: combine_bytes_def)

lemma op_laws:
  "bool_op op x y = bool_op op y x" "bool_op op (bool_op op x y) z = bool_op op x (bool_op op y z)"
  "bool_op op x x = x"
  "num_op op i j = num_op op j i" "num_op op (num_op op i j) k = num_op op i (num_op op j k)"
  "num_op op i i = i"
  "set_op op A B = set_op op B A" "set_op op (set_op op A B) C = set_op op A (set_op op B C)"
  "set_op op A A = A"
  "byte_op op b c = byte_op op c b" "byte_op op (byte_op op b c) d = byte_op op b (byte_op op c d)"
  "byte_op op b b = b"
  by (auto simp: bool_op_def num_op_def set_op_def byte_op_def ac_simps)

lemma abs_join_comm: "abs_join op (meet_abs E op x) (meet_abs E op y) = abs_join op (meet_abs E op y) (meet_abs E op x)"
  by (cases op) (simp_all add: op_laws combine_option_laws(1) [OF op_laws(4)]
      combine_option_laws(1) [OF op_laws(7)] combine_bytes_laws(1) [OF op_laws(10)])

lemma abs_join_idem: "abs_join op (meet_abs E op x) (meet_abs E op x) = meet_abs E op x"
  by (cases op) (simp_all add: op_laws combine_option_laws(3) [of "num_op op" for op, OF op_laws(6)]
      combine_option_laws(3) [of "set_op op" for op, OF op_laws(9)] combine_bytes_laws(2) [of "byte_op op" for op, OF op_laws(12)])

lemma bytes_okE:
  assumes "bytes_ok n v"
  obtains b where "v = Bytes b" "length b = n"
  using assms by (cases v) (auto simp: bytes_ok_def)

lemma bytes_ok_abs: "bytes_ok n v \<Longrightarrow> length (case v of Bytes b \<Rightarrow> b | _ \<Rightarrow> []) = n"
  by (auto elim: bytes_okE)

lemma abs_join_assoc:
  assumes "meet_ok E n op x" and "meet_ok E n op y" and "meet_ok E n op z"
  shows "abs_join op (abs_join op (meet_abs E op x) (meet_abs E op y)) (meet_abs E op z) =
    abs_join op (meet_abs E op x) (abs_join op (meet_abs E op y) (meet_abs E op z))"
  using assms
  by (cases op) (simp_all add: op_laws(2) combine_option_laws(2) [OF op_laws(5)]
      combine_option_laws(2) [OF op_laws(8)] combine_bytes_assoc [OF op_laws(11) bytes_ok_abs bytes_ok_abs bytes_ok_abs])

text \<open>One lemma per update: it succeeds, stays among the intended values, and refines the join.\<close>

definition refines_join :: "ext \<Rightarrow> nat \<Rightarrow> meet_aggr \<Rightarrow> data_value \<Rightarrow> data_value \<Rightarrow> bool" where
  "refines_join E n op l r \<longleftrightarrow> (\<exists>v c. meet_update E op l r = Inr (v, c) \<and> meet_ok E n op v \<and>
     meet_abs E op v = abs_join op (meet_abs E op l) (meet_abs E op r))"

lemma refines_bool:
  "op \<in> {MeetAggrAnd, MeetAggrOr, MeetAggrChoice} \<Longrightarrow> meet_ok E n op l \<Longrightarrow> meet_ok E n op r \<Longrightarrow> refines_join E n op l r"
  by (auto simp: refines_join_def meet_and_update_def meet_or_update_def meet_choice_update_def bool_op_def)

lemma num_ok_Null [simp]: "get_float Null = None" "\<not> num_ok Null" "num_key_of Null = None"
  by (simp_all add: num_ok_def num_key_of_def get_float_def)

lemma refines_num:
  assumes "op \<in> {MeetAggrMin, MeetAggrMax}" and "meet_ok E n op l" and "meet_ok E n op r"
  shows "refines_join E n op l r"
proof (cases "l = Null \<or> r = Null")
  case True
  with assms show ?thesis
    by (auto simp: refines_join_def meet_min_update_def meet_max_update_def)
next
  case False
  with assms have "num_ok l" "num_ok r" by auto
  then obtain f g where f: "get_float l = Some f" "\<not> f64_is_nan f" and g: "get_float r = Some g" "\<not> f64_is_nan g"
    by (auto simp: num_ok_def)
  have cmp: "f64_lt f g \<longleftrightarrow> f64_ieee_key f < f64_ieee_key g" "f64_lt g f \<longleftrightarrow> f64_ieee_key g < f64_ieee_key f"
    using f64_key_cmp(1) f(2) g(2) by blast+
  from assms False f g cmp show ?thesis
    by (auto simp: refines_join_def meet_min_update_def meet_max_update_def num_key_of_def num_op_def)
qed

lemma refines_min_cost:
  assumes "meet_ok E n MeetAggrMinCost l" and "meet_ok E n MeetAggrMinCost r"
  shows "refines_join E n MeetAggrMinCost l r"
proof -
  obtain x c f where l: "l = List [x, c]" "get_float c = Some f" "\<not> f64_is_nan f"
    using assms(1) by (auto simp: num_ok_def)
  obtain y d g where r: "r = List [y, d]" "get_float d = Some g" "\<not> f64_is_nan g"
    using assms(2) by (auto simp: num_ok_def)
  have "f64_le f g \<longleftrightarrow> f64_ieee_key f \<le> f64_ieee_key g" using f64_key_cmp(3) l(3) r(3) .
  with l r show ?thesis
    by (auto simp: refines_join_def meet_min_cost_update_def num_key_of_def num_op_def num_ok_def)
qed

lemma refines_shortest:
  "meet_ok E n MeetAggrShortest l \<Longrightarrow> meet_ok E n MeetAggrShortest r \<Longrightarrow> refines_join E n MeetAggrShortest l r"
  by (auto simp: refines_join_def meet_shortest_update_def num_op_def)

lemma meet_bit_update_refines:
  assumes "bytes_ok n l" and "bytes_ok n r" and "\<And>b. f b b = b"
  shows "\<exists>v c. meet_bit_update name f l r = Inr (v, c) \<and> bytes_ok n v \<and>
    (case v of Bytes b \<Rightarrow> b | _ \<Rightarrow> []) =
      combine_bytes f (case l of Bytes b \<Rightarrow> b | _ \<Rightarrow> []) (case r of Bytes b \<Rightarrow> b | _ \<Rightarrow> [])"
proof -
  obtain a b where l: "l = Bytes a" "length a = n" and r: "r = Bytes b" "length b = n"
    using assms(1,2) by (elim bytes_okE)
  have idem: "map2 f b b = b" by (rule map2_laws(3)) (rule assms(3))
  show ?thesis
  proof (cases "a = b")
    case True
    then show ?thesis using l r idem by (auto simp: meet_bit_update_def combine_bytes_def bytes_ok_def)
  next
    case False
    then have "a \<noteq> []" "b \<noteq> []" using l(2) r(2) by auto
    then show ?thesis using False l r by (auto simp: meet_bit_update_def combine_bytes_def bytes_ok_def)
  qed
qed

lemma refines_bytes:
  assumes "op \<in> {MeetAggrBitAnd, MeetAggrBitOr}" and "meet_ok E n op l" and "meet_ok E n op r"
  shows "refines_join E n op l r"
proof -
  have "bytes_ok n l" "bytes_ok n r" using assms by auto
  from meet_bit_update_refines [of n l r "byte_op op", OF this op_laws(12)] assms(1) show ?thesis
    by (auto simp: refines_join_def meet_bit_and_update_def meet_bit_or_update_def byte_op_def)
qed

lemma set_ok_cases:
  assumes "set_ok E v"
  obtains l where "ext_ord E" "v = List l" | l where "ext_ord E" "v = Set l" "bset_wf (cmp_value E) l"
  using assms by (cases v) (auto simp: set_ok_def)

lemma value_set_laws:
  assumes "ext_ord E"
  shows "value_set E (bset_from_iter (cmp_value E) l) = value_set E l"
    "value_set E (bset_extend (cmp_value E) l s) = value_set E l \<union> value_set E s"
    "value_set E (bset_intersection (cmp_value E) l s) = value_set E l \<inter> value_set E s"
  using total_cmp.bset_contains_from_iter [OF total_cmp_value [OF assms]]
    total_cmp.bset_contains_extend [OF total_cmp_value [OF assms]]
    total_cmp.bset_contains_intersection [OF total_cmp_value [OF assms]]
  by (auto simp: value_set_def)

lemma bset_wf_laws:
  assumes "ext_ord E"
  shows "bset_wf (cmp_value E) (bset_from_iter (cmp_value E) l)"
    "bset_wf (cmp_value E) l \<Longrightarrow> bset_wf (cmp_value E) (bset_extend (cmp_value E) l s)"
    "bset_wf (cmp_value E) l \<Longrightarrow> bset_wf (cmp_value E) (bset_intersection (cmp_value E) l s)"
  using total_cmp.bset_wf_from_iter [OF total_cmp_value [OF assms]]
    total_cmp.bset_wf_extend [OF total_cmp_value [OF assms]]
    total_cmp.bset_wf_intersection [OF total_cmp_value [OF assms]]
  by blast+

lemma refines_union:
  assumes "meet_ok E n MeetAggrUnion l" and "meet_ok E n MeetAggrUnion r"
  shows "refines_join E n MeetAggrUnion l r"
proof -
  have ok: "set_ok E l" "set_ok E r" using assms by simp_all
  then have E: "ext_ord E" by (simp add: set_ok_def)
  note eq = total_cmp.bset_insert_all_eq [OF total_cmp_value [OF E]]
  show ?thesis
    by (rule set_ok_cases [OF ok(1)]; rule set_ok_cases [OF ok(2)])
      (simp_all add: refines_join_def meet_union_update_def eq set_ok_def set_op_def
        value_set_laws [OF E] bset_wf_laws [OF E])
qed

lemma value_set_kept:
  assumes "ext_ord E"
  shows "length l = length (bset_intersection (cmp_value E) l s) \<longleftrightarrow> value_set E l \<subseteq> value_set E s"
proof -
  have self: "x \<in> set l \<Longrightarrow> x \<in> value_set E l" for x
    using total_cmp.bset_contains_self [OF total_cmp_value [OF assms]] by (simp add: value_set_def)
  have cong: "cmp_value E z x = Equal \<Longrightarrow> bset_contains (cmp_value E) x s \<Longrightarrow> bset_contains (cmp_value E) z s" for z x
    using total_cmp.bset_contains_cong [OF total_cmp_value [OF assms]] by blast
  have "(\<forall>x \<in> set l. bset_contains (cmp_value E) x s) \<longleftrightarrow> value_set E l \<subseteq> value_set E s"
  proof
    assume "\<forall>x \<in> set l. bset_contains (cmp_value E) x s"
    then show "value_set E l \<subseteq> value_set E s"
      using cong unfolding value_set_def bset_contains_def [of _ _ l] list_ex_iff by blast
  next
    assume "value_set E l \<subseteq> value_set E s"
    then show "\<forall>x \<in> set l. bset_contains (cmp_value E) x s"
      using self by (auto simp: value_set_def)
  qed
  then show ?thesis by (simp add: length_intersection)
qed

lemma refines_intersection:
  assumes "meet_ok E n MeetAggrIntersection l" and "meet_ok E n MeetAggrIntersection r"
  shows "refines_join E n MeetAggrIntersection l r"
proof (cases "l = Null \<or> r = Null")
  case True
  with assms show ?thesis by (auto simp: refines_join_def meet_intersection_update_def)
next
  case False
  with assms have ok: "set_ok E l" "set_ok E r" by auto
  then have E: "ext_ord E" by (simp add: set_ok_def)
  show ?thesis
    by (rule set_ok_cases [OF ok(1)]; rule set_ok_cases [OF ok(2)])
      (auto simp: refines_join_def meet_intersection_update_def Let_def set_ok_def
        set_op_def value_set_laws [OF E] bset_wf_laws [OF E] value_set_kept [OF E])
qed

interpretation meet: meet_semilattice "meet_ok E n op" "meet_abs E op" "abs_join op" "meet_update E op"
  for E n op
proof
  fix l r
  assume "meet_ok E n op l" and "meet_ok E n op r"
  then have "refines_join E n op l r"
    using refines_bool refines_num refines_min_cost refines_shortest refines_bytes refines_union
      refines_intersection by (cases op) simp_all
  then show "\<exists>v c. meet_update E op l r = Inr (v, c) \<and> meet_ok E n op v \<and>
      meet_abs E op v = abs_join op (meet_abs E op l) (meet_abs E op r)"
    by (simp add: refines_join_def)
qed (use abs_join_comm abs_join_assoc abs_join_idem in \<open>auto simp: \<close>)

section \<open>Reported changes\<close>

lemma meet_flag_changes:
  assumes "op \<notin> {MeetAggrAnd, MeetAggrOr, MeetAggrBitAnd, MeetAggrBitOr}"
    and "meet_ok E n op l" and "meet_ok E n op r" and "meet_update E op l r = Inr (v, changed)"
  shows "changed \<longleftrightarrow> meet_abs E op v \<noteq> meet_abs E op l"
proof -
  consider "op = MeetAggrMin \<or> op = MeetAggrMax" | "op = MeetAggrChoice" | "op = MeetAggrUnion"
    | "op = MeetAggrIntersection" | "op = MeetAggrShortest" | "op = MeetAggrMinCost"
    using assms(1) by (cases op) auto
  then show ?thesis
  proof cases
    case 1
    show ?thesis
    proof (cases "l = Null \<or> r = Null")
      case True
      with 1 assms(2-4) show ?thesis
        by (auto simp: meet_min_update_def meet_max_update_def num_ok_def num_key_of_def split: if_splits)
    next
      case False
      with 1 assms(2,3) obtain f g where fg: "get_float l = Some f" "\<not> f64_is_nan f"
        "get_float r = Some g" "\<not> f64_is_nan g" by (auto simp: num_ok_def)
      then have "f64_lt f g \<longleftrightarrow> f64_ieee_key f < f64_ieee_key g" "f64_lt g f \<longleftrightarrow> f64_ieee_key g < f64_ieee_key f"
        using f64_key_cmp(1) by blast+
      with 1 False fg assms(4) show ?thesis
        by (auto simp: meet_min_update_def meet_max_update_def num_key_of_def split: if_splits)
    qed
  next
    case 2
    with assms(4) show ?thesis by (auto simp: meet_choice_update_def split: if_splits)
  next
    case 3
    with assms(2,3) have ok: "set_ok E l" "set_ok E r" by simp_all
    then have E: "ext_ord E" by (simp add: set_ok_def)
    note eq = total_cmp.bset_insert_all_eq [OF total_cmp_value [OF E]]
    have sub: "(\<exists>v \<in> set s. \<not> bset_contains (cmp_value E) v a) \<longleftrightarrow> \<not> value_set E s \<subseteq> value_set E a" for s a
      using length_intersection [of s "cmp_value E" a] value_set_kept [OF E, of s a] by blast
    show ?thesis
      using assms(4) 3
      by (rule_tac set_ok_cases [OF ok(1)]; rule_tac set_ok_cases [OF ok(2)])
        (auto simp: meet_union_update_def eq sub value_set_laws [OF E] subset_eq
          total_cmp.bset_contains_from_iter [OF total_cmp_value [OF E]])
  next
    case 4
    show ?thesis
    proof (cases "l = Null \<or> r = Null")
      case True
      with 4 assms(2-4) show ?thesis
        by (auto simp: meet_intersection_update_def set_ok_def split: data_value.splits)
    next
      case False
      with 4 assms(2,3) have ok: "set_ok E l" "set_ok E r" by simp_all
      then have E: "ext_ord E" by (simp add: set_ok_def)
      show ?thesis
        using assms(4) 4
        by (rule_tac set_ok_cases [OF ok(1)]; rule_tac set_ok_cases [OF ok(2)])
          (auto simp: meet_intersection_update_def Let_def value_set_laws [OF E] value_set_kept [OF E]
            split: if_splits)
    qed
  next
    case 5
    with assms(2-4) show ?thesis by (auto simp: meet_shortest_update_def split: if_splits)
  next
    case 6
    with assms(2,3) obtain x c f y d g where fg: "l = List [x, c]" "get_float c = Some f" "\<not> f64_is_nan f"
      "r = List [y, d]" "get_float d = Some g" "\<not> f64_is_nan g" by (auto simp: num_ok_def)
    then have "f64_le f g \<longleftrightarrow> f64_ieee_key f \<le> f64_ieee_key g" using f64_key_cmp(3) by blast
    with 6 fg assms(4) show ?thesis
      by (auto simp: meet_min_cost_update_def num_key_of_def split: if_splits)
  qed
qed

section \<open>Normal and meet aggregation agree\<close>

text \<open>
  The accumulators of the aggregations that exist in both forms, and what they stand for. Before the
  first value the intersection accumulator is empty.
\<close>

fun aggr_abs :: "ext \<Rightarrow> normal_aggr \<Rightarrow> abs_value" where
  "aggr_abs E (AggrAnd b) = AbsBool b"
| "aggr_abs E (AggrOr b) = AbsBool b"
| "aggr_abs E (AggrMin v) = AbsNum (num_key_of v)"
| "aggr_abs E (AggrMax v) = AbsNum (num_key_of v)"
| "aggr_abs E (AggrChoice v) = AbsBool (v \<noteq> Null)"
| "aggr_abs E (AggrBitAnd b) = AbsBytes b"
| "aggr_abs E (AggrBitOr b) = AbsBytes b"
| "aggr_abs E (AggrUnion l) = AbsSet (Some (value_set E l))"
| "aggr_abs E (AggrIntersection s) = AbsSet (map_option (value_set E) s)"
| "aggr_abs E (AggrShortest s) = AbsNum (map_option (\<lambda>l. int (length l)) s)"
| "aggr_abs E (AggrMinCost s) = AbsNum (Some (f64_ieee_key (snd s)))"
| "aggr_abs E _ = AbsBool False"

fun aggr_inv :: "nat \<Rightarrow> meet_aggr \<Rightarrow> normal_aggr \<Rightarrow> bool" where
  "aggr_inv n op (AggrAnd b) = (op = MeetAggrAnd)"
| "aggr_inv n op (AggrOr b) = (op = MeetAggrOr)"
| "aggr_inv n op (AggrMin v) = (op = MeetAggrMin \<and> (v = Null \<or> num_ok v))"
| "aggr_inv n op (AggrMax v) = (op = MeetAggrMax \<and> (v = Null \<or> num_ok v))"
| "aggr_inv n op (AggrChoice v) = (op = MeetAggrChoice)"
| "aggr_inv n op (AggrBitAnd b) = (op = MeetAggrBitAnd \<and> (b = [] \<or> length b = n))"
| "aggr_inv n op (AggrBitOr b) = (op = MeetAggrBitOr \<and> (b = [] \<or> length b = n))"
| "aggr_inv n op (AggrUnion l) = (op = MeetAggrUnion)"
| "aggr_inv n op (AggrIntersection s) = (op = MeetAggrIntersection)"
| "aggr_inv n op (AggrShortest s) = (op = MeetAggrShortest)"
| "aggr_inv n op (AggrMinCost s) = (op = MeetAggrMinCost \<and> \<not> f64_is_nan (snd s))"
| "aggr_inv n op _ = False"

text \<open>The values a normal aggregation takes: its sets come as lists, and null is not a list.\<close>

definition normal_ok :: "meet_aggr \<Rightarrow> data_value \<Rightarrow> bool" where
  "normal_ok op v \<longleftrightarrow>
     op \<in> {MeetAggrUnion, MeetAggrIntersection, MeetAggrShortest} \<longrightarrow> (\<exists>l. v = List l)"

definition normal_step :: "ext \<Rightarrow> nat \<Rightarrow> f64 \<Rightarrow> meet_aggr \<Rightarrow> normal_aggr \<Rightarrow> data_value \<Rightarrow> bool" where
  "normal_step E n rd op s v \<longleftrightarrow> (\<exists>s'. normal_set E rd s v = Inr s' \<and> aggr_inv n op s' \<and>
     aggr_abs E s' = abs_join op (aggr_abs E s) (meet_abs E op v))"

lemma f64_infinity_not_nan: "\<not> f64_is_nan (f64_infinity False)"
  by (simp add: f64_is_nan_def f64_infinity_def f64_frac_def)

lemma normal_step_bool:
  "op \<in> {MeetAggrAnd, MeetAggrOr, MeetAggrChoice} \<Longrightarrow> aggr_inv n op s \<Longrightarrow> meet_ok E n op v \<Longrightarrow>
   normal_step E n rd op s v"
  by (cases s) (auto simp: normal_step_def aggr_and_set_def aggr_or_set_def aggr_choice_set_def bool_op_def)

lemma normal_step_num:
  assumes "op \<in> {MeetAggrMin, MeetAggrMax}" and "aggr_inv n op s" and "meet_ok E n op v"
  shows "normal_step E n rd op s v"
proof -
  obtain u where u: "op = MeetAggrMin \<and> s = AggrMin u \<or> op = MeetAggrMax \<and> s = AggrMax u" "u = Null \<or> num_ok u"
    using assms(1,2) by (cases s) auto
  show ?thesis
  proof (cases "u = Null \<or> v = Null")
    case True
    with u assms(3) show ?thesis by (auto simp: normal_step_def aggr_min_set_def aggr_max_set_def)
  next
    case False
    with u assms(1,3) obtain f g where fg: "get_float u = Some f" "\<not> f64_is_nan f"
      "get_float v = Some g" "\<not> f64_is_nan g" by (auto simp: num_ok_def)
    then have "f64_lt f g \<longleftrightarrow> f64_ieee_key f < f64_ieee_key g" "f64_lt g f \<longleftrightarrow> f64_ieee_key g < f64_ieee_key f"
      using f64_key_cmp(1) by blast+
    with u False fg show ?thesis
      by (auto simp: normal_step_def aggr_min_set_def aggr_max_set_def num_ok_def num_key_of_def num_op_def)
  qed
qed

lemma normal_step_bytes:
  assumes "op \<in> {MeetAggrBitAnd, MeetAggrBitOr}" and "aggr_inv n op s" and "meet_ok E n op v"
  shows "normal_step E n rd op s v"
proof -
  have "bytes_ok n v" using assms(1,3) by auto
  then obtain b where b: "v = Bytes b" "length b = n" by (rule bytes_okE)
  obtain a where a: "op = MeetAggrBitAnd \<and> s = AggrBitAnd a \<or> op = MeetAggrBitOr \<and> s = AggrBitOr a"
    "a = [] \<or> length a = n" using assms(1,2) by (cases s) auto
  show ?thesis
    using a b by (auto simp: normal_step_def aggr_bit_and_set_def aggr_bit_or_set_def aggr_bit_set_def
        combine_bytes_def byte_op_def)
qed

lemma normal_step_set:
  assumes "op \<in> {MeetAggrUnion, MeetAggrIntersection}" and "aggr_inv n op s" and "meet_ok E n op v"
    and "normal_ok op v"
  shows "normal_step E n rd op s v"
proof -
  have E: "ext_ord E" using assms(1,3,4) by (auto simp: set_ok_def normal_ok_def)
  obtain l where l: "v = List l" using assms(1,4) by (auto simp: normal_ok_def)
  show ?thesis
    using assms(1,2) l
    by (cases s) (auto simp: normal_step_def aggr_union_set_def aggr_intersection_set_def set_op_def
        value_set_laws [OF E] split: option.splits)
qed

lemma normal_step_shortest:
  "aggr_inv n MeetAggrShortest s \<Longrightarrow> meet_ok E n MeetAggrShortest v \<Longrightarrow> normal_ok MeetAggrShortest v \<Longrightarrow>
   normal_step E n rd MeetAggrShortest s v"
  by (cases s) (auto simp: normal_step_def normal_ok_def aggr_shortest_set_def num_op_def split: option.splits)

lemma normal_step_min_cost:
  assumes "aggr_inv n MeetAggrMinCost s" and "meet_ok E n MeetAggrMinCost v"
  shows "normal_step E n rd MeetAggrMinCost s v"
proof -
  obtain x f where s: "s = AggrMinCost (x, f)" "\<not> f64_is_nan f" using assms(1) by (cases s) auto
  obtain y d g where v: "v = List [y, d]" "get_float d = Some g" "\<not> f64_is_nan g"
    using assms(2) by (auto simp: num_ok_def)
  have "f64_lt g f \<longleftrightarrow> f64_ieee_key g < f64_ieee_key f" using f64_key_cmp(1) s(2) v(3) by blast
  with s v show ?thesis
    by (auto simp: normal_step_def aggr_min_cost_set_def num_op_def num_key_of_def)
qed

lemma normal_step_all:
  assumes "aggr_inv n op s" and "meet_ok E n op v" and "normal_ok op v"
  shows "normal_step E n rd op s v"
proof -
  consider "op \<in> {MeetAggrAnd, MeetAggrOr, MeetAggrChoice}" | "op \<in> {MeetAggrMin, MeetAggrMax}"
    | "op \<in> {MeetAggrBitAnd, MeetAggrBitOr}" | "op \<in> {MeetAggrUnion, MeetAggrIntersection}"
    | "op = MeetAggrShortest" | "op = MeetAggrMinCost"
    by (cases op) auto
  then show ?thesis
    using normal_step_bool [OF _ assms(1,2)] normal_step_num [OF _ assms(1,2)]
      normal_step_bytes [OF _ assms(1,2)] normal_step_set [OF _ assms]
      normal_step_shortest normal_step_min_cost assms by cases auto
qed

lemma normal_fold:
  assumes "aggr_inv n op s" and "list_all (meet_ok E n op) vs" and "list_all (normal_ok op) vs"
  shows "\<exists>s'. try_fold (normal_set E rd) s vs = Inr s' \<and> aggr_inv n op s' \<and>
    aggr_abs E s' = fold (\<lambda>r a. abs_join op a (meet_abs E op r)) vs (aggr_abs E s)"
  using assms
proof (induction vs arbitrary: s)
  case (Cons v vs)
  then obtain s' where "normal_set E rd s v = Inr s'" "aggr_inv n op s'"
    "aggr_abs E s' = abs_join op (aggr_abs E s) (meet_abs E op v)"
    using normal_step_all [where E = E and n = n and op = op and s = s and v = v and rd = rd] by (auto simp: normal_step_def)
  with Cons.IH [of s'] Cons.prems show ?case by auto
qed simp

lemma normal_get_abs:
  "aggr_inv n op s \<Longrightarrow> s \<noteq> AggrIntersection None \<Longrightarrow> meet_abs E op (normal_get s) = aggr_abs E s"
  by (cases s)
    (auto simp: aggr_and_get_def aggr_or_get_def aggr_min_get_def aggr_max_get_def aggr_choice_get_def
      aggr_bit_and_get_def aggr_bit_or_get_def aggr_union_get_def aggr_intersection_get_def
      aggr_shortest_get_def aggr_min_cost_get_def num_key_of_def get_float_def num_get_float_def
      split: option.splits prod.splits)

text \<open>The initial accumulator is neutral.\<close>

fun init_abs :: "meet_aggr \<Rightarrow> abs_value" where
  "init_abs MeetAggrAnd = AbsBool True"
| "init_abs MeetAggrOr = AbsBool False"
| "init_abs MeetAggrMin = AbsNum None"
| "init_abs MeetAggrMax = AbsNum None"
| "init_abs MeetAggrChoice = AbsBool False"
| "init_abs MeetAggrBitAnd = AbsBytes []"
| "init_abs MeetAggrBitOr = AbsBytes []"
| "init_abs MeetAggrUnion = AbsSet (Some {})"
| "init_abs MeetAggrIntersection = AbsSet None"
| "init_abs MeetAggrShortest = AbsNum None"
| "init_abs MeetAggrMinCost = AbsNum (Some (f64_ieee_key (f64_infinity False)))"

lemma normal_init_abs:
  "meet_init a = Some op \<Longrightarrow> \<exists>s. normal_init a args = Inr s \<and> aggr_inv n op s \<and> aggr_abs E s = init_abs op"
  by (cases a) (auto simp: f64_infinity_not_nan value_set_def bset_contains_def)

lemma init_abs_neutral:
  assumes "meet_ok E n op v" and "normal_ok op v"
  shows "abs_join op (init_abs op) (meet_abs E op v) = meet_abs E op v"
proof (cases op)
  case MeetAggrMinCost
  with assms(1) obtain x c f where "v = List [x, c]" "get_float c = Some f" "\<not> f64_is_nan f"
    by (auto simp: num_ok_def)
  with MeetAggrMinCost f64_ieee_key_le_infinity [of f] show ?thesis
    by (simp add: num_key_of_def num_op_def)
qed (use assms(2) in \<open>auto simp: bool_op_def combine_bytes_def set_op_def normal_ok_def\<close>)

section \<open>Properties\<close>

text \<open>
  When two results of an aggregation are the same: equal values; for a minimum, maximum or cost, equal
  as the floating-point numbers the code compares; for a set, the same elements; for a shortest list,
  the same length.
\<close>

definition same_number :: "data_value \<Rightarrow> data_value \<Rightarrow> bool" where
  "same_number v w \<longleftrightarrow>
     (\<exists>f g. get_float v = Some f \<and> get_float w = Some g \<and> f64_ieee_key f = f64_ieee_key g)"

definition same_elements :: "ext \<Rightarrow> data_value list \<Rightarrow> data_value list \<Rightarrow> bool" where
  "same_elements E l m \<longleftrightarrow> (\<forall>z. bset_contains (cmp_value E) z l = bset_contains (cmp_value E) z m)"

definition elements_of :: "data_value \<Rightarrow> data_value list option" where
  "elements_of v = (case v of List l \<Rightarrow> Some l | Set l \<Rightarrow> Some l | _ \<Rightarrow> None)"

fun same_result :: "ext \<Rightarrow> meet_aggr \<Rightarrow> data_value \<Rightarrow> data_value \<Rightarrow> bool" where
  "same_result E MeetAggrMin v w \<longleftrightarrow> (v = Null \<and> w = Null) \<or> same_number v w"
| "same_result E MeetAggrMax v w \<longleftrightarrow> (v = Null \<and> w = Null) \<or> same_number v w"
| "same_result E MeetAggrUnion v w \<longleftrightarrow>
     (\<exists>l m. elements_of v = Some l \<and> elements_of w = Some m \<and> same_elements E l m)"
| "same_result E MeetAggrIntersection v w \<longleftrightarrow> (v = Null \<and> w = Null) \<or>
     (\<exists>l m. elements_of v = Some l \<and> elements_of w = Some m \<and> same_elements E l m)"
| "same_result E MeetAggrShortest v w \<longleftrightarrow> (v = Null \<and> w = Null) \<or>
     (\<exists>l m. v = List l \<and> w = List m \<and> length l = length m)"
| "same_result E MeetAggrMinCost v w \<longleftrightarrow>
     (\<exists>x c y d. v = List [x, c] \<and> w = List [y, d] \<and> same_number c d)"
| "same_result E op v w \<longleftrightarrow> v = w"

lemma value_set_eq: "value_set E l = value_set E m \<longleftrightarrow> same_elements E l m"
  by (auto simp: value_set_def same_elements_def)

lemma num_key_of_eq:
  "num_key_of v = num_key_of w \<Longrightarrow> get_float v \<noteq> None \<Longrightarrow> same_number v w"
  by (cases "get_float w") (auto simp: num_key_of_def same_number_def)

lemma num_key_of_num: "num_ok v \<Longrightarrow> num_key_of v \<noteq> None"
  by (auto simp: num_key_of_def num_ok_def)

lemma same_result_num:
  assumes "v = Null \<or> num_ok v" and "w = Null \<or> num_ok w" and "num_key_of v = num_key_of w"
  shows "v = Null \<and> w = Null \<or> same_number v w"
  using assms num_key_of_num [of v] num_key_of_num [of w] num_key_of_eq [of v w]
  by (auto simp: num_ok_def)

lemma meet_abs_same_result:
  assumes "op \<noteq> MeetAggrChoice" and "meet_ok E n op v" and "meet_ok E n op w" and "meet_abs E op v = meet_abs E op w"
  shows "same_result E op v w"
proof (cases op)
  case MeetAggrMin
  with assms same_result_num [of v w] show ?thesis by simp
next
  case MeetAggrMax
  with assms same_result_num [of v w] show ?thesis by simp
next
  case MeetAggrMinCost
  with assms num_key_of_eq show ?thesis by (fastforce simp: num_ok_def)
qed (use assms in \<open>auto simp: bytes_ok_def set_ok_def elements_of_def value_set_eq split: data_value.splits\<close>)

text \<open>An aggregation that selects returns one of the merged values.\<close>

lemma meet_update_selects:
  assumes "op \<in> {MeetAggrMin, MeetAggrMax, MeetAggrChoice, MeetAggrShortest, MeetAggrMinCost}"
    and "meet_update E op l r = Inr (v, c)"
  shows "v = l \<or> v = r"
  using assms
  by (auto simp: meet_min_update_def meet_max_update_def meet_choice_update_def meet_shortest_update_def
      meet_min_cost_update_def and_then_Inr split: if_splits data_value.splits list.splits)

lemma meet_fold_selects:
  assumes "op \<in> {MeetAggrMin, MeetAggrMax, MeetAggrChoice, MeetAggrShortest, MeetAggrMinCost}"
  shows "try_fold (\<lambda>l r. map_ok fst (meet_update E op l r)) v vs = Inr w \<Longrightarrow> w \<in> set (v # vs)"
proof (induction vs arbitrary: v)
  case (Cons r vs)
  then obtain v' c where v': "meet_update E op v r = Inr (v', c)"
    and "try_fold (\<lambda>l r. map_ok fst (meet_update E op l r)) v' vs = Inr w"
    by (auto split: sum.splits simp: map_ok_Inr)
  with Cons.IH [of v'] meet_update_selects [OF assms v'] show ?case by auto
qed simp

lemma normal_same_result:
  assumes "op \<noteq> MeetAggrChoice" and "aggr_inv n op s" and "s \<noteq> AggrIntersection None" and "meet_ok E n op w"
    and "meet_abs E op (normal_get s) = meet_abs E op w"
  shows "same_result E op (normal_get s) w"
proof (cases s)
  case (AggrMin v)
  with assms same_result_num [of v w] show ?thesis by (auto simp: aggr_min_get_def)
next
  case (AggrMax v)
  with assms same_result_num [of v w] show ?thesis by (auto simp: aggr_max_get_def)
next
  case (AggrMinCost st)
  then have op: "op = MeetAggrMinCost" using assms(2) by simp
  then obtain x c where w: "w = List [x, c]" using assms(4) by auto
  have "num_key_of (Num (FloatN (snd st))) = num_key_of c"
    using assms(5) by (simp add: AggrMinCost op w aggr_min_cost_get_def split: prod.splits)
  then have "same_number (Num (FloatN (snd st))) c"
    by (rule num_key_of_eq) (simp add: get_float_def num_get_float_def)
  then show ?thesis by (cases st) (simp add: AggrMinCost op w aggr_min_cost_get_def)
qed (use assms in \<open>auto simp: aggr_and_get_def aggr_or_get_def aggr_bit_and_get_def aggr_bit_or_get_def
  aggr_union_get_def aggr_intersection_get_def aggr_shortest_get_def bytes_ok_def set_ok_def elements_of_def value_set_eq
  split: data_value.splits option.splits\<close>)

lemma choice_fold_agree:
  "try_fold (normal_set E rd) (AggrChoice f) vs = Inr s \<Longrightarrow>
   try_fold (\<lambda>l r. map_ok fst (meet_update E MeetAggrChoice l r)) f vs = Inr (normal_get s)"
  by (induction vs arbitrary: f)
    (auto simp: aggr_choice_get_def aggr_choice_set_def meet_choice_update_def split: if_splits)

lemma aggr_intersection_Some:
  "normal_set E rd s v = Inr s' \<Longrightarrow> s' \<noteq> AggrIntersection None"
  by (cases s) (auto simp: aggr_intersection_set_def split: data_value.splits option.splits)

lemma try_fold_last: "try_fold f s (x # xs) = Inr s' \<Longrightarrow> \<exists>t y. f t y = Inr s'"
  by (induction xs arbitrary: s x) (auto split: sum.splits)

text \<open>
  C18: Merging with a meet aggregation does not depend on the order or the repetition of the values.
  Two non-empty collections with the same members, of values the aggregation is meant for, merge
  without error. The two results are equal for \<open>and\<close>, \<open>or\<close>, \<open>bit_and\<close> and \<open>bit_or\<close>, the same number
  (or both null) for \<open>min\<close> and \<open>max\<close>, of the same elements for \<open>union\<close> and \<open>intersection\<close>, lists of the
  same length for \<open>shortest\<close> and pairs of the same cost for \<open>min_cost\<close>; \<open>choice\<close>, which keeps the
  first value that is not null, only finds such a value in both or in neither. The five that select
  return one of the merged values.
\<close>

theorem meet_order_independent:
  assumes "list_all (meet_ok E n op) (v # vs)" and "set (v # vs) = set (u # us)"
  shows "\<exists>w w'. try_fold (\<lambda>l r. map_ok fst (meet_update E op l r)) v vs = Inr w \<and>
    try_fold (\<lambda>l r. map_ok fst (meet_update E op l r)) u us = Inr w' \<and>
    (if op = MeetAggrChoice then w = Null \<longleftrightarrow> w' = Null else same_result E op w w') \<and>
    (op \<in> {MeetAggrMin, MeetAggrMax, MeetAggrChoice, MeetAggrShortest, MeetAggrMinCost} \<longrightarrow>
      w \<in> set (v # vs) \<and> w' \<in> set (v # vs))"
proof -
  obtain w w' where w: "try_fold (\<lambda>l r. map_ok fst (meet_update E op l r)) v vs = Inr w"
    "try_fold (\<lambda>l r. map_ok fst (meet_update E op l r)) u us = Inr w'"
    "meet_ok E n op w" "meet_ok E n op w'" "meet_abs E op w = meet_abs E op w'"
    using meet.fold_order_independent [OF assms] by blast
  have "if op = MeetAggrChoice then w = Null \<longleftrightarrow> w' = Null else same_result E op w w'"
    using w(5) meet_abs_same_result [OF _ w(3-5)] by auto
  with w(1,2) meet_fold_selects [OF _ w(1)] meet_fold_selects [OF _ w(2)] assms(2) show ?thesis by blast
qed

theorem meet_order_independent_witness:
  "\<exists>w w'. try_fold (\<lambda>l r. map_ok fst (meet_update ext_example MeetAggrUnion l r))
      (List [Num (IntN 2)]) [Set [Null], List [Num (IntN 2), Num (IntN 1)]] = Inr w \<and>
    try_fold (\<lambda>l r. map_ok fst (meet_update ext_example MeetAggrUnion l r))
      (Set [Null]) [List [Num (IntN 2), Num (IntN 1)], List [Num (IntN 2)], Set [Null]] = Inr w' \<and>
    same_result ext_example MeetAggrUnion w w'"
  using meet_order_independent [of ext_example 0 MeetAggrUnion "List [Num (IntN 2)]"
      "[Set [Null], List [Num (IntN 2), Num (IntN 1)]]" "Set [Null]"
      "[List [Num (IntN 2), Num (IntN 1)], List [Num (IntN 2)], Set [Null]]"]
  by (auto simp: set_ok_def bset_wf_def)

text \<open>
  C19: An aggregation that exists in both forms gives the same either way. Collecting a non-empty list
  of values with the accumulator and merging them one after the other give equal values for \<open>and\<close>,
  \<open>or\<close>, \<open>choice\<close>, \<open>bit_and\<close> and \<open>bit_or\<close>, the same number (or both null) for \<open>min\<close> and \<open>max\<close>, the same
  elements for \<open>union\<close> and \<open>intersection\<close>, lists of the same length for \<open>shortest\<close> and pairs of the
  same cost for \<open>min_cost\<close>. The values are those both forms take.
\<close>

theorem normal_meet_agree:
  assumes "meet_init a = Some op" and "list_all (meet_ok E n op) (v # vs)"
    and "list_all (normal_ok op) (v # vs)"
  shows "\<exists>s s' w. normal_init a args = Inr s \<and> try_fold (normal_set E rd) s (v # vs) = Inr s' \<and>
    try_fold (\<lambda>l r. map_ok fst (meet_update E op l r)) v vs = Inr w \<and>
    same_result E op (normal_get s') w"
proof -
  obtain s where s: "normal_init a args = Inr s" "aggr_inv n op s" "aggr_abs E s = init_abs op"
    using normal_init_abs [OF assms(1)] by blast
  obtain s' where s': "try_fold (normal_set E rd) s (v # vs) = Inr s'" "aggr_inv n op s'"
    "aggr_abs E s' = fold (\<lambda>r a. abs_join op a (meet_abs E op r)) (v # vs) (init_abs op)"
    using normal_fold [OF s(2) assms(2,3)] s(3) by fastforce
  obtain w where w: "try_fold (\<lambda>l r. map_ok fst (meet_update E op l r)) v vs = Inr w" "meet_ok E n op w"
    "meet_abs E op w = fold (\<lambda>r a. abs_join op a (meet_abs E op r)) vs (meet_abs E op v)"
    using meet.fold_fold [of E n op v vs] assms(2) by auto
  have eq: "aggr_abs E s' = meet_abs E op w"
    using s'(3) w(3) init_abs_neutral [of E n op v] assms(2,3) by simp
  have last: "s' \<noteq> AggrIntersection None"
    using try_fold_last [OF s'(1)] aggr_intersection_Some by blast
  then have abs: "meet_abs E op (normal_get s') = meet_abs E op w"
    using normal_get_abs [OF s'(2)] eq by simp
  have "same_result E op (normal_get s') w"
  proof (cases "op = MeetAggrChoice")
    case True
    then have "s = AggrChoice Null" using s(1) assms(1) by (cases a) auto
    then have "try_fold (normal_set E rd) (AggrChoice v) vs = Inr s'"
      using s'(1) by (simp add: aggr_choice_set_def)
    from choice_fold_agree [OF this] w(1) True show ?thesis by simp
  qed (rule normal_same_result [OF _ s'(2) last w(2) abs])
  with s(1) s'(1) w(1) show ?thesis by blast
qed

theorem normal_meet_agree_witness:
  "\<exists>s s' w. normal_init AGGR_SHORTEST [] = Inr s \<and>
    try_fold (normal_set ext_example 0) s [List [Null, Null], List [Bot]] = Inr s' \<and>
    try_fold (\<lambda>l r. map_ok fst (meet_update ext_example MeetAggrShortest l r)) (List [Null, Null]) [List [Bot]] = Inr w \<and>
    same_result ext_example MeetAggrShortest (normal_get s') w"
  by (rule normal_meet_agree [where n = 0]) (simp_all add: normal_ok_def)

text \<open>
  C20: The minimum, maximum, choice, union, intersection, shortest and minimum-cost merges report a
  change exactly when the merged value stands for something new.
\<close>

theorem meet_flag_exact:
  assumes "op \<notin> {MeetAggrAnd, MeetAggrOr, MeetAggrBitAnd, MeetAggrBitOr}"
    and "meet_ok E n op l" and "meet_ok E n op r" and "meet_update E op l r = Inr (v, changed)"
  shows "changed \<longleftrightarrow> meet_abs E op v \<noteq> meet_abs E op l"
  using assms by (rule meet_flag_changes)

theorem meet_flag_exact_witness:
  "meet_update ext_example MeetAggrShortest (List [Null, Null]) (List [Bot]) = Inr (List [Bot], True) \<and>
   (True \<longleftrightarrow> meet_abs ext_example MeetAggrShortest (List [Bot]) \<noteq>
      meet_abs ext_example MeetAggrShortest (List [Null, Null]))"
proof -
  have "meet_update ext_example MeetAggrShortest (List [Null, Null]) (List [Bot]) = Inr (List [Bot], True)"
    by (simp add: meet_shortest_update_def)
  with meet_flag_exact [OF _ _ _ this, of 0] show ?thesis by simp
qed

text \<open>
  C21: The merges of \<open>and\<close> and \<open>or\<close> report a change exactly when nothing changed.
\<close>

theorem and_or_flag_inverted:
  assumes "op \<in> {MeetAggrAnd, MeetAggrOr}"
  shows "\<exists>v unchanged. meet_update E op (Bool l) (Bool r) = Inr (v, unchanged) \<and> (unchanged \<longleftrightarrow> v = Bool l)"
  using assms by (auto simp: meet_and_update_def meet_or_update_def)

theorem and_or_flag_inverted_witness:
  "\<exists>v unchanged. meet_update ext_example MeetAggrAnd (Bool True) (Bool True) = Inr (v, unchanged) \<and>
     unchanged \<and> v = Bool True"
  using and_or_flag_inverted [of MeetAggrAnd ext_example True True] by (auto simp: meet_and_update_def)

text \<open>
  C22: The bit merges report a change whenever the operands differ, also when merging changes nothing:
  merging \<open>03\<close> into \<open>01\<close> by \<open>bit_and\<close> leaves \<open>01\<close> and reports a change.
\<close>

theorem bit_flag_overreports:
  assumes "op \<in> {MeetAggrBitAnd, MeetAggrBitOr}" and "a \<noteq> b" and "length a = length b"
  shows "meet_update E op (Bytes a) (Bytes b) = Inr (Bytes (map2 (byte_op op) a b), True)"
  using assms
  by (auto simp: meet_bit_and_update_def meet_bit_or_update_def meet_bit_update_def byte_op_def)

theorem bit_flag_overreports_witness:
  "meet_update ext_example MeetAggrBitAnd (Bytes [1]) (Bytes [3]) = Inr (Bytes [1], True)"
  using bit_flag_overreports [of MeetAggrBitAnd "[1]" "[3]" ext_example] by (simp add: byte_op_def)

end
