(* ===== verification/TempStore.thy ===== *)
theory TempStore
  imports Aggr Tuple
begin

text \<open>
  \<open>retia-core/src/runtime/temp_store.rs\<close>: the stores of derived relations during evaluation. A
  \<open>RegularTempStore\<close> maps a tuple to its skip mark, a \<open>MeetAggrStore\<close> maps the grouping columns to
  the merged values of the aggregated ones, an \<open>EpochStore\<close> pairs the total with the delta of the last
  epoch. Functions that mutate several stores return all of them. An index past the end of a tuple, a
  range whose bounds are in the wrong order and the \<open>unreachable!\<close> of the code are the error
  \<open>TempPanic\<close>.
\<close>

datatype temp_error = AggrFailed aggr_error | TempPanic

section \<open>Rows as the iterators give them\<close>

datatype tuple_in_iter = TupleInIter tuple tuple bool

definition tii_get :: "tuple_in_iter \<Rightarrow> nat \<Rightarrow> data_value option" where
  "tii_get t idx =
     (case t of TupleInIter a b _ \<Rightarrow>
        if idx < length a then Some (a ! idx)
        else if idx - length a < length b then Some (b ! (idx - length a)) else None)"

definition should_skip :: "tuple_in_iter \<Rightarrow> bool" where
  "should_skip t = (case t of TupleInIter _ _ s \<Rightarrow> s)"

text \<open>\<open>TupleInIterIterator::next\<close> and the loop that collects it.\<close>

definition tii_next :: "tuple_in_iter \<Rightarrow> nat \<Rightarrow> (data_value \<times> nat) option" where
  "tii_next t idx =
     (case t of TupleInIter a b _ \<Rightarrow>
        if idx < length a then Some (a ! idx, idx + 1)
        else if idx - length a < length b then Some (b ! (idx - length a), idx + 1)
        else None)"

function tii_collect :: "tuple_in_iter \<Rightarrow> nat \<Rightarrow> tuple" where
  "tii_collect t idx =
     (case tii_next t idx of None \<Rightarrow> [] | Some (d, nxt) \<Rightarrow> d # tii_collect t nxt)"
  by auto
termination
  by (relation "measure (\<lambda>(t, idx). (case t of TupleInIter a b _ \<Rightarrow> length a + length b) - idx)")
    (auto simp: tii_next_def split: tuple_in_iter.splits if_splits)

declare tii_collect.simps [simp del]

definition into_tuple :: "tuple_in_iter \<Rightarrow> tuple" where
  "into_tuple t = tii_collect t 0"

definition tii_cmp :: "ext \<Rightarrow> tuple_in_iter \<Rightarrow> tuple \<Rightarrow> ordering" where
  "tii_cmp E t other = lex_cmp (cmp_value E) (into_tuple t) other"

section \<open>Regular stores\<close>

type_synonym regular_temp_store = "(tuple, bool) btree"

text \<open>\<open>BTreeMap::range\<close> panics when the lower bound is above the upper bound.\<close>

definition tuple_range ::
  "ext \<Rightarrow> (tuple, 'v) btree \<Rightarrow> tuple \<Rightarrow> tuple \<Rightarrow> bool \<Rightarrow> temp_error + (tuple, 'v) btree" where
  "tuple_range E m lower upper upper_inclusive =
     (if cmp_tuple E lower upper = Greater then Inl TempPanic
      else Inr (bmap_range (cmp_tuple E) m lower upper upper_inclusive))"

definition regular_exists :: "ext \<Rightarrow> regular_temp_store \<Rightarrow> tuple \<Rightarrow> bool" where
  "regular_exists E st key = bmap_contains_key (cmp_tuple E) st key"

definition regular_range_iter ::
  "ext \<Rightarrow> regular_temp_store \<Rightarrow> tuple \<Rightarrow> tuple \<Rightarrow> bool \<Rightarrow> temp_error + tuple_in_iter list" where
  "regular_range_iter E st lower upper upper_inclusive =
     map_ok (map (\<lambda>(t, skip). TupleInIter t [] skip)) (tuple_range E st lower upper upper_inclusive)"

definition regular_put :: "ext \<Rightarrow> regular_temp_store \<Rightarrow> tuple \<Rightarrow> regular_temp_store" where
  "regular_put E st t = bmap_insert (cmp_tuple E) t False st"

definition regular_put_with_skip :: "ext \<Rightarrow> regular_temp_store \<Rightarrow> tuple \<Rightarrow> regular_temp_store" where
  "regular_put_with_skip E st t = bmap_insert (cmp_tuple E) t True st"

fun regular_merge_loop ::
  "ext \<Rightarrow> regular_temp_store \<Rightarrow> regular_temp_store \<Rightarrow> regular_temp_store \<Rightarrow>
   regular_temp_store \<times> regular_temp_store" where
  "regular_merge_loop E self prev [] = (self, prev)"
| "regular_merge_loop E self prev ((k, v) # new) =
     regular_merge_loop E (bmap_insert (cmp_tuple E) k v self)
       (if bmap_contains_key (cmp_tuple E) self k then prev else bmap_insert (cmp_tuple E) k v prev) new"

definition regular_merge_in ::
  "ext \<Rightarrow> regular_temp_store \<Rightarrow> regular_temp_store \<Rightarrow> regular_temp_store \<Rightarrow>
   regular_temp_store \<times> regular_temp_store \<times> bool" where
  "regular_merge_in E self prev new =
     (if new = [] then (self, [], False)
      else if self = [] then (new, [], True)
      else (case regular_merge_loop E self [] new of (self', prev') \<Rightarrow> (self', prev', False)))"

section \<open>Stores of meet aggregations\<close>

record meet_aggr_store =
  minner :: "(tuple, tuple) btree"
  aggregations :: "meet_aggr list"
  grouping_len :: nat

definition meet_exists :: "ext \<Rightarrow> meet_aggr_store \<Rightarrow> tuple \<Rightarrow> temp_error + bool" where
  "meet_exists E st key =
     (if grouping_len st \<le> length key
      then Inr (bmap_contains_key (cmp_tuple E) (minner st) (take (grouping_len st) key))
      else Inl TempPanic)"

definition meet_is_empty :: "meet_aggr_store \<Rightarrow> bool" where
  "meet_is_empty st = (minner st = [])"

definition meet_store_new :: "(aggr_name \<times> data_value list) option list \<Rightarrow> temp_error + meet_aggr_store" where
  "meet_store_new aggrs =
     (let total_key_len = length aggrs;
          given = map the (filter (\<lambda>a. a \<noteq> None) aggrs)
      in case those (map (\<lambda>(aggr, args). meet_init aggr) given) of
           None \<Rightarrow> Inl TempPanic
         | Some ops \<Rightarrow>
             Inr \<lparr>minner = [], aggregations = ops, grouping_len = total_key_len - length ops\<rparr>)"

text \<open>The loop over the aggregations that merges one row of values into another.\<close>

fun merge_values :: "ext \<Rightarrow> meet_aggr list \<Rightarrow> tuple \<Rightarrow> tuple \<Rightarrow> temp_error + tuple \<times> bool" where
  "merge_values E [] target v = Inr (target, False)"
| "merge_values E (op # ops) (x # target) (y # v) =
     (case meet_update E op x y of
        Inl e \<Rightarrow> Inl (AggrFailed e)
      | Inr (x', changed) \<Rightarrow>
          (case merge_values E ops target v of
             Inl e \<Rightarrow> Inl e
           | Inr (target', changed') \<Rightarrow> Inr (x' # target', changed \<or> changed')))"
| "merge_values E (op # ops) _ _ = Inl TempPanic"

definition meet_put :: "ext \<Rightarrow> meet_aggr_store \<Rightarrow> tuple \<Rightarrow> temp_error + meet_aggr_store \<times> bool" where
  "meet_put E st t =
     (case split_at (grouping_len st) t of
        None \<Rightarrow> Inl TempPanic
      | Some (key_part, val_part) \<Rightarrow>
          (case bmap_get (cmp_tuple E) (minner st) key_part of
             Some prev_aggr \<Rightarrow>
               map_ok (\<lambda>(vals, changed).
                   (st\<lparr>minner := bmap_insert (cmp_tuple E) key_part vals (minner st)\<rparr>, changed))
                 (merge_values E (aggregations st) prev_aggr val_part)
           | None \<Rightarrow>
               Inr (st\<lparr>minner := bmap_insert (cmp_tuple E) key_part val_part (minner st)\<rparr>, True)))"

definition meet_range_iter ::
  "ext \<Rightarrow> meet_aggr_store \<Rightarrow> tuple \<Rightarrow> tuple \<Rightarrow> bool \<Rightarrow> temp_error + tuple_in_iter list" where
  "meet_range_iter E st lower upper upper_inclusive =
     (let lower_key = (if grouping_len st < length lower then take (grouping_len st) lower else lower);
          upper_key = (if grouping_len st < length upper then take (grouping_len st) upper else upper)
      in map_ok (\<lambda>rows. filter (\<lambda>ret.
             tii_cmp E ret lower \<noteq> Less \<and>
             (case tii_cmp E ret upper of Less \<Rightarrow> True | Equal \<Rightarrow> upper_inclusive | Greater \<Rightarrow> False))
           (map (\<lambda>(k, v). TupleInIter k v False) rows))
           (tuple_range E (minner st) lower_key upper_key True))"

fun meet_merge_loop ::
  "ext \<Rightarrow> meet_aggr list \<Rightarrow> (tuple, tuple) btree \<Rightarrow> (tuple, tuple) btree \<Rightarrow> (tuple, tuple) btree \<Rightarrow>
   temp_error + (tuple, tuple) btree \<times> (tuple, tuple) btree" where
  "meet_merge_loop E ops self prev [] = Inr (self, prev)"
| "meet_merge_loop E ops self prev ((k, v) # new) =
     (case bmap_get (cmp_tuple E) self k of
        None \<Rightarrow>
          meet_merge_loop E ops (bmap_insert (cmp_tuple E) k v self) (bmap_insert (cmp_tuple E) k v prev) new
      | Some target \<Rightarrow>
          (case merge_values E ops target v of
             Inl e \<Rightarrow> Inl e
           | Inr (target', changed) \<Rightarrow>
               meet_merge_loop E ops (bmap_insert (cmp_tuple E) k target' self)
                 (if changed then bmap_insert (cmp_tuple E) k target' prev else prev) new))"

definition meet_merge_in ::
  "ext \<Rightarrow> meet_aggr_store \<Rightarrow> meet_aggr_store \<Rightarrow> meet_aggr_store \<Rightarrow>
   temp_error + meet_aggr_store \<times> meet_aggr_store \<times> bool" where
  "meet_merge_in E self prev new =
     (let prev = prev\<lparr>minner := []\<rparr> in
      if minner new = [] then Inr (self, prev, False)
      else if minner self = [] then Inr (new, prev, True)
      else map_ok (\<lambda>(total, delta). (self\<lparr>minner := total\<rparr>, prev\<lparr>minner := delta\<rparr>, False))
        (meet_merge_loop E (aggregations self) (minner self) [] (minner new)))"

section \<open>Epoch stores\<close>

datatype temp_store = Normal regular_temp_store | MeetAggr meet_aggr_store

fun temp_store_exists :: "ext \<Rightarrow> temp_store \<Rightarrow> tuple \<Rightarrow> temp_error + bool" where
  "temp_store_exists E (Normal n) key = Inr (regular_exists E n key)"
| "temp_store_exists E (MeetAggr m) key = meet_exists E m key"

fun temp_store_range_iter ::
  "ext \<Rightarrow> temp_store \<Rightarrow> tuple \<Rightarrow> tuple \<Rightarrow> bool \<Rightarrow> temp_error + tuple_in_iter list" where
  "temp_store_range_iter E (Normal n) lower upper incl = regular_range_iter E n lower upper incl"
| "temp_store_range_iter E (MeetAggr m) lower upper incl = meet_range_iter E m lower upper incl"

fun temp_store_is_empty :: "temp_store \<Rightarrow> bool" where
  "temp_store_is_empty (Normal n) = (n = [])"
| "temp_store_is_empty (MeetAggr m) = (minner m = [])"

record epoch_store =
  total :: temp_store
  delta :: temp_store
  use_total_for_delta :: bool
  es_arity :: nat

definition epoch_exists :: "ext \<Rightarrow> epoch_store \<Rightarrow> tuple \<Rightarrow> temp_error + bool" where
  "epoch_exists E st key = temp_store_exists E (total st) key"

definition new_normal :: "nat \<Rightarrow> epoch_store" where
  "new_normal n = \<lparr>total = Normal [], delta = Normal [], use_total_for_delta = True, es_arity = n\<rparr>"

definition new_meet :: "(aggr_name \<times> data_value list) option list \<Rightarrow> temp_error + epoch_store" where
  "new_meet aggrs =
     map_ok (\<lambda>st. \<lparr>total = MeetAggr st, delta = MeetAggr st, use_total_for_delta = True, es_arity = length aggrs\<rparr>)
       (meet_store_new aggrs)"

definition epoch_merge_in :: "ext \<Rightarrow> epoch_store \<Rightarrow> temp_store \<Rightarrow> temp_error + epoch_store" where
  "epoch_merge_in E st new =
     (case (total st, delta st, new) of
        (Normal t, Normal p, Normal n) \<Rightarrow>
          (case regular_merge_in E t p n of (t', p', use) \<Rightarrow>
             Inr (st\<lparr>total := Normal t', delta := Normal p', use_total_for_delta := use\<rparr>))
      | (MeetAggr t, MeetAggr p, MeetAggr n) \<Rightarrow>
          map_ok (\<lambda>(t', p', use). st\<lparr>total := MeetAggr t', delta := MeetAggr p', use_total_for_delta := use\<rparr>)
            (meet_merge_in E t p n)
      | _ \<Rightarrow> Inl TempPanic)"

definition has_delta :: "epoch_store \<Rightarrow> bool" where
  "has_delta st =
     (if use_total_for_delta st then \<not> temp_store_is_empty (total st)
      else \<not> temp_store_is_empty (delta st))"

definition epoch_range_iter ::
  "ext \<Rightarrow> epoch_store \<Rightarrow> tuple \<Rightarrow> tuple \<Rightarrow> bool \<Rightarrow> temp_error + tuple_in_iter list" where
  "epoch_range_iter E st lower upper incl = temp_store_range_iter E (total st) lower upper incl"

definition delta_range_iter ::
  "ext \<Rightarrow> epoch_store \<Rightarrow> tuple \<Rightarrow> tuple \<Rightarrow> bool \<Rightarrow> temp_error + tuple_in_iter list" where
  "delta_range_iter E st lower upper incl =
     (if use_total_for_delta st then temp_store_range_iter E (total st) lower upper incl
      else temp_store_range_iter E (delta st) lower upper incl)"

definition prefix_iter :: "ext \<Rightarrow> epoch_store \<Rightarrow> tuple \<Rightarrow> temp_error + tuple_in_iter list" where
  "prefix_iter E st prefix = epoch_range_iter E st prefix (prefix @ [Bot]) True"

definition delta_prefix_iter :: "ext \<Rightarrow> epoch_store \<Rightarrow> tuple \<Rightarrow> temp_error + tuple_in_iter list" where
  "delta_prefix_iter E st prefix = delta_range_iter E st prefix (prefix @ [Bot]) True"

definition all_iter :: "ext \<Rightarrow> epoch_store \<Rightarrow> temp_error + tuple_in_iter list" where
  "all_iter E st = prefix_iter E st []"

definition delta_all_iter :: "ext \<Rightarrow> epoch_store \<Rightarrow> temp_error + tuple_in_iter list" where
  "delta_all_iter E st = delta_prefix_iter E st []"

definition early_returned_iter :: "ext \<Rightarrow> epoch_store \<Rightarrow> temp_error + tuple_in_iter list" where
  "early_returned_iter E st = map_ok (filter (\<lambda>t. \<not> should_skip t)) (all_iter E st)"

section \<open>Rows\<close>

lemma tii_collect_eq: "tii_collect (TupleInIter a b s) idx = drop idx (a @ b)"
proof (induction "length a + length b - idx" arbitrary: idx)
  case 0
  then show ?case by (subst tii_collect.simps) (simp add: tii_next_def)
next
  case (Suc n)
  then have "idx < length (a @ b)" by simp
  then have "drop idx (a @ b) = (a @ b) ! idx # drop (Suc idx) (a @ b)" by (rule Cons_nth_drop_Suc [symmetric])
  with Suc show ?case by (subst tii_collect.simps) (auto simp: tii_next_def nth_append)
qed

lemma into_tuple_eq [simp]: "into_tuple (TupleInIter a b s) = a @ b"
  by (simp add: into_tuple_def tii_collect_eq)

lemma tii_get_eq: "tii_get t idx = (if idx < length (into_tuple t) then Some (into_tuple t ! idx) else None)"
  by (cases t) (auto simp: tii_get_def nth_append)

section \<open>Merging regular stores\<close>

lemma bmap_contains_insert:
  "total_cmp cmp \<Longrightarrow> bmap_contains_key cmp (bmap_insert cmp k v m) z \<longleftrightarrow> cmp z k = Equal \<or> bmap_contains_key cmp m z"
  by (simp add: bmap_contains_key_def total_cmp.bmap_get_insert)

lemma bmap_contains_cong:
  assumes "total_cmp cmp" and "cmp z k = Equal"
  shows "bmap_get cmp m z = bmap_get cmp m k" "bmap_contains_key cmp m z \<longleftrightarrow> bmap_contains_key cmp m k"
proof -
  have "cmp z w = cmp k w" for w by (rule total_cmp.cmp_eq_left [OF assms])
  then show eq: "bmap_get cmp m z = bmap_get cmp m k" by (induction m) auto
  then show "bmap_contains_key cmp m z \<longleftrightarrow> bmap_contains_key cmp m k" by (simp add: bmap_contains_key_def)
qed

lemma bmap_contains_simps [simp]:
  "\<not> bmap_contains_key cmp [] z"
  "bmap_contains_key cmp ((k, v) # m) z \<longleftrightarrow> cmp z k = Equal \<or> bmap_contains_key cmp m z"
  by (simp_all add: bmap_contains_key_def)

lemma regular_merge_loop_contains:
  assumes "ext_ord E"
  shows "regular_merge_loop E self prev new = (self', prev') \<Longrightarrow>
    (regular_exists E self' z \<longleftrightarrow> regular_exists E self z \<or> regular_exists E new z) \<and>
    (regular_exists E prev' z \<longleftrightarrow> regular_exists E prev z \<or> regular_exists E new z \<and> \<not> regular_exists E self z)"
proof (induction new arbitrary: self prev)
  case Nil
  then show ?case by (simp add: regular_exists_def)
next
  case (Cons p new)
  note tc = total_cmp_tuple [OF assms]
  obtain k v where p: "p = (k, v)" by (cases p)
  have cong: "cmp_tuple E z k = Equal \<Longrightarrow> bmap_contains_key (cmp_tuple E) self z \<longleftrightarrow> bmap_contains_key (cmp_tuple E) self k"
    by (rule bmap_contains_cong(2) [OF tc])
  from Cons.IH [OF Cons.prems [unfolded p regular_merge_loop.simps]] cong show ?case
    by (auto simp: p regular_exists_def bmap_contains_insert [OF tc])
qed

lemma regular_merge_loop_wf:
  assumes "ext_ord E"
  shows "regular_merge_loop E self prev new = (self', prev') \<Longrightarrow> bmap_wf (cmp_tuple E) self \<Longrightarrow>
    bmap_wf (cmp_tuple E) prev \<Longrightarrow> bmap_wf (cmp_tuple E) self' \<and> bmap_wf (cmp_tuple E) prev'"
proof (induction new arbitrary: self prev)
  case (Cons p new)
  note ins = total_cmp.bmap_wf_insert [OF total_cmp_tuple [OF assms]]
  obtain k v where p: "p = (k, v)" by (cases p)
  show ?case
    by (rule Cons.IH [OF Cons.prems(1) [unfolded p regular_merge_loop.simps]])
      (use Cons.prems(2,3) ins in auto)
qed simp

text \<open>The delta an epoch store offers to the next epoch.\<close>

definition current_delta :: "epoch_store \<Rightarrow> temp_store" where
  "current_delta st = (if use_total_for_delta st then total st else delta st)"

fun temp_store_wf :: "ext \<Rightarrow> temp_store \<Rightarrow> bool" where
  "temp_store_wf E (Normal n) = bmap_wf (cmp_tuple E) n"
| "temp_store_wf E (MeetAggr m) =
     (bmap_wf (cmp_tuple E) (minner m) \<and>
      (\<forall>(k, v) \<in> set (minner m). length k = grouping_len m \<and> length v = length (aggregations m)))"

section \<open>Merging meet stores\<close>

text \<open>
  What a meet store holds for a group, as the semilattice values its aggregated columns stand for.
\<close>

definition group_ok :: "ext \<Rightarrow> (meet_aggr \<Rightarrow> nat) \<Rightarrow> meet_aggr list \<Rightarrow> tuple \<Rightarrow> bool" where
  "group_ok E n ops v \<longleftrightarrow> list_all2 (\<lambda>op x. meet_ok E (n op) op x) ops v"

definition row_abs :: "ext \<Rightarrow> meet_aggr list \<Rightarrow> tuple \<Rightarrow> abs_value list" where
  "row_abs E ops v = map2 (meet_abs E) ops v"

definition row_join :: "meet_aggr list \<Rightarrow> abs_value list \<Rightarrow> abs_value list \<Rightarrow> abs_value list" where
  "row_join ops a b = map2 (\<lambda>op (x, y). abs_join op x y) ops (zip a b)"

definition exact_op :: "meet_aggr \<Rightarrow> bool" where
  "exact_op op \<longleftrightarrow> op \<notin> {MeetAggrAnd, MeetAggrOr, MeetAggrBitAnd, MeetAggrBitOr}"

lemma merge_values_refines:
  assumes "group_ok E n ops x" and "group_ok E n ops y"
  shows "\<exists>z c. merge_values E ops x y = Inr (z, c) \<and> group_ok E n ops z \<and>
    row_abs E ops z = row_join ops (row_abs E ops x) (row_abs E ops y) \<and>
    (list_all exact_op ops \<longrightarrow> (c \<longleftrightarrow> row_abs E ops z \<noteq> row_abs E ops x))"
  using assms
proof (induction ops arbitrary: x y)
  case Nil
  then show ?case by (auto simp: group_ok_def row_abs_def row_join_def)
next
  case (Cons op ops)
  then obtain a x' b y' where x: "x = a # x'" "meet_ok E (n op) op a" "group_ok E n ops x'"
    and y: "y = b # y'" "meet_ok E (n op) op b" "group_ok E n ops y'"
    by (auto simp: group_ok_def list_all2_Cons1)
  obtain d c where d: "meet_update E op a b = Inr (d, c)" "meet_ok E (n op) op d"
    "meet_abs E op d = abs_join op (meet_abs E op a) (meet_abs E op b)"
    using meet.update_refines [OF x(2) y(2)] by blast
  have flag: "exact_op op \<Longrightarrow> c \<longleftrightarrow> meet_abs E op d \<noteq> meet_abs E op a"
    using meet_flag_changes [OF _ x(2) y(2) d(1)] by (simp add: exact_op_def)
  obtain z' c' where z': "merge_values E ops x' y' = Inr (z', c')" "group_ok E n ops z'"
    "row_abs E ops z' = row_join ops (row_abs E ops x') (row_abs E ops y')"
    "list_all exact_op ops \<longrightarrow> (c' \<longleftrightarrow> row_abs E ops z' \<noteq> row_abs E ops x')"
    using Cons.IH [OF x(3) y(3)] by blast
  show ?case
    using d z' flag x(1) y(1)
    by (auto simp: group_ok_def row_abs_def row_join_def)
qed

definition merged :: "ext \<Rightarrow> meet_aggr list \<Rightarrow> tuple \<Rightarrow> tuple \<Rightarrow> tuple \<times> bool" where
  "merged E ops x y = projr (merge_values E ops x y)"

definition rows_ok :: "ext \<Rightarrow> (meet_aggr \<Rightarrow> nat) \<Rightarrow> meet_aggr list \<Rightarrow> (tuple, tuple) btree \<Rightarrow> bool" where
  "rows_ok E n ops m \<longleftrightarrow> (\<forall>p \<in> set m. group_ok E n ops (snd p))"

lemma rows_ok_get: "rows_ok E n ops m \<Longrightarrow> bmap_get cmp m z = Some v \<Longrightarrow> group_ok E n ops v"
  unfolding rows_ok_def using bmap_get_Some_in by fastforce

lemma rows_ok_insert: "rows_ok E n ops m \<Longrightarrow> group_ok E n ops v \<Longrightarrow> rows_ok E n ops (bmap_insert cmp k v m)"
  unfolding rows_ok_def by (induction cmp k v m rule: bmap_insert.induct) (auto split: ordering.splits)

lemma merge_values_ok:
  assumes "group_ok E n ops x" and "group_ok E n ops y"
  shows "merge_values E ops x y = Inr (merged E ops x y)" "group_ok E n ops (fst (merged E ops x y))"
    "row_abs E ops (fst (merged E ops x y)) = row_join ops (row_abs E ops x) (row_abs E ops y)"
    "list_all exact_op ops \<Longrightarrow> snd (merged E ops x y) \<longleftrightarrow> row_abs E ops (fst (merged E ops x y)) \<noteq> row_abs E ops x"
  using merge_values_refines [OF assms] by (auto simp: merged_def)

definition merge_get :: "ext \<Rightarrow> meet_aggr list \<Rightarrow> tuple option \<Rightarrow> tuple option \<Rightarrow> tuple option" where
  "merge_get E ops old new =
     (case new of
        None \<Rightarrow> old
      | Some v \<Rightarrow> Some (case old of None \<Rightarrow> v | Some t \<Rightarrow> fst (merged E ops t v)))"

definition merge_delta ::
  "ext \<Rightarrow> meet_aggr list \<Rightarrow> tuple option \<Rightarrow> tuple option \<Rightarrow> tuple option \<Rightarrow> tuple option" where
  "merge_delta E ops old new prev =
     (case new of
        None \<Rightarrow> prev
      | Some v \<Rightarrow>
          (case old of
             None \<Rightarrow> Some v
           | Some t \<Rightarrow> if snd (merged E ops t v) then Some (fst (merged E ops t v)) else prev))"

lemma meet_merge_loop_get:
  assumes "ext_ord E"
  shows "bmap_wf (cmp_tuple E) new \<Longrightarrow> rows_ok E n ops self \<Longrightarrow> rows_ok E n ops new \<Longrightarrow>
    \<exists>self' prev'. meet_merge_loop E ops self prev new = Inr (self', prev') \<and>
      (\<forall>z. bmap_get (cmp_tuple E) self' z =
         merge_get E ops (bmap_get (cmp_tuple E) self z) (bmap_get (cmp_tuple E) new z)) \<and>
      (\<forall>z. bmap_get (cmp_tuple E) prev' z =
         merge_delta E ops (bmap_get (cmp_tuple E) self z) (bmap_get (cmp_tuple E) new z)
           (bmap_get (cmp_tuple E) prev z))"
proof (induction new arbitrary: self prev)
  case Nil
  then show ?case by (simp add: merge_get_def merge_delta_def)
next
  case (Cons p new)
  note tc = total_cmp_tuple [OF assms]
  note get = total_cmp.bmap_get_insert [OF tc]
  note cong = bmap_contains_cong(1) [OF tc]
  obtain k v where p: "p = (k, v)" by (cases p)
  have v: "group_ok E n ops v" and new: "rows_ok E n ops new" and wf: "bmap_wf (cmp_tuple E) new"
    using Cons.prems by (auto simp: p rows_ok_def bmap_wf_Cons)
  have fresh: "cmp_tuple E z k = Equal \<Longrightarrow> bmap_get (cmp_tuple E) new z = None" for z
    using Cons.prems(1) total_cmp.cmp_eq_left [OF tc, of z k] by (auto simp: p bmap_wf_Cons bmap_get_None)
  define old where "old = bmap_get (cmp_tuple E) self k"
  define w where "w = the (merge_get E ops old (Some v))"
  define prev1 where "prev1 = (if merge_delta E ops old (Some v) None = None then prev else bmap_insert (cmp_tuple E) k w prev)"
  have w: "group_ok E n ops w"
    using v merge_values_ok(2) rows_ok_get [OF Cons.prems(2)]
    by (auto simp: w_def merge_get_def old_def split: option.splits)
  have step: "meet_merge_loop E ops self prev (p # new) =
      meet_merge_loop E ops (bmap_insert (cmp_tuple E) k w self) prev1 new"
    using merge_values_ok(1) [OF rows_ok_get [OF Cons.prems(2)] v]
    by (auto simp: p w_def prev1_def merge_get_def merge_delta_def old_def split: option.splits prod.splits)
  obtain self' prev' where loop: "meet_merge_loop E ops (bmap_insert (cmp_tuple E) k w self) prev1 new = Inr (self', prev')"
    and self': "\<And>z. bmap_get (cmp_tuple E) self' z = merge_get E ops
        (bmap_get (cmp_tuple E) (bmap_insert (cmp_tuple E) k w self) z) (bmap_get (cmp_tuple E) new z)"
    and prev': "\<And>z. bmap_get (cmp_tuple E) prev' z = merge_delta E ops
        (bmap_get (cmp_tuple E) (bmap_insert (cmp_tuple E) k w self) z) (bmap_get (cmp_tuple E) new z)
        (bmap_get (cmp_tuple E) prev1 z)"
    using Cons.IH [OF wf rows_ok_insert [OF Cons.prems(2) w] new] by blast
  have "bmap_get (cmp_tuple E) self' z = merge_get E ops (bmap_get (cmp_tuple E) self z)
      (bmap_get (cmp_tuple E) (p # new) z)" for z
  proof (cases "cmp_tuple E z k = Equal")
    case True
    then show ?thesis
      using cong [OF True, of self] fresh [OF True] by (simp add: self' p get w_def merge_get_def old_def)
  next
    case False
    then show ?thesis by (simp add: self' p get)
  qed
  moreover have "bmap_get (cmp_tuple E) prev' z = merge_delta E ops (bmap_get (cmp_tuple E) self z)
      (bmap_get (cmp_tuple E) (p # new) z) (bmap_get (cmp_tuple E) prev z)" for z
  proof (cases "cmp_tuple E z k = Equal")
    case True
    then show ?thesis
      using cong [OF True, of self] fresh [OF True]
      by (auto simp: prev' p get w_def prev1_def merge_get_def merge_delta_def old_def split: option.splits)
  next
    case False
    then show ?thesis by (simp add: prev' prev1_def p get)
  qed
  ultimately show ?case using step loop by auto
qed

section \<open>Iterating over a prefix\<close>

text \<open>A row starts with a prefix when its first columns are equal to it under the order of values.\<close>

definition starts_with :: "ext \<Rightarrow> tuple \<Rightarrow> tuple \<Rightarrow> bool" where
  "starts_with E p t \<longleftrightarrow> length p \<le> length t \<and> cmp_tuple E p (take (length p) t) = Equal"

lemma starts_with_bounds:
  assumes "ext_ord E" and "Bot \<notin> set t"
  shows "cmp_tuple E p t \<noteq> Greater \<and> cmp_tuple E t (p @ [Bot]) \<noteq> Greater \<longleftrightarrow> starts_with E p t"
    and "cmp_tuple E t (p @ [Bot]) \<noteq> Equal"
  using assms(2)
proof (induction p arbitrary: t)
  case Nil
  {
    case 1
    then show ?case by (cases t) (auto simp: starts_with_def cmp_value_Bot)
  next
    case 2
    then show ?case by (cases t) (auto simp: cmp_value_Bot)
  }
next
  case (Cons a p)
  {
    case 1
    show ?case
    proof (cases t)
      case (Cons v r)
      have "cmp_value E v a = ordering_swap (cmp_value E a v)"
        by (rule total_cmp.cmp_swap [OF total_cmp_value [OF assms(1)]])
      with Cons.IH(1) [of r] 1 \<open>t = v # r\<close> show ?thesis
        by (cases "cmp_value E a v") (auto simp: starts_with_def)
    qed (simp add: starts_with_def)
  next
    case 2
    then show ?case using Cons.IH(2) by (cases t) auto
  }
qed

fun store_rows :: "temp_store \<Rightarrow> tuple list" where
  "store_rows (Normal n) = map fst n"
| "store_rows (MeetAggr m) = map (\<lambda>(k, v). k @ v) (minner m)"

lemma in_range_iff:
  "cmp_tuple E p t \<noteq> Greater \<and> (cmp_tuple E t q = Less \<or> True \<and> cmp_tuple E t q = Equal) \<longleftrightarrow>
   cmp_tuple E p t \<noteq> Greater \<and> cmp_tuple E t q \<noteq> Greater"
  by (cases "cmp_tuple E t q") auto

lemma lex_cmp_take: "lex_cmp f xs ys = Equal \<Longrightarrow> lex_cmp f (take n xs) (take n ys) = Equal"
  by (induction f xs ys arbitrary: n rule: lex_cmp.induct) (auto simp: take_Cons split: nat.splits)

lemma prefix_bounds_ordered: "ext_ord E \<Longrightarrow> cmp_tuple E p (p @ [Bot]) = Less"
  using lex_cmp_append_refl [of "cmp_value E" p "[]" "[Bot]"] total_cmp.cmp_refl [OF total_cmp_value] by simp

lemma regular_prefix_iter:
  assumes "ext_ord E" and "\<forall>t \<in> fst ` set n. Bot \<notin> set t"
  shows "\<exists>its. regular_range_iter E n p (p @ [Bot]) True = Inr its \<and>
    map into_tuple its = filter (starts_with E p) (map fst n)"
proof -
  have "filter (\<lambda>(k, v). cmp_tuple E p k \<noteq> Greater \<and> (cmp_tuple E k (p @ [Bot]) = Less \<or> True \<and> cmp_tuple E k (p @ [Bot]) = Equal)) n
      = filter (starts_with E p \<circ> fst) n"
  proof (rule filter_cong [OF refl])
    fix q
    assume "q \<in> set n"
    then have "Bot \<notin> set (fst q)" using assms(2) by simp
    from starts_with_bounds(1) [OF assms(1) this, of p]
    show "(case q of (k, v) \<Rightarrow> cmp_tuple E p k \<noteq> Greater \<and> (cmp_tuple E k (p @ [Bot]) = Less \<or>
        True \<and> cmp_tuple E k (p @ [Bot]) = Equal)) = (starts_with E p \<circ> fst) q"
      unfolding in_range_iff by (simp add: split_def)
  qed
  then show ?thesis
    using prefix_bounds_ordered [OF assms(1), of p]
    by (simp add: regular_range_iter_def tuple_range_def bmap_range_def filter_map split_def comp_def)
qed

lemma meet_prefix_keys:
  assumes "ext_ord E" and "Bot \<notin> set k" and "length k = g" and "starts_with E p (k @ v)"
    and "lo = (if g < length p then take g p else p)"
    and "hi = (if g < length (p @ [Bot]) then take g (p @ [Bot]) else p @ [Bot])"
  shows "cmp_tuple E lo k \<noteq> Greater" "cmp_tuple E k hi \<noteq> Greater"
proof -
  note tc = total_cmp_tuple [OF assms(1)]
  have "cmp_tuple E lo k \<noteq> Greater \<and> cmp_tuple E k hi \<noteq> Greater"
  proof (cases "length p < g")
    case True
    then have "starts_with E p k" using assms(3,4) by (simp add: starts_with_def)
    then show ?thesis
      using starts_with_bounds(1) [OF assms(1,2), of p] True assms(5,6) by simp
  next
    case False
    then have eq: "lo = take g p" "hi = take g p" using assms(5,6) by auto
    have "cmp_tuple E (take g p) (take g (take (length p) (k @ v))) = Equal"
      by (rule lex_cmp_take) (use assms(4) in \<open>simp add: starts_with_def\<close>)
    then have "cmp_tuple E (take g p) k = Equal"
      using False assms(3) by (simp add: take_append min_def)
    moreover from this have "cmp_tuple E k (take g p) = Equal"
      by (simp only: total_cmp.cmp_Equal_sym [OF tc, of k])
    ultimately show ?thesis by (simp add: eq)
  qed
  then show "cmp_tuple E lo k \<noteq> Greater" "cmp_tuple E k hi \<noteq> Greater" by simp_all
qed

lemma meet_prefix_bounds_ordered:
  assumes "ext_ord E" and "lo = (if g < length p then take g p else p)"
    and "hi = (if g < length (p @ [Bot]) then take g (p @ [Bot]) else p @ [Bot])"
  shows "cmp_tuple E lo hi \<noteq> Greater"
proof (cases "length p < g")
  case True
  then show ?thesis using prefix_bounds_ordered [OF assms(1), of p] assms(2,3) by simp
next
  case False
  then have "lo = hi" using assms(2,3) by auto
  then show ?thesis using total_cmp.cmp_refl [OF total_cmp_tuple [OF assms(1)]] by simp
qed

lemma meet_prefix_iter:
  assumes "ext_ord E" and "temp_store_wf E (MeetAggr m)" and "\<forall>t \<in> set (store_rows (MeetAggr m)). Bot \<notin> set t"
  shows "\<exists>its. meet_range_iter E m p (p @ [Bot]) True = Inr its \<and>
    map into_tuple its = filter (starts_with E p) (store_rows (MeetAggr m))"
proof -
  let ?g = "grouping_len m"
  define lo where "lo = (if ?g < length p then take ?g p else p)"
  define hi where "hi = (if ?g < length (p @ [Bot]) then take ?g (p @ [Bot]) else p @ [Bot])"
  note keys = meet_prefix_keys [OF assms(1) _ _ _ lo_def hi_def]
  have range: "tuple_range E (minner m) lo hi True = Inr (filter (\<lambda>(k, v).
      cmp_tuple E lo k \<noteq> Greater \<and> cmp_tuple E k hi \<noteq> Greater) (minner m))"
    using meet_prefix_bounds_ordered [OF assms(1) lo_def hi_def]
    unfolding tuple_range_def bmap_range_def in_range_iff by simp
  let ?ok = "\<lambda>ret. tii_cmp E ret p \<noteq> Less \<and>
     (case tii_cmp E ret (p @ [Bot]) of Less \<Rightarrow> True | Equal \<Rightarrow> True | Greater \<Rightarrow> False)"
  have ok: "?ok (TupleInIter k v False) \<longleftrightarrow> starts_with E p (k @ v)" if "(k, v) \<in> set (minner m)" for k v
  proof -
    have "Bot \<notin> set (k @ v)" using assms(3) that by auto
    then have "cmp_tuple E p (k @ v) \<noteq> Greater \<and> cmp_tuple E (k @ v) (p @ [Bot]) \<noteq> Greater \<longleftrightarrow> starts_with E p (k @ v)"
      using starts_with_bounds(1) [OF assms(1)] by blast
    moreover have "cmp_tuple E (k @ v) p \<noteq> Less \<longleftrightarrow> cmp_tuple E p (k @ v) \<noteq> Greater"
      using total_cmp.cmp_Greater [OF total_cmp_tuple [OF assms(1)]] by blast
    ultimately show ?thesis
      unfolding tii_cmp_def into_tuple_eq by (auto split: ordering.splits)
  qed
  have "filter (\<lambda>(k, v). (cmp_tuple E lo k \<noteq> Greater \<and> cmp_tuple E k hi \<noteq> Greater) \<and> ?ok (TupleInIter k v False)) (minner m)
      = filter (\<lambda>(k, v). starts_with E p (k @ v)) (minner m)"
  proof (rule filter_cong [OF refl])
    fix q
    assume "q \<in> set (minner m)"
    then obtain k v where q: "q = (k, v)" "(k, v) \<in> set (minner m)" by (metis surj_pair)
    then have "Bot \<notin> set k" "length k = ?g" using assms(2,3) by auto
    from keys [OF this] ok [OF q(2)] show "(case q of (k, v) \<Rightarrow> (cmp_tuple E lo k \<noteq> Greater \<and>
        cmp_tuple E k hi \<noteq> Greater) \<and> ?ok (TupleInIter k v False)) = (case q of (k, v) \<Rightarrow> starts_with E p (k @ v))"
      unfolding q(1) prod.case by blast
  qed
  then have eq: "filter ?ok (map (\<lambda>(k, v). TupleInIter k v False) (filter (\<lambda>(k, v).
      cmp_tuple E lo k \<noteq> Greater \<and> cmp_tuple E k hi \<noteq> Greater) (minner m))) =
    map (\<lambda>(k, v). TupleInIter k v False) (filter (\<lambda>(k, v). starts_with E p (k @ v)) (minner m))"
    by (simp add: filter_map split_def comp_def)
  have "meet_range_iter E m p (p @ [Bot]) True =
      Inr (map (\<lambda>(k, v). TupleInIter k v False) (filter (\<lambda>(k, v). starts_with E p (k @ v)) (minner m)))"
    unfolding meet_range_iter_def Let_def lo_def [symmetric] hi_def [symmetric] range map_ok_simps eq ..
  then show ?thesis by (simp add: filter_map split_def comp_def)
qed

section \<open>Properties\<close>

lemma bmap_wf_exists: "ext_ord E \<Longrightarrow> (\<exists>z. bmap_contains_key (cmp_tuple E) m z) \<longleftrightarrow> m \<noteq> []"
  using total_cmp.cmp_refl [OF total_cmp_tuple] by (cases m) force+

text \<open>
  C23: Merging the rows of an epoch into the store of an ordinary rule keeps the stores ordered, adds
  exactly the new rows to the total, offers exactly the rows that were not there as the next delta, and
  reports a delta exactly when there is such a row.
\<close>

theorem epoch_merge_normal:
  assumes "ext_ord E" and "total st = Normal t" and "delta st = Normal d"
    and "bmap_wf (cmp_tuple E) t" and "bmap_wf (cmp_tuple E) n"
  shows "\<exists>st'. epoch_merge_in E st (Normal n) = Inr st' \<and>
    temp_store_wf E (total st') \<and> temp_store_wf E (current_delta st') \<and>
    (\<forall>z. epoch_exists E st' z = Inr (regular_exists E t z \<or> regular_exists E n z)) \<and>
    (\<forall>z. temp_store_exists E (current_delta st') z = Inr (regular_exists E n z \<and> \<not> regular_exists E t z)) \<and>
    (has_delta st' \<longleftrightarrow> (\<exists>z. regular_exists E n z \<and> \<not> regular_exists E t z))"
proof -
  obtain t' d' where loop: "regular_merge_loop E t [] n = (t', d')" by (cases "regular_merge_loop E t [] n")
  note get = regular_merge_loop_contains [OF assms(1) loop]
  note wf = regular_merge_loop_wf [OF assms(1) loop assms(4) bmap_wf_Nil]
  note ex = bmap_wf_exists [OF assms(1)]
  consider "n = []" | "n \<noteq> []" "t = []" | "n \<noteq> []" "t \<noteq> []" by blast
  then show ?thesis
  proof cases
    case 1
    with assms show ?thesis
      by (simp add: epoch_merge_in_def regular_merge_in_def current_delta_def epoch_exists_def has_delta_def
          regular_exists_def)
  next
    case 2
    with assms ex [of n] show ?thesis
      by (simp add: epoch_merge_in_def regular_merge_in_def current_delta_def epoch_exists_def has_delta_def
          regular_exists_def)
  next
    case 3
    have "d' \<noteq> [] \<longleftrightarrow> (\<exists>z. regular_exists E n z \<and> \<not> regular_exists E t z)"
      using ex [of d'] get by (simp add: regular_exists_def)
    with 3 assms wf get loop show ?thesis
      by (simp add: epoch_merge_in_def regular_merge_in_def current_delta_def epoch_exists_def has_delta_def
          regular_exists_def)
  qed
qed

theorem epoch_merge_normal_witness:
  "\<exists>st'. epoch_merge_in ext_example (new_normal 1) (Normal [([Null], False)]) = Inr st' \<and> has_delta st'"
proof -
  have "regular_exists ext_example [([Null], False)] [Null] \<and> \<not> regular_exists ext_example [] [Null]"
    by (simp add: regular_exists_def)
  moreover have "\<exists>st'. epoch_merge_in ext_example (new_normal 1) (Normal [([Null], False)]) = Inr st' \<and>
      (has_delta st' \<longleftrightarrow> (\<exists>z. regular_exists ext_example [([Null], False)] z \<and> \<not> regular_exists ext_example [] z))"
    using epoch_merge_normal [of ext_example "new_normal 1" "[]" "[]" "[([Null], False)]"]
    by (auto simp: new_normal_def bmap_wf_def bset_wf_def)
  ultimately show ?thesis by blast
qed

definition group_abs :: "ext \<Rightarrow> meet_aggr list \<Rightarrow> meet_aggr_store \<Rightarrow> tuple \<Rightarrow> abs_value list option" where
  "group_abs E ops m z = map_option (row_abs E ops) (bmap_get (cmp_tuple E) (minner m) z)"

lemma merge_get_abs:
  assumes "\<And>x. old = Some x \<Longrightarrow> group_ok E n ops x" and "\<And>y. new = Some y \<Longrightarrow> group_ok E n ops y"
  shows "map_option (row_abs E ops) (merge_get E ops old new) =
      combine_option (row_join ops) (map_option (row_abs E ops) old) (map_option (row_abs E ops) new)"
    and "merge_delta E ops old new None \<in> {None, merge_get E ops old new}"
    and "list_all exact_op ops \<Longrightarrow> map_option (row_abs E ops) (merge_delta E ops old new None) =
      (if map_option (row_abs E ops) (merge_get E ops old new) = map_option (row_abs E ops) old then None
       else map_option (row_abs E ops) (merge_get E ops old new))"
  using assms merge_values_ok(3,4) [of E n ops]
  by (auto simp: merge_get_def merge_delta_def split: option.splits)

lemma bmap_insert_same:
  "bmap_get cmp m k = Some v \<Longrightarrow> bmap_wf cmp m \<Longrightarrow> total_cmp cmp \<Longrightarrow> bmap_insert cmp k v m = m"
proof (induction m)
  case (Cons p m)
  obtain k' v' where p: "p = (k', v')" by (cases p)
  show ?case
  proof (cases "cmp k k'")
    case Less
    then have "\<forall>q \<in> set m. cmp k (fst q) = Less"
      using Cons.prems(2,3) p by (auto simp: bmap_wf_Cons intro: total_cmp.cmp_trans_less)
    then have "bmap_get cmp m k = None" by (induction m) auto
    with Cons.prems(1) Less show ?thesis by (simp add: p)
  qed (use Cons in \<open>auto simp: p bmap_wf_Cons\<close>)
qed simp

text \<open>Merging rows that an \<open>and\<close> or \<open>or\<close> store already holds leaves the rows and fills the delta.\<close>

lemma and_or_merge_loop:
  assumes "ext_ord E" and "op \<in> {MeetAggrAnd, MeetAggrOr}" and "bmap_wf (cmp_tuple E) self"
    and "\<forall>v \<in> snd ` set self. \<exists>b. v = [Bool b]"
  shows "set new \<subseteq> set self \<Longrightarrow> new \<noteq> [] \<or> prev \<noteq> [] \<Longrightarrow>
    \<exists>prev'. meet_merge_loop E [op] self prev new = Inr (self, prev') \<and> prev' \<noteq> []"
proof (induction new arbitrary: prev)
  case (Cons p new)
  note tc = total_cmp_tuple [OF assms(1)]
  obtain k v where p: "p = (k, v)" by (cases p)
  have "(k, v) \<in> set self" using Cons.prems(1) by (simp add: p)
  then have get: "bmap_get (cmp_tuple E) self k = Some v" and "\<exists>b. v = [Bool b]"
    using total_cmp.bmap_get_in [OF tc assms(3)] assms(4) by force+
  then have "merge_values E [op] v v = Inr (v, True)"
    using assms(2) by (auto simp: meet_and_update_def meet_or_update_def)
  moreover have "bmap_insert (cmp_tuple E) k v prev \<noteq> []"
    by (cases prev) (auto split: ordering.splits)
  ultimately show ?case
    using Cons.IH [of "bmap_insert (cmp_tuple E) k v prev"] Cons.prems(1)
    by (simp add: p get bmap_insert_same [OF get assms(3) tc])
qed simp

text \<open>
  C24: Merging the rows of an epoch into a store of meet aggregations. What a group stands for is, column
  by column, a truth value, a number as the code compares it, a set of elements, a byte string, a length or
  a cost. For every list of aggregations and rows of values they are meant for, the merge succeeds, each
  group of the new total stands for the semilattice join of what the group stood for in the old total and
  in the new rows, and the rows of the next delta are rows of the new total. When all the aggregations
  are among \<open>min\<close>, \<open>max\<close>, \<open>choice\<close>, \<open>union\<close>, \<open>intersection\<close>, \<open>shortest\<close> and \<open>min_cost\<close>, the delta holds
  exactly the groups that stand for something new; for \<open>and\<close>, \<open>or\<close>, \<open>bit_and\<close> and \<open>bit_or\<close> it need not.
\<close>

theorem epoch_merge_meet:
  assumes "ext_ord E" and "total st = MeetAggr t" and "delta st = MeetAggr d"
    and "aggregations t = ops" and "bmap_wf (cmp_tuple E) (minner n)"
    and "rows_ok E len ops (minner t)" and "rows_ok E len ops (minner n)"
  shows "\<exists>st' t' d'. epoch_merge_in E st (MeetAggr n) = Inr st' \<and>
    total st' = MeetAggr t' \<and> current_delta st' = MeetAggr d' \<and>
    (\<forall>z. group_abs E ops t' z = combine_option (row_join ops) (group_abs E ops t z) (group_abs E ops n z)) \<and>
    (\<forall>z. bmap_get (cmp_tuple E) (minner d') z \<in> {None, bmap_get (cmp_tuple E) (minner t') z}) \<and>
    (list_all exact_op ops \<longrightarrow> (\<forall>z. bmap_get (cmp_tuple E) (minner d') z =
       (if group_abs E ops t' z = group_abs E ops t z then None else bmap_get (cmp_tuple E) (minner t') z)))"
proof -
  obtain t' d' where loop: "meet_merge_loop E ops (minner t) [] (minner n) = Inr (t', d')"
    and get: "\<And>z. bmap_get (cmp_tuple E) t' z =
      merge_get E ops (bmap_get (cmp_tuple E) (minner t) z) (bmap_get (cmp_tuple E) (minner n) z)"
      "\<And>z. bmap_get (cmp_tuple E) d' z =
      merge_delta E ops (bmap_get (cmp_tuple E) (minner t) z) (bmap_get (cmp_tuple E) (minner n) z) None"
    using meet_merge_loop_get [OF assms(1,5,6,7), of "[]"] by auto
  note ok = rows_ok_get [OF assms(6)] rows_ok_get [OF assms(7)]
  have abs: "map_option (row_abs E ops) (bmap_get (cmp_tuple E) t' z) = combine_option (row_join ops)
        (map_option (row_abs E ops) (bmap_get (cmp_tuple E) (minner t) z))
        (map_option (row_abs E ops) (bmap_get (cmp_tuple E) (minner n) z))"
    and in_total: "bmap_get (cmp_tuple E) d' z \<in> {None, bmap_get (cmp_tuple E) t' z}"
    and exact: "list_all exact_op ops \<Longrightarrow> map_option (row_abs E ops) (bmap_get (cmp_tuple E) d' z) =
      (if map_option (row_abs E ops) (bmap_get (cmp_tuple E) t' z) =
          map_option (row_abs E ops) (bmap_get (cmp_tuple E) (minner t) z) then None
       else map_option (row_abs E ops) (bmap_get (cmp_tuple E) t' z))" for z
    unfolding get by (rule merge_get_abs [OF ok]; assumption)+
  have "bmap_get (cmp_tuple E) d' z = (if map_option (row_abs E ops) (bmap_get (cmp_tuple E) t' z) =
      map_option (row_abs E ops) (bmap_get (cmp_tuple E) (minner t) z) then None else bmap_get (cmp_tuple E) t' z)"
    if "list_all exact_op ops" for z
    using in_total [of z] exact [OF that, of z] by (auto split: if_splits)
  note delta = this abs in_total
  consider "minner n = []" | "minner n \<noteq> []" "minner t = []" | "minner n \<noteq> []" "minner t \<noteq> []" by blast
  then show ?thesis
  proof cases
    case 1
    with assms show ?thesis
      by (simp add: epoch_merge_in_def meet_merge_in_def current_delta_def group_abs_def)
  next
    case 2
    with assms show ?thesis
      by (simp add: epoch_merge_in_def meet_merge_in_def current_delta_def group_abs_def)
  next
    case 3
    show ?thesis
      using 3 assms loop delta
      by (simp add: epoch_merge_in_def meet_merge_in_def current_delta_def group_abs_def)
  qed
qed

definition min_store :: "data_value \<Rightarrow> meet_aggr_store" where
  "min_store v = \<lparr>minner = [([Str [97]], [v])], aggregations = [MeetAggrShortest], grouping_len = 1\<rparr>"

theorem epoch_merge_meet_witness:
  "\<exists>st' t'. epoch_merge_in ext_example
      \<lparr>total = MeetAggr (min_store (List [Null, Null])), delta = MeetAggr (min_store Null),
       use_total_for_delta = False, es_arity = 2\<rparr> (MeetAggr (min_store (List [Null]))) = Inr st' \<and>
    total st' = MeetAggr t' \<and> group_abs ext_example [MeetAggrShortest] t' [Str [97]] = Some [AbsNum (Some 1)]"
proof -
  let ?st = "\<lparr>total = MeetAggr (min_store (List [Null, Null])), delta = MeetAggr (min_store Null),
    use_total_for_delta = False, es_arity = 2\<rparr>"
  have ok: "rows_ok ext_example (\<lambda>_. 0) [MeetAggrShortest] (minner (min_store (List l)))" for l
    by (simp add: min_store_def rows_ok_def group_ok_def)
  have tot: "total ?st = MeetAggr (min_store (List [Null, Null]))" and del: "delta ?st = MeetAggr (min_store Null)"
    and aggr: "aggregations (min_store (List [Null, Null])) = [MeetAggrShortest]"
    and wf: "bmap_wf (cmp_tuple ext_example) (minner (min_store (List [Null])))"
    by (simp_all add: min_store_def bmap_wf_def bset_wf_def)
  have abs: "group_abs ext_example [MeetAggrShortest] (min_store (List l)) [Str [97]] = Some [AbsNum (Some (int (length l)))]" for l
    by (simp add: min_store_def group_abs_def row_abs_def)
  obtain st' t' where st': "epoch_merge_in ext_example ?st (MeetAggr (min_store (List [Null]))) = Inr st'"
    "total st' = MeetAggr t'"
    "\<And>z. group_abs ext_example [MeetAggrShortest] t' z = combine_option (row_join [MeetAggrShortest])
      (group_abs ext_example [MeetAggrShortest] (min_store (List [Null, Null])) z)
      (group_abs ext_example [MeetAggrShortest] (min_store (List [Null])) z)"
    using epoch_merge_meet [OF ext_ord_example tot del aggr wf ok ok] by blast
  with st'(3) [of "[Str [97]]"] show ?thesis by (simp add: abs row_join_def num_op_def)
qed

text \<open>
  C25: Iterating over a prefix gives, in the order of the store, exactly the rows that start with the
  prefix, whether the prefix covers a part of the grouping columns, all of them, or also some of the
  aggregated ones. Rows do not hold the internal value \<open>Bot\<close>.
\<close>

theorem prefix_iter_correct:
  assumes "ext_ord E" and "temp_store_wf E (total st)"
    and "\<forall>t \<in> set (store_rows (total st)). Bot \<notin> set t"
  shows "\<exists>its. prefix_iter E st p = Inr its \<and>
    map into_tuple its = filter (starts_with E p) (store_rows (total st))"
proof (cases "total st")
  case (Normal n)
  with regular_prefix_iter [OF assms(1), of n p] assms(3) show ?thesis
    by (simp add: prefix_iter_def epoch_range_iter_def)
next
  case (MeetAggr m)
  with meet_prefix_iter [OF assms(1), of m p] assms(2,3) show ?thesis
    by (simp add: prefix_iter_def epoch_range_iter_def)
qed

theorem prefix_iter_correct_witness:
  "\<exists>its. prefix_iter ext_example
      \<lparr>total = MeetAggr (min_store (List [])), delta = Normal [], use_total_for_delta = False, es_arity = 2\<rparr>
      [Str [97], List []] = Inr its \<and> map into_tuple its = [[Str [97], List []]]"
  using prefix_iter_correct [of ext_example "\<lparr>total = MeetAggr (min_store (List [])), delta = Normal [],
      use_total_for_delta = False, es_arity = 2\<rparr>" "[Str [97], List []]"]
  by (simp add: min_store_def bmap_wf_def bset_wf_def starts_with_def)

text \<open>
  C26: A store of an \<open>and\<close> or \<open>or\<close> aggregation never settles. However many epochs follow, if each derives
  only rows the store already holds, and at least one, then the total stays as it is and the store still
  reports a delta: the condition on which the evaluation stops, that no store has one, is not met after any of them.
\<close>

theorem and_or_never_settles:
  assumes "ext_ord E" and "op \<in> {MeetAggrAnd, MeetAggrOr}"
    and "total st = MeetAggr t" and "delta st = MeetAggr d" and "aggregations t = [op]"
    and "bmap_wf (cmp_tuple E) (minner t)" and "\<forall>v \<in> snd ` set (minner t). \<exists>b. v = [Bool b]"
    and "ns \<noteq> []" and "\<forall>n \<in> set ns. minner n \<noteq> [] \<and> set (minner n) \<subseteq> set (minner t)"
  shows "\<exists>st'. try_fold (epoch_merge_in E) st (map MeetAggr ns) = Inr st' \<and> has_delta st' \<and>
    total st' = MeetAggr t"
  using assms(3,4,8,9)
proof (induction ns arbitrary: st d)
  case (Cons n ns)
  have n: "minner n \<noteq> []" "set (minner n) \<subseteq> set (minner t)" using Cons.prems(4) by simp_all
  obtain d' where "meet_merge_loop E [op] (minner t) [] (minner n) = Inr (minner t, d')" "d' \<noteq> []"
    using and_or_merge_loop [OF assms(1,2,6,7) n(2), of "[]"] n(1) by blast
  moreover have "minner t \<noteq> []" using n by auto
  ultimately obtain st' where st': "epoch_merge_in E st (MeetAggr n) = Inr st'"
    "total st' = MeetAggr t" "delta st' = MeetAggr (d\<lparr>minner := d'\<rparr>)" "has_delta st'"
    using Cons.prems(1,2) assms(5) n(1) by (simp add: epoch_merge_in_def meet_merge_in_def has_delta_def)
  show ?case
  proof (cases "ns = []")
    case False
    with Cons.IH [OF st'(2,3)] Cons.prems(4) st'(1) show ?thesis by simp
  qed (use st' in simp)
qed simp

theorem and_or_never_settles_witness:
  "let t = \<lparr>minner = [([Null], [Bool True]), ([Bool True], [Bool False])], aggregations = [MeetAggrAnd], grouping_len = 1\<rparr> in
   \<exists>st'. try_fold (epoch_merge_in ext_example)
      \<lparr>total = MeetAggr t, delta = MeetAggr (t\<lparr>minner := []\<rparr>), use_total_for_delta = False, es_arity = 2\<rparr>
      (map MeetAggr (replicate 100 t)) = Inr st' \<and>
    has_delta st' \<and> total st' = MeetAggr t"
  unfolding Let_def
  by (rule and_or_never_settles [where op = MeetAggrAnd]) (auto simp: bmap_wf_def bset_wf_def)

end
