(* ===== verification/Functions.thy ===== *)
theory Functions
  imports Aggr "HOL-Library.Sublist"
begin

unbundle bit_operations_syntax

text \<open>
  \<open>retia-core/src/data/functions.rs\<close>: the functions of the query language. A function takes the slice
  of its evaluated arguments; too few arguments, which the parser rules out, panic as the indexing of the
  source does. The message of an error is left out. Integer arithmetic wraps, as in an optimised build.

  Covered are comparison, arithmetic on numbers and vectors, logic, bits, lists, sets and strings. Left
  out are the functions that work inside a JSON document, regular expression matching, transcendental
  functions, random values, clocks and time zones, and case mapping and normalisation of Unicode.

  The record \<open>nd\<close> is what the code calls of the ndarray crate: an operator on two arrays, which panics
  (\<open>None\<close>) on shapes that do not fit together.
\<close>

datatype op_error = OpErr | OpPanic

type_synonym op_result = "op_error + data_value"

record nd =
  nd_zip32 :: "(f32 \<Rightarrow> f32 \<Rightarrow> f32) \<Rightarrow> f32 list \<Rightarrow> f32 list \<Rightarrow> f32 list option"
  nd_zip64 :: "(f64 \<Rightarrow> f64 \<Rightarrow> f64) \<Rightarrow> f64 list \<Rightarrow> f64 list \<Rightarrow> f64 list option"

section \<open>More of \<open>f32\<close> and \<open>f64\<close>\<close>

definition f32_as_f64 :: "f32 \<Rightarrow> f64" where
  "f32_as_f64 b =
     (let s = bit b 31; e = unat b div 2 ^ 23 mod 256; m = unat b mod 2 ^ 23 in
      if e = 255 then (if m = 0 then f64_infinity s else f64_nan)
      else if e = 0 then f64_of_dyadic s m (- 149)
      else f64_of_dyadic s (m + 2 ^ 23) (int e - 150))"

text \<open>
  \<open>f32\<close> arithmetic: the \<open>f64\<close> result rounded once more, which for the basic operations and the square
  root is the correctly rounded \<open>f32\<close> result.
\<close>

definition f32_op :: "(f64 \<Rightarrow> f64 \<Rightarrow> f64) \<Rightarrow> f32 \<Rightarrow> f32 \<Rightarrow> f32" where
  "f32_op f a b = f64_as_f32 (f (f32_as_f64 a) (f32_as_f64 b))"

definition f64_abs :: "f64 \<Rightarrow> f64" where
  "f64_abs b = b AND 0x7FFFFFFFFFFFFFFF"

definition f32_abs :: "f32 \<Rightarrow> f32" where
  "f32_abs b = b AND 0x7FFFFFFF"

definition f32_neg :: "f32 \<Rightarrow> f32" where
  "f32_neg b = b XOR 0x80000000"

text \<open>\<open>floor\<close> and \<open>ceil\<close> round the magnitude up when it has a fractional part and the sign asks for it.\<close>

definition f64_to_integral :: "bool \<Rightarrow> f64 \<Rightarrow> f64" where
  "f64_to_integral up b =
     (if f64_is_finite b
      then (case f64_dyadic b of (m, x) \<Rightarrow>
              if 0 \<le> x then b
              else f64_of_dyadic (f64_sign b)
                     (m div 2 ^ nat (- x) + (if m mod 2 ^ nat (- x) \<noteq> 0 \<and> up \<noteq> f64_sign b then 1 else 0)) 0)
      else b)"

text \<open>\<open>a % b\<close>: the exact remainder of the truncated quotient, with the sign of \<open>a\<close>.\<close>

definition f64_rem :: "f64 \<Rightarrow> f64 \<Rightarrow> f64" where
  "f64_rem a b =
     (if f64_is_nan a \<or> f64_is_nan b \<or> f64_is_infinite a \<or> f64_is_zero b then f64_nan
      else if f64_is_infinite b then a
      else (case (f64_dyadic a, f64_dyadic b) of ((m, x), (n, y)) \<Rightarrow>
              let e = min x y
              in f64_of_dyadic (f64_sign a) (m * 2 ^ nat (x - e) mod (n * 2 ^ nat (y - e))) e))"

section \<open>Comparison\<close>

definition value_eq :: "ext \<Rightarrow> data_value \<Rightarrow> data_value \<Rightarrow> bool" where
  "value_eq E a b \<longleftrightarrow> cmp_value E a b = Equal"

definition ensure_same_value_type :: "data_value \<Rightarrow> data_value \<Rightarrow> op_error + unit" where
  "ensure_same_value_type a b =
     (if variant_idx a = variant_idx b \<and>
        (case a of Uuid _ \<Rightarrow> False | Vec _ \<Rightarrow> False | Json _ \<Rightarrow> False | Validity _ \<Rightarrow> False | _ \<Rightarrow> True)
      then Inr () else Inl OpErr)"

text \<open>An integer against a float, both as \<open>f64\<close>.\<close>

fun mixed_nums :: "data_value \<Rightarrow> data_value \<Rightarrow> (f64 \<times> f64) option" where
  "mixed_nums (Num (FloatN l)) (Num (IntN r)) = Some (l, i64_as_f64 r)"
| "mixed_nums (Num (IntN l)) (Num (FloatN r)) = Some (i64_as_f64 l, r)"
| "mixed_nums _ _ = None"

fun op_list :: "tuple \<Rightarrow> op_result" where
  "op_list args = Inr (List args)"

fun op_coalesce :: "ext \<Rightarrow> tuple \<Rightarrow> op_result" where
  "op_coalesce E [] = Inr Null"
| "op_coalesce E (val # args) = (if \<not> value_eq E val Null then Inr val else op_coalesce E args)"

fun op_eq :: "ext \<Rightarrow> tuple \<Rightarrow> op_result" where
  "op_eq E (a # b # _) =
     Inr (Bool (case mixed_nums a b of Some (l, r) \<Rightarrow> f64_eq l r | None \<Rightarrow> value_eq E a b))"
| "op_eq E _ = Inl OpPanic"

fun op_neq :: "ext \<Rightarrow> tuple \<Rightarrow> op_result" where
  "op_neq E (a # b # _) =
     Inr (Bool (case mixed_nums a b of Some (l, r) \<Rightarrow> \<not> f64_eq l r | None \<Rightarrow> \<not> value_eq E a b))"
| "op_neq E _ = Inl OpPanic"

fun op_is_in :: "ext \<Rightarrow> tuple \<Rightarrow> op_result" where
  "op_is_in E (left # right # _) =
     map_ok (\<lambda>right. Bool (list_ex (\<lambda>x. value_eq E x left) right))
       (ok_or (get_slice right) OpErr)"
| "op_is_in E _ = Inl OpPanic"

fun op_gt :: "ext \<Rightarrow> tuple \<Rightarrow> op_result" where
  "op_gt E (a # b # _) =
     map_ok (\<lambda>_. Bool (case mixed_nums a b of Some (l, r) \<Rightarrow> f64_lt r l | None \<Rightarrow> cmp_value E a b = Greater))
       (ensure_same_value_type a b)"
| "op_gt E _ = Inl OpPanic"

fun op_ge :: "ext \<Rightarrow> tuple \<Rightarrow> op_result" where
  "op_ge E (a # b # _) =
     map_ok (\<lambda>_. Bool (case mixed_nums a b of Some (l, r) \<Rightarrow> f64_le r l | None \<Rightarrow> cmp_value E a b \<noteq> Less))
       (ensure_same_value_type a b)"
| "op_ge E _ = Inl OpPanic"

fun op_lt :: "ext \<Rightarrow> tuple \<Rightarrow> op_result" where
  "op_lt E (a # b # _) =
     map_ok (\<lambda>_. Bool (case mixed_nums a b of Some (l, r) \<Rightarrow> f64_lt l r | None \<Rightarrow> cmp_value E a b = Less))
       (ensure_same_value_type a b)"
| "op_lt E _ = Inl OpPanic"

fun op_le :: "ext \<Rightarrow> tuple \<Rightarrow> op_result" where
  "op_le E (a # b # _) =
     map_ok (\<lambda>_. Bool (case mixed_nums a b of Some (l, r) \<Rightarrow> f64_le l r | None \<Rightarrow> cmp_value E a b \<noteq> Greater))
       (ensure_same_value_type a b)"
| "op_le E _ = Inl OpPanic"

fun op_max :: "tuple \<Rightarrow> op_result" where
  "op_max args =
     map_ok (\<lambda>res. case res of None \<Rightarrow> Num (FloatN (f64_infinity True)) | Some v \<Rightarrow> Num v)
       (try_fold (\<lambda>accum nxt.
          case nxt of
            Num b \<Rightarrow> Inr (Some (case accum of None \<Rightarrow> b | Some a \<Rightarrow> if cmp_num a b = Greater then a else b))
          | _ \<Rightarrow> Inl OpErr) None args)"

fun op_min :: "tuple \<Rightarrow> op_result" where
  "op_min args =
     map_ok (\<lambda>res. case res of None \<Rightarrow> Num (FloatN (f64_infinity False)) | Some v \<Rightarrow> Num v)
       (try_fold (\<lambda>accum nxt.
          case nxt of
            Num b \<Rightarrow> Inr (Some (case accum of None \<Rightarrow> b | Some a \<Rightarrow> if cmp_num a b = Greater then b else a))
          | _ \<Rightarrow> Inl OpErr) None args)"

section \<open>Arithmetic\<close>

definition or_panic :: "'a option \<Rightarrow> op_error + 'a" where
  "or_panic x = ok_or x OpPanic"

text \<open>An operator on two vectors; operands of different element types are widened to \<open>f64\<close>.\<close>

fun vec_zip :: "nd \<Rightarrow> (f64 \<Rightarrow> f64 \<Rightarrow> f64) \<Rightarrow> vector \<Rightarrow> vector \<Rightarrow> op_result" where
  "vec_zip N f (F32 a) (F32 b) = map_ok (\<lambda>v. Vec (F32 v)) (or_panic (nd_zip32 N (f32_op f) a b))"
| "vec_zip N f (F64 a) (F64 b) = map_ok (\<lambda>v. Vec (F64 v)) (or_panic (nd_zip64 N f a b))"
| "vec_zip N f (F32 a) (F64 b) = map_ok (\<lambda>v. Vec (F64 v)) (or_panic (nd_zip64 N f (map f32_as_f64 a) b))"
| "vec_zip N f (F64 a) (F32 b) = map_ok (\<lambda>v. Vec (F64 v)) (or_panic (nd_zip64 N f a (map f32_as_f64 b)))"

text \<open>An operator applied to every element and a number.\<close>

fun vec_scalar :: "(f64 \<Rightarrow> f64 \<Rightarrow> f64) \<Rightarrow> vector \<Rightarrow> f64 \<Rightarrow> vector" where
  "vec_scalar f (F32 v) x = F32 (map (\<lambda>e. f32_op f e (f64_as_f32 x)) v)"
| "vec_scalar f (F64 v) x = F64 (map (\<lambda>e. f e x) v)"

text \<open>The last step of \<open>add_vecs\<close> and \<open>mul_vecs\<close>, which differ in the operator alone.\<close>

definition vecs_step :: "nd \<Rightarrow> (f64 \<Rightarrow> f64 \<Rightarrow> f64) \<Rightarrow> data_value \<Rightarrow> data_value \<Rightarrow> op_result" where
  "vecs_step N f first final =
     (case first of
        Vec a \<Rightarrow>
          (case final of
             Vec b \<Rightarrow> if vector_len a \<noteq> vector_len b then Inl OpErr else vec_zip N f a b
           | b \<Rightarrow> map_ok (\<lambda>x. Vec (vec_scalar f a x)) (ok_or (get_float b) OpErr))
      | a \<Rightarrow>
          (case final of
             Vec b \<Rightarrow> map_ok (\<lambda>x. Vec (vec_scalar f b x)) (ok_or (get_float a) OpErr)
           | _ \<Rightarrow> Inl OpErr))"

function add_vecs :: "nd \<Rightarrow> tuple \<Rightarrow> op_result" where
  "add_vecs N args =
     (if length args = 1 then Inr (hd args)
      else if args = [] then Inl OpPanic
      else and_then (add_vecs N (butlast args)) (\<lambda>first. vecs_step N f64_add first (last args)))"
  by auto
termination
  by (relation "measure (\<lambda>(N, args). length args)") auto

declare add_vecs.simps [simp del]

text \<open>\<open>mul_vecs\<close> calls \<open>add_vecs\<close> on all but the last argument.\<close>

definition mul_vecs :: "nd \<Rightarrow> tuple \<Rightarrow> op_result" where
  "mul_vecs N args =
     (if length args = 1 then Inr (hd args)
      else if args = [] then Inl OpPanic
      else and_then (add_vecs N (butlast args)) (\<lambda>first. vecs_step N f64_mul first (last args)))"

definition f64_one :: f64 where
  "f64_one = 0x3FF0000000000000"

fun add_loop :: "nd \<Rightarrow> tuple \<Rightarrow> tuple \<Rightarrow> i64 \<Rightarrow> f64 \<Rightarrow> op_result" where
  "add_loop N args [] i_accum f_accum =
     Inr (Num (if f64_eq f_accum 0 then IntN i_accum else FloatN (f64_add (i64_as_f64 i_accum) f_accum)))"
| "add_loop N args (arg # rest) i_accum f_accum =
     (case arg of
        Num (IntN i) \<Rightarrow> add_loop N args rest (i_accum + i) f_accum
      | Num (FloatN f) \<Rightarrow> add_loop N args rest i_accum (f64_add f_accum f)
      | Vec _ \<Rightarrow> add_vecs N args
      | _ \<Rightarrow> Inl OpErr)"

definition op_add :: "nd \<Rightarrow> tuple \<Rightarrow> op_result" where
  "op_add N args = add_loop N args args 0 0"

fun mul_loop :: "nd \<Rightarrow> tuple \<Rightarrow> tuple \<Rightarrow> i64 \<Rightarrow> f64 \<Rightarrow> op_result" where
  "mul_loop N args [] i_accum f_accum =
     Inr (Num (if f64_eq f_accum f64_one then IntN i_accum
               else FloatN (f64_mul (i64_as_f64 i_accum) f_accum)))"
| "mul_loop N args (arg # rest) i_accum f_accum =
     (case arg of
        Num (IntN i) \<Rightarrow> mul_loop N args rest (i_accum * i) f_accum
      | Num (FloatN f) \<Rightarrow> mul_loop N args rest i_accum (f64_mul f_accum f)
      | Vec _ \<Rightarrow> mul_vecs N args
      | _ \<Rightarrow> Inl OpErr)"

definition op_mul :: "nd \<Rightarrow> tuple \<Rightarrow> op_result" where
  "op_mul N args = mul_loop N args args 1 f64_one"

fun num_sub :: "rnum \<Rightarrow> rnum \<Rightarrow> rnum" where
  "num_sub (IntN a) (IntN b) = IntN (a - b)"
| "num_sub a b = FloatN (f64_sub (num_get_float a) (num_get_float b))"

fun op_sub :: "nd \<Rightarrow> tuple \<Rightarrow> op_result" where
  "op_sub N (a # b # _) =
     (case a of
        Num x \<Rightarrow>
          (case b of
             Num y \<Rightarrow> Inr (Num (num_sub x y))
           | Vec (F32 v) \<Rightarrow>
               Inr (Vec (F32 (map (\<lambda>e. f32_neg (f32_op f64_sub e (f64_as_f32 (num_get_float x)))) v)))
           | Vec (F64 v) \<Rightarrow> Inr (Vec (F64 (map (\<lambda>e. f64_neg (f64_sub e (num_get_float x))) v)))
           | _ \<Rightarrow> Inl OpErr)
      | Vec v \<Rightarrow>
          (case b of
             Vec w \<Rightarrow> vec_zip N f64_sub v w
           | _ \<Rightarrow> map_ok (\<lambda>y. Vec (vec_scalar f64_sub v y)) (ok_or (get_float b) OpErr))
      | _ \<Rightarrow> Inl OpErr)"
| "op_sub N _ = Inl OpPanic"

fun op_div :: "nd \<Rightarrow> tuple \<Rightarrow> op_result" where
  "op_div N (a # b # _) =
     (case a of
        Num x \<Rightarrow>
          (case b of
             Num y \<Rightarrow> Inr (Num (FloatN (f64_div (num_get_float x) (num_get_float y))))
           | Vec (F32 v) \<Rightarrow> Inr (Vec (F32 (map (\<lambda>e. f32_op f64_div (f64_as_f32 (num_get_float x)) e) v)))
           | Vec (F64 v) \<Rightarrow> Inr (Vec (F64 (map (\<lambda>e. f64_div (num_get_float x) e) v)))
           | _ \<Rightarrow> Inl OpErr)
      | Vec v \<Rightarrow>
          (case b of
             Vec w \<Rightarrow> vec_zip N f64_div v w
           | _ \<Rightarrow> map_ok (\<lambda>y. Vec (vec_scalar f64_div v y)) (ok_or (get_float b) OpErr))
      | _ \<Rightarrow> Inl OpErr)"
| "op_div N _ = Inl OpPanic"

text \<open>A function of one number or of every element of a vector.\<close>

fun op_minus :: "tuple \<Rightarrow> op_result" where
  "op_minus (a # _) =
     (case a of
        Num (IntN i) \<Rightarrow> Inr (Num (IntN (- i)))
      | Num (FloatN f) \<Rightarrow> Inr (Num (FloatN (f64_neg f)))
      | Vec (F64 v) \<Rightarrow> Inr (Vec (F64 (map (f64_sub 0) v)))
      | Vec (F32 v) \<Rightarrow> Inr (Vec (F32 (map (f32_op f64_sub 0) v)))
      | _ \<Rightarrow> Inl OpErr)"
| "op_minus _ = Inl OpPanic"

fun op_abs :: "tuple \<Rightarrow> op_result" where
  "op_abs (a # _) =
     (case a of
        Num (IntN i) \<Rightarrow> Inr (Num (IntN (if sint i < 0 then - i else i)))
      | Num (FloatN f) \<Rightarrow> Inr (Num (FloatN (f64_abs f)))
      | Vec (F64 v) \<Rightarrow> Inr (Vec (F64 (map f64_abs v)))
      | Vec (F32 v) \<Rightarrow> Inr (Vec (F32 (map f32_abs v)))
      | _ \<Rightarrow> Inl OpErr)"
| "op_abs _ = Inl OpPanic"

text \<open>\<open>f.signum()\<close> is -1 for every number with the sign bit set, -0.0 included.\<close>

fun op_signum :: "tuple \<Rightarrow> op_result" where
  "op_signum (a # _) =
     (case a of
        Num (IntN i) \<Rightarrow> Inr (Num (IntN (if sint i < 0 then - 1 else if i = 0 then 0 else 1)))
      | Num (FloatN f) \<Rightarrow>
          Inr (if \<not> f64_is_nan f \<and> f64_sign f then Num (IntN (- 1))
               else if f64_eq f 0 then Num (IntN 0)
               else if f64_lt 0 f then Num (IntN 1)
               else Num (FloatN f64_nan))
      | _ \<Rightarrow> Inl OpErr)"
| "op_signum _ = Inl OpPanic"

fun op_floor :: "tuple \<Rightarrow> op_result" where
  "op_floor (a # _) =
     (case a of
        Num (IntN i) \<Rightarrow> Inr (Num (IntN i))
      | Num (FloatN f) \<Rightarrow> Inr (Num (FloatN (f64_to_integral False f)))
      | _ \<Rightarrow> Inl OpErr)"
| "op_floor _ = Inl OpPanic"

fun op_ceil :: "tuple \<Rightarrow> op_result" where
  "op_ceil (a # _) =
     (case a of
        Num (IntN i) \<Rightarrow> Inr (Num (IntN i))
      | Num (FloatN f) \<Rightarrow> Inr (Num (FloatN (f64_to_integral True f)))
      | _ \<Rightarrow> Inl OpErr)"
| "op_ceil _ = Inl OpPanic"

fun op_round :: "tuple \<Rightarrow> op_result" where
  "op_round (a # _) =
     (case a of
        Num (IntN i) \<Rightarrow> Inr (Num (IntN i))
      | Num (FloatN f) \<Rightarrow> Inr (Num (FloatN (f64_round f)))
      | _ \<Rightarrow> Inl OpErr)"
| "op_round _ = Inl OpPanic"

fun op_sqrt :: "tuple \<Rightarrow> op_result" where
  "op_sqrt (a # _) =
     (case a of
        Num n \<Rightarrow> Inr (Num (FloatN (f64_sqrt (num_get_float n))))
      | Vec (F32 v) \<Rightarrow> Inr (Vec (F32 (map (\<lambda>x. f64_as_f32 (f64_sqrt (f32_as_f64 x))) v)))
      | Vec (F64 v) \<Rightarrow> Inr (Vec (F64 (map f64_sqrt v)))
      | _ \<Rightarrow> Inl OpErr)"
| "op_sqrt _ = Inl OpPanic"

text \<open>The remainder of \<open>i64::MIN\<close> by -1 overflows, which panics in every build.\<close>

fun op_mod :: "tuple \<Rightarrow> op_result" where
  "op_mod (a # b # _) =
     (case a of
        Num x \<Rightarrow>
          (case b of
             Num y \<Rightarrow>
               (case (x, y) of
                  (IntN i, IntN j) \<Rightarrow>
                    if j = 0 then Inl OpErr
                    else if sint i = - (2 ^ 63) \<and> sint j = - 1 then Inl OpPanic
                    else Inr (Num (IntN (word_of_int (sint i - sint j * (sgn (sint i) * sgn (sint j) * (\<bar>sint i\<bar> div \<bar>sint j\<bar>))))))
                | _ \<Rightarrow> Inr (Num (FloatN (f64_rem (num_get_float x) (num_get_float y)))))
           | _ \<Rightarrow> Inl OpErr)
      | _ \<Rightarrow> Inl OpErr)"
| "op_mod _ = Inl OpPanic"

section \<open>Logic\<close>

fun op_and :: "tuple \<Rightarrow> op_result" where
  "op_and [] = Inr (Bool True)"
| "op_and (arg # args) =
     (case get_bool arg of None \<Rightarrow> Inl OpErr | Some b \<Rightarrow> if \<not> b then Inr (Bool False) else op_and args)"

fun op_or :: "tuple \<Rightarrow> op_result" where
  "op_or [] = Inr (Bool False)"
| "op_or (arg # args) =
     (case get_bool arg of None \<Rightarrow> Inl OpErr | Some b \<Rightarrow> if b then Inr (Bool True) else op_or args)"

fun op_negate :: "tuple \<Rightarrow> op_result" where
  "op_negate (a # _) = (case a of Bool b \<Rightarrow> Inr (Bool (\<not> b)) | _ \<Rightarrow> Inl OpErr)"
| "op_negate _ = Inl OpPanic"

section \<open>Bits\<close>

definition bytes_op :: "(u8 \<Rightarrow> u8 \<Rightarrow> u8) \<Rightarrow> data_value \<Rightarrow> data_value \<Rightarrow> op_result" where
  "bytes_op f a b =
     (case get_bytes a of
        None \<Rightarrow> Inl OpErr
      | Some left \<Rightarrow>
          (case get_bytes b of
             None \<Rightarrow> Inl OpErr
           | Some right \<Rightarrow>
               if length left \<noteq> length right then Inl OpErr else Inr (Bytes (map2 f left right))))"

fun op_bit_and :: "tuple \<Rightarrow> op_result" where
  "op_bit_and (a # b # _) = bytes_op (AND) a b"
| "op_bit_and _ = Inl OpPanic"

fun op_bit_or :: "tuple \<Rightarrow> op_result" where
  "op_bit_or (a # b # _) = bytes_op (OR) a b"
| "op_bit_or _ = Inl OpPanic"

fun op_bit_xor :: "tuple \<Rightarrow> op_result" where
  "op_bit_xor (a # b # _) = bytes_op (XOR) a b"
| "op_bit_xor _ = Inl OpPanic"

fun op_bit_not :: "tuple \<Rightarrow> op_result" where
  "op_bit_not (a # _) = (case a of Bytes arg \<Rightarrow> Inr (Bytes (map NOT arg)) | _ \<Rightarrow> Inl OpErr)"
| "op_bit_not _ = Inl OpPanic"

definition byte_bits :: "u8 \<Rightarrow> bool list" where
  "byte_bits byte =
     map (\<lambda>mask. byte AND mask \<noteq> 0)
       [0b10000000, 0b01000000, 0b00100000, 0b00010000, 0b00001000, 0b00000100, 0b00000010, 0b00000001]"

fun op_unpack_bits :: "tuple \<Rightarrow> op_result" where
  "op_unpack_bits (a # _) =
     (case a of Bytes bs \<Rightarrow> Inr (List (map Bool (concat (map byte_bits bs)))) | _ \<Rightarrow> Inl OpErr)"
| "op_unpack_bits _ = Inl OpPanic"

text \<open>The index of a bit is its position in the list; \<open>res\<close> has one byte per eight elements, rounded up.\<close>

fun pack_loop :: "nat \<Rightarrow> tuple \<Rightarrow> bytes \<Rightarrow> op_result" where
  "pack_loop i [] res = Inr (Bytes res)"
| "pack_loop i (b # bs) res =
     (case b of
        Bool b \<Rightarrow>
          pack_loop (i + 1) bs
            (if b then res[i div 8 := res ! (i div 8) OR drop_bit (i mod 8) 0b10000000] else res)
      | _ \<Rightarrow> Inl OpErr)"

fun op_pack_bits :: "tuple \<Rightarrow> op_result" where
  "op_pack_bits (a # _) =
     (case a of
        List v \<Rightarrow> pack_loop 0 v (replicate ((length v + 7) div 8) 0)
      | Set v \<Rightarrow> pack_loop 0 v (replicate ((length v + 7) div 8) 0)
      | _ \<Rightarrow> Inl OpErr)"
| "op_pack_bits _ = Inl OpPanic"

section \<open>Strings\<close>

definition is_continuation :: "u8 \<Rightarrow> bool" where
  "is_continuation b \<longleftrightarrow> b AND 0b11000000 = 0b10000000"

text \<open>\<open>s.chars()\<close>: a character is a byte followed by its UTF-8 continuation bytes.\<close>

function utf8_chars :: "bytes \<Rightarrow> bytes list" where
  "utf8_chars [] = []"
| "utf8_chars (b # bs) = (b # takeWhile is_continuation bs) # utf8_chars (dropWhile is_continuation bs)"
  by pat_completeness auto
termination
  by (relation "measure length") (auto simp: le_imp_less_Suc length_dropWhile_le)

fun op_str_includes :: "tuple \<Rightarrow> op_result" where
  "op_str_includes (a # b # _) =
     (case get_str a of
        None \<Rightarrow> Inl OpErr
      | Some l \<Rightarrow> map_ok (\<lambda>r. Bool (sublist r l)) (ok_or (get_str b) OpErr))"
| "op_str_includes _ = Inl OpPanic"

fun op_starts_with :: "tuple \<Rightarrow> op_result" where
  "op_starts_with (a # b # _) =
     (case a of
        Str l \<Rightarrow> (case b of Str r \<Rightarrow> Inr (Bool (prefix r l)) | _ \<Rightarrow> Inl OpErr)
      | Bytes l \<Rightarrow> (case b of Bytes r \<Rightarrow> Inr (Bool (prefix r l)) | _ \<Rightarrow> Inl OpErr)
      | _ \<Rightarrow> Inl OpErr)"
| "op_starts_with _ = Inl OpPanic"

fun op_ends_with :: "tuple \<Rightarrow> op_result" where
  "op_ends_with (a # b # _) =
     (case a of
        Str l \<Rightarrow> (case b of Str r \<Rightarrow> Inr (Bool (suffix r l)) | _ \<Rightarrow> Inl OpErr)
      | Bytes l \<Rightarrow> (case b of Bytes r \<Rightarrow> Inr (Bool (suffix r l)) | _ \<Rightarrow> Inl OpErr)
      | _ \<Rightarrow> Inl OpErr)"
| "op_ends_with _ = Inl OpPanic"

fun op_regex :: "ext \<Rightarrow> tuple \<Rightarrow> op_result" where
  "op_regex E (a # _) =
     (case a of
        Regex r \<Rightarrow> Inr (Regex r)
      | Str s \<Rightarrow> map_ok Regex (ok_or (regex_from_str E s) OpErr)
      | _ \<Rightarrow> Inl OpErr)"
| "op_regex E _ = Inl OpPanic"

fun op_chars :: "tuple \<Rightarrow> op_result" where
  "op_chars (a # _) = map_ok (\<lambda>s. List (map Str (utf8_chars s))) (ok_or (get_str a) OpErr)"
| "op_chars _ = Inl OpPanic"

fun op_slice_string :: "tuple \<Rightarrow> op_result" where
  "op_slice_string (a # b # c # _) =
     and_then (ok_or (get_str a) OpErr) (\<lambda>s.
     and_then (ok_or (get_int b) OpErr) (\<lambda>m.
     if sint m < 0 then Inl OpErr
     else and_then (ok_or (get_int c) OpErr) (\<lambda>n.
       if sint n < sint m then Inl OpErr
       else Inr (Str (concat (take (unat (n - m)) (drop (unat m) (utf8_chars s))))))))"
| "op_slice_string _ = Inl OpPanic"

fun op_from_substrings :: "tuple \<Rightarrow> op_result" where
  "op_from_substrings (a # _) =
     (case a of
        List ss \<Rightarrow> map_ok (\<lambda>ss. Str (concat ss)) (try_collect (\<lambda>x. ok_or (get_str x) OpErr) ss)
      | Set ss \<Rightarrow> map_ok (\<lambda>ss. Str (concat ss)) (try_collect (\<lambda>x. ok_or (get_str x) OpErr) ss)
      | _ \<Rightarrow> Inl OpErr)"
| "op_from_substrings _ = Inl OpPanic"

fun op_decode_base64 :: "ext \<Rightarrow> tuple \<Rightarrow> op_result" where
  "op_decode_base64 E (a # _) =
     (case a of Str s \<Rightarrow> map_ok Bytes (ok_or (base64_decode E s) OpErr) | _ \<Rightarrow> Inl OpErr)"
| "op_decode_base64 E _ = Inl OpPanic"

fun op_to_uuid :: "ext \<Rightarrow> tuple \<Rightarrow> op_result" where
  "op_to_uuid E (a # _) =
     (case a of
        Uuid u \<Rightarrow> Inr (Uuid u)
      | Str s \<Rightarrow> map_ok Uuid (ok_or (uuid_try_parse E s) OpErr)
      | _ \<Rightarrow> Inl OpErr)"
| "op_to_uuid E _ = Inl OpPanic"

text \<open>\<open>i64::from_str\<close>: an optional sign and at least one decimal digit, within the range of \<open>i64\<close>.\<close>

definition digits_value :: "bytes \<Rightarrow> int option" where
  "digits_value bs =
     (if bs \<noteq> [] \<and> list_all (\<lambda>b. 48 \<le> unat b \<and> unat b \<le> 57) bs
      then Some (foldl (\<lambda>n b. 10 * n + (uint b - 48)) 0 bs) else None)"

definition i64_from_str :: "bytes \<Rightarrow> i64 option" where
  "i64_from_str bs =
     Option.bind
       (case bs of
          [] \<Rightarrow> None
        | b # rest \<Rightarrow>
            if b = 45 then map_option uminus (digits_value rest)
            else if b = 43 then digits_value rest
            else digits_value bs)
       (\<lambda>v. if - (2 ^ 63) \<le> v \<and> v < 2 ^ 63 then Some (word_of_int v) else None)"

fun op_to_int :: "tuple \<Rightarrow> op_result" where
  "op_to_int (a # _) =
     (case a of
        Num n \<Rightarrow>
          Inr (Num (IntN (case num_get_int n of None \<Rightarrow> f64_as_i64 (num_get_float n) | Some i \<Rightarrow> i)))
      | Null \<Rightarrow> Inr (Num (IntN 0))
      | Bool b \<Rightarrow> Inr (Num (IntN (if b then 1 else 0)))
      | Str t \<Rightarrow> map_ok (\<lambda>i. Num (IntN i)) (ok_or (i64_from_str t) OpErr)
      | Validity vld \<Rightarrow> Inr (Num (IntN (timestamp vld)))
      | _ \<Rightarrow> Inl OpErr)"
| "op_to_int _ = Inl OpPanic"

section \<open>Type tests\<close>

fun op_is :: "(data_value \<Rightarrow> bool) \<Rightarrow> tuple \<Rightarrow> op_result" where
  "op_is P (a # _) = Inr (Bool (P a))"
| "op_is P _ = Inl OpPanic"

definition op_is_uuid :: "tuple \<Rightarrow> op_result" where
  "op_is_uuid = op_is (\<lambda>a. case a of Uuid _ \<Rightarrow> True | _ \<Rightarrow> False)"

definition op_is_json :: "tuple \<Rightarrow> op_result" where
  "op_is_json = op_is (\<lambda>a. case a of Json _ \<Rightarrow> True | _ \<Rightarrow> False)"

definition op_is_null :: "tuple \<Rightarrow> op_result" where
  "op_is_null = op_is (\<lambda>a. case a of Null \<Rightarrow> True | _ \<Rightarrow> False)"

definition op_is_int :: "tuple \<Rightarrow> op_result" where
  "op_is_int = op_is (\<lambda>a. case a of Num (IntN _) \<Rightarrow> True | _ \<Rightarrow> False)"

definition op_is_float :: "tuple \<Rightarrow> op_result" where
  "op_is_float = op_is (\<lambda>a. case a of Num (FloatN _) \<Rightarrow> True | _ \<Rightarrow> False)"

definition op_is_num :: "tuple \<Rightarrow> op_result" where
  "op_is_num = op_is (\<lambda>a. case a of Num _ \<Rightarrow> True | _ \<Rightarrow> False)"

definition op_is_finite :: "tuple \<Rightarrow> op_result" where
  "op_is_finite = op_is (\<lambda>a. case a of Num (IntN _) \<Rightarrow> True | Num (FloatN f) \<Rightarrow> f64_is_finite f | _ \<Rightarrow> False)"

definition op_is_infinite :: "tuple \<Rightarrow> op_result" where
  "op_is_infinite = op_is (\<lambda>a. case a of Num (FloatN f) \<Rightarrow> f64_is_infinite f | _ \<Rightarrow> False)"

definition op_is_nan :: "tuple \<Rightarrow> op_result" where
  "op_is_nan = op_is (\<lambda>a. case a of Num (FloatN f) \<Rightarrow> f64_is_nan f | _ \<Rightarrow> False)"

definition op_is_string :: "tuple \<Rightarrow> op_result" where
  "op_is_string = op_is (\<lambda>a. case a of Str _ \<Rightarrow> True | _ \<Rightarrow> False)"

definition op_is_list :: "tuple \<Rightarrow> op_result" where
  "op_is_list = op_is (\<lambda>a. case a of List _ \<Rightarrow> True | Set _ \<Rightarrow> True | _ \<Rightarrow> False)"

definition op_is_vec :: "tuple \<Rightarrow> op_result" where
  "op_is_vec = op_is (\<lambda>a. case a of Vec _ \<Rightarrow> True | _ \<Rightarrow> False)"

definition op_is_bytes :: "tuple \<Rightarrow> op_result" where
  "op_is_bytes = op_is (\<lambda>a. case a of Bytes _ \<Rightarrow> True | _ \<Rightarrow> False)"


section \<open>Lists and sets\<close>

fun op_append :: "tuple \<Rightarrow> op_result" where
  "op_append (a # b # _) =
     (case a of List l \<Rightarrow> Inr (List (l @ [b])) | Set l \<Rightarrow> Inr (List (l @ [b])) | _ \<Rightarrow> Inl OpErr)"
| "op_append _ = Inl OpPanic"

fun op_prepend :: "tuple \<Rightarrow> op_result" where
  "op_prepend (a # b # _) =
     (case a of List l \<Rightarrow> Inr (List (b # l)) | Set l \<Rightarrow> Inr (List (b # l)) | _ \<Rightarrow> Inl OpErr)"
| "op_prepend _ = Inl OpPanic"

fun op_length :: "tuple \<Rightarrow> op_result" where
  "op_length (a # _) =
     (let ret = (\<lambda>n. Inr (Num (IntN (word_of_nat n)))) in
      case a of
        Set s \<Rightarrow> ret (length s)
      | List l \<Rightarrow> ret (length l)
      | Str s \<Rightarrow> ret (length (utf8_chars s))
      | Bytes b \<Rightarrow> ret (length b)
      | Vec v \<Rightarrow> ret (vector_len v)
      | _ \<Rightarrow> Inl OpErr)"
| "op_length _ = Inl OpPanic"

text \<open>\<open>slice::sort\<close> is stable: equal elements keep their order.\<close>

fun insert_by :: "('a \<Rightarrow> 'a \<Rightarrow> ordering) \<Rightarrow> 'a \<Rightarrow> 'a list \<Rightarrow> 'a list" where
  "insert_by cmp x [] = [x]"
| "insert_by cmp x (y # ys) = (if cmp x y = Greater then y # insert_by cmp x ys else x # y # ys)"

definition sort_by :: "('a \<Rightarrow> 'a \<Rightarrow> ordering) \<Rightarrow> 'a list \<Rightarrow> 'a list" where
  "sort_by cmp xs = foldr (insert_by cmp) xs []"

fun op_sorted :: "ext \<Rightarrow> tuple \<Rightarrow> op_result" where
  "op_sorted E (a # _) = map_ok (\<lambda>l. List (sort_by (cmp_value E) l)) (ok_or (get_slice a) OpErr)"
| "op_sorted E _ = Inl OpPanic"

fun op_reverse :: "tuple \<Rightarrow> op_result" where
  "op_reverse (a # _) = map_ok (\<lambda>l. List (rev l)) (ok_or (get_slice a) OpErr)"
| "op_reverse _ = Inl OpPanic"

fun op_first :: "tuple \<Rightarrow> op_result" where
  "op_first (a # _) = map_ok (\<lambda>l. if l = [] then Null else hd l) (ok_or (get_slice a) OpErr)"
| "op_first _ = Inl OpPanic"

fun op_last :: "tuple \<Rightarrow> op_result" where
  "op_last (a # _) = map_ok (\<lambda>l. if l = [] then Null else last l) (ok_or (get_slice a) OpErr)"
| "op_last _ = Inl OpPanic"

text \<open>\<open>slice::chunks\<close> and \<open>slice::windows\<close> for a positive size.\<close>

function chunks :: "nat \<Rightarrow> 'a list \<Rightarrow> 'a list list" where
  "chunks n xs = (if n = 0 \<or> xs = [] then [] else take n xs # chunks n (drop n xs))"
  by auto
termination
  by (relation "measure (\<lambda>(n, xs). length xs)") auto

declare chunks.simps [simp del]

definition windows :: "nat \<Rightarrow> 'a list \<Rightarrow> 'a list list" where
  "windows n xs = (if length xs < n then [] else map (\<lambda>i. take n (drop i xs)) [0..<length xs - n + 1])"

definition sized_parts :: "(nat \<Rightarrow> tuple \<Rightarrow> tuple list) \<Rightarrow> data_value \<Rightarrow> data_value \<Rightarrow> op_result" where
  "sized_parts f a b =
     and_then (ok_or (get_slice a) OpErr) (\<lambda>arg.
     and_then (ok_or (get_int b) OpErr) (\<lambda>n.
     if sint n \<le> 0 then Inl OpErr else Inr (List (map List (f (unat n) arg)))))"

fun op_chunks :: "tuple \<Rightarrow> op_result" where
  "op_chunks (a # b # _) = sized_parts chunks a b"
| "op_chunks _ = Inl OpPanic"

fun op_chunks_exact :: "tuple \<Rightarrow> op_result" where
  "op_chunks_exact (a # b # _) = sized_parts (\<lambda>n xs. filter (\<lambda>c. length c = n) (chunks n xs)) a b"
| "op_chunks_exact _ = Inl OpPanic"

fun op_windows :: "tuple \<Rightarrow> op_result" where
  "op_windows (a # b # _) = sized_parts windows a b"
| "op_windows _ = Inl OpPanic"

definition get_index :: "i64 \<Rightarrow> nat \<Rightarrow> bool \<Rightarrow> op_error + nat" where
  "get_index i len is_upper =
     (let i = (if sint i < 0 then i + word_of_nat len else i) in
      if 0 \<le> sint i then
        (if len < unat i \<or> \<not> is_upper \<and> unat i = len then Inl OpErr else Inr (unat i))
      else Inl OpErr)"

text \<open>\<open>l[m..n]\<close> panics when \<open>m\<close> exceeds \<open>n\<close> or \<open>n\<close> the length.\<close>

fun op_slice :: "tuple \<Rightarrow> op_result" where
  "op_slice (a # b # c # _) =
     and_then (ok_or (get_slice a) OpErr) (\<lambda>l.
     and_then (ok_or (get_int b) OpErr) (\<lambda>m.
     and_then (ok_or (get_int c) OpErr) (\<lambda>n.
     and_then (get_index m (length l) False) (\<lambda>m.
     and_then (get_index n (length l) True) (\<lambda>n.
     if n < m \<or> length l < n then Inl OpPanic else Inr (List (take (n - m) (drop m l))))))))"
| "op_slice _ = Inl OpPanic"

definition list_elements :: "data_value \<Rightarrow> op_error + tuple" where
  "list_elements arg = (case arg of List l \<Rightarrow> Inr l | Set s \<Rightarrow> Inr s | _ \<Rightarrow> Inl OpErr)"

definition op_union :: "ext \<Rightarrow> tuple \<Rightarrow> op_result" where
  "op_union E args =
     map_ok List (try_fold (\<lambda>acc arg. map_ok (bset_extend (cmp_value E) acc) (list_elements arg)) [] args)"

fun op_difference :: "ext \<Rightarrow> tuple \<Rightarrow> op_result" where
  "op_difference E (a # args) =
     and_then (list_elements a) (\<lambda>l.
     map_ok List (try_fold (\<lambda>acc arg.
         map_ok (\<lambda>els. filter (\<lambda>x. \<not> bset_contains (cmp_value E) x els) acc) (list_elements arg))
       (bset_from_iter (cmp_value E) l) args))"
| "op_difference E [] = Inl OpPanic"

fun op_intersection :: "ext \<Rightarrow> tuple \<Rightarrow> op_result" where
  "op_intersection E (a # args) =
     and_then (list_elements a) (\<lambda>l.
     map_ok List (try_fold (\<lambda>acc arg.
         map_ok (\<lambda>els. bset_intersection (cmp_value E) acc (bset_from_iter (cmp_value E) els)) (list_elements arg))
       (bset_from_iter (cmp_value E) l) args))"
| "op_intersection E [] = Inl OpPanic"

fun op_assert :: "tuple \<Rightarrow> op_result" where
  "op_assert (a # _) = (case a of Bool True \<Rightarrow> Inr (Bool True) | _ \<Rightarrow> Inl OpErr)"
| "op_assert _ = Inl OpPanic"

fun op_validity :: "tuple \<Rightarrow> op_result" where
  "op_validity (a # rest) =
     and_then (ok_or (get_int a) OpErr) (\<lambda>ts.
     map_ok (\<lambda>b. Validity \<lparr>timestamp = ts, is_assert = b\<rparr>)
       (case rest of [] \<Rightarrow> Inr True | b # _ \<Rightarrow> ok_or (get_bool b) OpErr))"
| "op_validity [] = Inl OpPanic"

text \<open>
  The loops of \<open>int_range\<close> with a step: \<open>None\<close> when the fuel does not suffice. The loop of the source runs
  as long as \<open>current < end\<close> for a positive step and \<open>current > end\<close> otherwise.
\<close>

fun range_loop :: "nat \<Rightarrow> i64 \<Rightarrow> i64 \<Rightarrow> i64 \<Rightarrow> tuple \<Rightarrow> tuple option" where
  "range_loop n current stop step acc =
     (if (if 0 < sint step then sint current < sint stop else sint stop < sint current)
      then (case n of
              0 \<Rightarrow> None
            | Suc n \<Rightarrow> range_loop n (current + step) stop step (acc @ [Num (IntN current)]))
      else Some acc)"

declare range_loop.simps [simp del]

definition op_int_range :: "nat \<Rightarrow> tuple \<Rightarrow> op_result option" where
  "op_int_range n args =
     (let int = (\<lambda>i. ok_or (get_int (args ! i)) OpErr);
          span = (\<lambda>start stop. List (map (\<lambda>i. Num (IntN (word_of_int i))) [sint start..sint stop - 1]))
      in if length args = 1 then Some (map_ok (span 0) (int 0))
         else if length args = 2 then
           Some (and_then (int 0) (\<lambda>start. map_ok (span start) (int 1)))
         else if length args = 3 then
           (case and_then (int 0) (\<lambda>start. and_then (int 1) (\<lambda>stop. map_ok (\<lambda>step. (start, stop, step)) (int 2))) of
              Inl e \<Rightarrow> Some (Inl e)
            | Inr (start, stop, step) \<Rightarrow> map_option (\<lambda>l. Inr (List l)) (range_loop n start stop step []))
         else Some (Inl OpErr))"

section \<open>Packing bits\<close>

lemma byte_bits_eq: "byte_bits b = map (bit b) [7, 6, 5, 4, 3, 2, 1, 0]"
  using and_exp_eq_0_iff_not_bit [of b 7] and_exp_eq_0_iff_not_bit [of b 6]
    and_exp_eq_0_iff_not_bit [of b 5] and_exp_eq_0_iff_not_bit [of b 4]
    and_exp_eq_0_iff_not_bit [of b 3] and_exp_eq_0_iff_not_bit [of b 2]
    and_exp_eq_0_iff_not_bit [of b 1] and_exp_eq_0_iff_not_bit [of b 0]
  by (simp add: byte_bits_def)

text \<open>The byte that setting the bits of \<open>P\<close> from the most significant one on gives.\<close>

definition bits_byte :: "(nat \<Rightarrow> bool) \<Rightarrow> nat \<Rightarrow> u8" where
  "bits_byte P n = fold (\<lambda>j acc. if P j then acc OR drop_bit j 0b10000000 else acc) [0..<n] 0"

lemma bit_bits_byte: "n \<le> 8 \<Longrightarrow> bit (bits_byte P n) j \<longleftrightarrow> j < 8 \<and> 7 - j < n \<and> P (7 - j)"
proof (induction n)
  case (Suc n)
  have "bit (drop_bit n (0b10000000 :: u8)) j \<longleftrightarrow> j + n = 7"
    using bit_exp_iff [where ?'a = "8 word", of 7 "n + j"] by (auto simp: bit_drop_bit_eq)
  moreover have "bits_byte P (Suc n) = (if P n then bits_byte P n OR drop_bit n 0b10000000 else bits_byte P n)"
    by (simp add: bits_byte_def)
  moreover have "7 - j < Suc n \<longleftrightarrow> 7 - j < n \<or> 7 - j = n" by auto
  ultimately show ?case using Suc by (auto simp: bit_or_iff)
qed (simp add: bits_byte_def)

lemma bits_byte_bits: "bits_byte (\<lambda>j. bit b (7 - j)) 8 = b"
  by (rule bit_eqI) (auto simp: bit_bits_byte)

lemma pack_loop_byte:
  assumes "k < length res" and "res ! k = 0"
  shows "pack_loop (8 * k) (map Bool (map f [0..<8]) @ rest) res = pack_loop (8 * Suc k) rest (res[k := bits_byte f 8])"
proof -
  have "pack_loop (8 * k) (map Bool (map f [0..<n]) @ rest) res =
      pack_loop (8 * k + n) rest (res[k := bits_byte f n])" if "n \<le> 8" for n
    using that
  proof (induction n arbitrary: rest)
    case 0
    show ?case using list_update_id [of res k] assms(2) by (simp add: bits_byte_def)
  next
    case (Suc n)
    have "(8 * k + n) div 8 = k" "(8 * k + n) mod 8 = n" using Suc.prems by simp_all
    then show ?case
      using Suc.IH [of "Bool (f n) # rest"] Suc.prems assms(1) by (simp add: bits_byte_def)
  qed
  from this [of 8] show ?thesis by (simp add: add.commute)
qed

lemma pack_unpack_loop:
  assumes "length res = k + length bs" and "\<forall>i \<ge> k. i < length res \<longrightarrow> res ! i = 0"
  shows "pack_loop (8 * k) (map Bool (concat (map byte_bits bs))) res = Inr (Bytes (take k res @ bs))"
  using assms
proof (induction bs arbitrary: k res)
  case (Cons b bs)
  have "[7, 6, 5, 4, 3, 2, 1, 0 :: nat] = map (\<lambda>j. 7 - j) [0..<8]" by (simp add: upt_rec)
  then have bits: "byte_bits b = map (\<lambda>j. bit b (7 - j)) [0..<8]" by (simp add: byte_bits_eq comp_def)
  have "pack_loop (8 * k) (map Bool (concat (map byte_bits (b # bs)))) res =
      pack_loop (8 * Suc k) (map Bool (concat (map byte_bits bs))) (res[k := b])"
    using pack_loop_byte [of k res "\<lambda>j. bit b (7 - j)"] Cons.prems bits by (simp add: bits_byte_bits)
  also have "\<dots> = Inr (Bytes (take (Suc k) (res[k := b]) @ bs))"
    using Cons.prems by (intro Cons.IH) auto
  also have "take (Suc k) (res[k := b]) @ bs = take k res @ b # bs"
    using Cons.prems(1) by (simp add: take_Suc_conv_app_nth)
  finally show ?case .
qed simp

lemma length_byte_bits: "length (byte_bits b) = 8"
  by (simp add: byte_bits_def)

text \<open>
  C30: Packing the bits that unpacking a byte string yields gives the byte string back.
\<close>

theorem pack_unpack_roundtrip:
  "and_then (op_unpack_bits [Bytes bs]) (\<lambda>bits. op_pack_bits [bits]) = Inr (Bytes bs)"
proof -
  have "length (concat (map byte_bits bs)) = 8 * length bs"
    by (induction bs) (simp_all add: length_byte_bits)
  then show ?thesis
    using pack_unpack_loop [of "replicate (length bs) 0" 0 bs] by simp
qed

section \<open>Indices\<close>

lemma sint_word_of_int_64:
  assumes "- (2 ^ 63) \<le> r" and "r < 2 ^ 63"
  shows "sint (word_of_int r :: i64) = r"
  using assms by (simp add: signed_of_int signed_take_bit_int_eq_self)

lemma get_index_spec:
  assumes "int len < 2 ^ 63"
  shows "get_index i len is_upper =
    (let r = (if sint i < 0 then sint i + int len else sint i) in
     if 0 \<le> r \<and> (r < int len \<or> is_upper \<and> r = int len) then Inr (nat r) else Inl OpErr)"
proof -
  define j where "j = (if sint i < 0 then i + word_of_nat len else i)"
  define r where "r = (if sint i < 0 then sint i + int len else sint i)"
  have "j = word_of_int r" by (simp add: j_def r_def)
  moreover have "- (2 ^ 63) \<le> r \<and> r < 2 ^ 63"
    using sint_64_range [of i] assms by (auto simp: r_def)
  ultimately have j: "sint j = r"
    by (simp add: sint_word_of_int_64)
  have nat: "unat j = nat r" if "0 \<le> r"
  proof -
    have "uint j = sint j"
      using that j sint_64 [of j] uint_64 [of j] by (simp split: if_splits)
    then show ?thesis by (simp add: j unat_eq_nat_uint)
  qed
  show ?thesis
  proof (cases "0 \<le> r")
    case True
    then have "len < nat r \<longleftrightarrow> int len < r" "nat r = len \<longleftrightarrow> r = int len" by auto
    with True show ?thesis
      unfolding get_index_def Let_def j_def [symmetric] r_def [symmetric] j nat [OF True] by auto
  next
    case False
    then show ?thesis
      unfolding get_index_def Let_def j_def [symmetric] r_def [symmetric] j by simp
  qed
qed

text \<open>
  C31: \<open>slice\<close> counts negative indices from the end, reports an index outside the list as an error and
  returns the elements in between; but when the start lies after the end it panics.
\<close>

theorem op_slice_bounds:
  assumes "int (length l) < 2 ^ 63"
  shows "op_slice [List l, Num (IntN m), Num (IntN n)] =
    (let pos = (\<lambda>i. if sint i < 0 then sint i + int (length l) else sint i) in
     if 0 \<le> pos m \<and> pos m < int (length l) \<and> 0 \<le> pos n \<and> pos n \<le> int (length l)
     then (if pos n < pos m then Inl OpPanic
           else Inr (List (take (nat (pos n) - nat (pos m)) (drop (nat (pos m)) l))))
     else Inl OpErr)"
proof -
  define pos where "pos = (\<lambda>i :: i64. if sint i < 0 then sint i + int (length l) else sint i)"
  have index: "get_index i (length l) up =
      (if 0 \<le> pos i \<and> (pos i < int (length l) \<or> up \<and> pos i = int (length l)) then Inr (nat (pos i)) else Inl OpErr)" for i up
    unfolding get_index_spec [OF assms] Let_def pos_def ..
  have "pos n \<le> int (length l) \<longleftrightarrow> pos n < int (length l) \<or> pos n = int (length l)" by auto
  then show ?thesis
    unfolding Let_def pos_def [symmetric]
    by (simp add: get_slice_def get_int_def num_get_int_def index nat_less_iff zless_nat_eq_int_zless)
qed

theorem op_slice_bounds_witness:
  "op_slice [List [Null, Bot, Null], Num (IntN 2), Num (IntN 1)] = Inl OpPanic"
  using op_slice_bounds [of "[Null, Bot, Null]" 2 1] by simp

section \<open>Products of vectors\<close>

text \<open>What ndarray documents for arrays of the same length.\<close>

definition nd_elementwise :: "nd \<Rightarrow> bool" where
  "nd_elementwise N \<longleftrightarrow> (\<forall>f a b. length a = length b \<longrightarrow> nd_zip64 N f a b = Some (map2 f a b)) \<and>
     (\<forall>f a b. length a = length b \<longrightarrow> nd_zip32 N f a b = Some (map2 f a b))"

definition nd_example :: nd where
  "nd_example =
     \<lparr>nd_zip32 = (\<lambda>f a b. if length a = length b then Some (map2 f a b) else None),
      nd_zip64 = (\<lambda>f a b. if length a = length b then Some (map2 f a b) else None)\<rparr>"

lemma nd_elementwise_example: "nd_elementwise nd_example"
  by (simp add: nd_elementwise_def nd_example_def)

text \<open>
  C32: \<open>mul\<close> of three \<open>F64\<close> vectors of one length adds the first two before it multiplies with the third.
\<close>

theorem mul_three_vectors_adds:
  assumes "nd_elementwise N" and "length a = length b" and "length b = length c"
  shows "op_mul N [Vec (F64 a), Vec (F64 b), Vec (F64 c)] =
    Inr (Vec (F64 (map2 f64_mul (map2 f64_add a b) c)))"
  using assms
  by (simp add: op_mul_def mul_vecs_def add_vecs.simps vecs_step_def vector_len_def or_panic_def
      nd_elementwise_def)

theorem mul_three_vectors_adds_witness:
  "op_mul nd_example [Vec (F64 [0]), Vec (F64 [f64_one]), Vec (F64 [f64_one])] =
     Inr (Vec (F64 (map2 f64_mul (map2 f64_add [0] [f64_one]) [f64_one])))"
  using mul_three_vectors_adds [OF nd_elementwise_example, of "[0]" "[f64_one]" "[f64_one]"] by simp

section \<open>Ranges with a step\<close>

lemma range_loop_zero: "sint stop < sint current \<Longrightarrow> range_loop n current stop 0 acc = None"
  by (induction n arbitrary: acc) (simp_all add: range_loop.simps)

text \<open>The progression from \<open>c\<close> up to, not including, \<open>e\<close>.\<close>

definition steps_up :: "int \<Rightarrow> int \<Rightarrow> int \<Rightarrow> int list" where
  "steps_up c e d = filter (\<lambda>x. d dvd x - c) [c..e - 1]"

lemma steps_up_step:
  assumes "0 < d"
  shows "steps_up c e d = (if c < e then c # steps_up (c + d) e d else [])"
proof (cases "c < e")
  case True
  have mono: "c + d \<le> x" if "d dvd x - c" "c < x" for x
    using zdvd_imp_le [OF that(1)] that(2) by simp
  have shift: "d dvd x - (c + d) \<longleftrightarrow> d dvd x - c" for x
    by (simp add: algebra_simps dvd_diff_left_iff flip: diff_diff_eq)
  have "set (steps_up c e d) = set (c # steps_up (c + d) e d)"
    using True assms mono by (auto simp: steps_up_def shift)
  moreover have "sorted (c # steps_up (c + d) e d)" "distinct (c # steps_up (c + d) e d)"
    using assms by (auto simp: steps_up_def intro: sorted_wrt_filter)
  moreover have "sorted (steps_up c e d)" "distinct (steps_up c e d)"
    by (auto simp: steps_up_def intro: sorted_wrt_filter)
  ultimately have "steps_up c e d = c # steps_up (c + d) e d"
    by (intro sorted_distinct_set_unique)
  with True show ?thesis by simp
qed (simp add: steps_up_def)

lemma range_loop_up:
  assumes "0 < sint step" and "sint stop + sint step \<le> 2 ^ 63"
  shows "nat (sint stop - sint current) \<le> n \<Longrightarrow> range_loop n current stop step acc =
    Some (acc @ map (\<lambda>x. Num (IntN (word_of_int x))) (steps_up (sint current) (sint stop) (sint step)))"
proof (induction n arbitrary: current acc)
  case 0
  then have "\<not> sint current < sint stop" by simp
  then show ?case using assms(1) by (subst range_loop.simps) (simp add: steps_up_def)
next
  case (Suc n)
  show ?case
  proof (cases "sint current < sint stop")
    case True
    have "current + step = word_of_int (sint current + sint step)" by simp
    moreover have "- (2 ^ 63) \<le> sint current + sint step" "sint current + sint step < 2 ^ 63"
      using sint_64_range [of current] True assms by simp_all
    ultimately have sum: "sint (current + step) = sint current + sint step"
      by (simp only: sint_word_of_int_64)
    have "range_loop (Suc n) current stop step acc = range_loop n (current + step) stop step (acc @ [Num (IntN current)])"
      using True assms(1) by (subst range_loop.simps) simp
    also have "\<dots> = Some ((acc @ [Num (IntN current)]) @ map (\<lambda>x. Num (IntN (word_of_int x)))
        (steps_up (sint current + sint step) (sint stop) (sint step)))"
      using Suc.IH [of "current + step" "acc @ [Num (IntN current)]"] Suc.prems assms(1) True by (simp add: sum)
    finally show ?thesis
      using True steps_up_step [OF assms(1), of "sint current" "sint stop"] by simp
  next
    case False
    then show ?thesis using assms(1) by (subst range_loop.simps) (simp add: steps_up_def)
  qed
qed

text \<open>
  C33: \<open>int_range\<close> with a positive step that does not overflow at the end ends, with the progression from
  the start up to the end; with step 0 and the start above the end it never ends.
\<close>

theorem int_range_with_step:
  "(0 < sint step \<and> sint stop + sint step \<le> 2 ^ 63 \<longrightarrow>
      (\<exists>n. op_int_range n [Num (IntN start), Num (IntN stop), Num (IntN step)] =
         Some (Inr (List (map (\<lambda>x. Num (IntN (word_of_int x)))
           (filter (\<lambda>x. sint step dvd x - sint start) [sint start..sint stop - 1])))))) \<and>
   (step = 0 \<and> sint stop < sint start \<longrightarrow>
      (\<forall>n. op_int_range n [Num (IntN start), Num (IntN stop), Num (IntN step)] = None))"
proof -
  have run: "op_int_range n [Num (IntN start), Num (IntN stop), Num (IntN step)] =
      map_option (\<lambda>l. Inr (List l)) (range_loop n start stop step [])" for n
    by (simp add: op_int_range_def get_int_def num_get_int_def ok_or_def)
  show ?thesis
    unfolding run using range_loop_up [of step stop start _ "[]"] range_loop_zero [of stop start]
    by (auto simp: steps_up_def)
qed

theorem int_range_with_step_witness:
  "(\<exists>n. op_int_range n [Num (IntN 1), Num (IntN 6), Num (IntN 2)] =
      Some (Inr (List (map (\<lambda>x. Num (IntN (word_of_int x))) (filter (\<lambda>x. 2 dvd x - 1) [1..5]))))) \<and>
   (\<forall>n. op_int_range n [Num (IntN 1), Num (IntN 0), Num (IntN 0)] = None)"
  using int_range_with_step [of 2 6 1] int_range_with_step [of 0 0 1] by simp

end
