(* ===== verification/Expr.thy ===== *)
theory Expr
  imports Functions
begin

text \<open>
  \<open>retia-core/src/data/expr.rs\<close>, \<open>data/symb.rs\<close> and the parts of \<open>parse/expr.rs\<close> that build and compile
  expressions: expressions, their evaluation, their bytecode, and the bounds that filters put on a
  variable. Source spans are left out, and so is what an error prints. A symbol is its name, which is all
  that its comparison reads.

  Bytecode runs with fuel: \<open>None\<close> means that the loop of the virtual machine has not ended yet. The
  lemmas show that compiled code needs no more steps than it has instructions.
\<close>

section \<open>Symbols\<close>

type_synonym symbol = bytes

definition PROG_ENTRY :: symbol where
  "PROG_ENTRY = [63]" \<comment> \<open>\<open>"?"\<close>\<close>

definition is_temp_store_name :: "symbol \<Rightarrow> bool" where
  "is_temp_store_name s \<longleftrightarrow> prefix [95] s" \<comment> \<open>\<open>'_'\<close>\<close>

definition is_prog_entry :: "symbol \<Rightarrow> bool" where
  "is_prog_entry s \<longleftrightarrow> s = [63]"

definition is_ignored_symbol :: "symbol \<Rightarrow> bool" where
  "is_ignored_symbol s \<longleftrightarrow> s = [95]"

definition is_generated_ignored_symbol :: "symbol \<Rightarrow> bool" where
  "is_generated_ignored_symbol s \<longleftrightarrow> prefix [126] s" \<comment> \<open>\<open>'~'\<close>\<close>

definition ensure_valid_field :: "symbol \<Rightarrow> symbol + unit" where
  "ensure_valid_field s = (if 40 \<in> set s \<or> 41 \<in> set s then Inl s else Inr ())" \<comment> \<open>parentheses\<close>

section \<open>Expressions\<close>

record op =
  op_name :: string
  min_arity :: nat
  vararg :: bool
  op_inner :: "tuple \<Rightarrow> op_result"

datatype expr =
    Binding symbol "nat option"
  | Const data_value
  | Apply op "expr list"
  | UnboundApply bytes "expr list"
  | Cond "(expr \<times> expr) list"

datatype bytecode =
    BBinding symbol "nat option"
  | BConst data_value
  | BApply op nat
  | BJumpIfFalse nat
  | BGoto nat

datatype eval_error =
    UnboundVariable symbol
  | TupleTooShort symbol nat nat
  | EvalRaised
  | PredicateType data_value
  | NoImplementation bytes
  | BadBinding symbol
  | NotConst
  | StrRangeScan data_value
  | InvalidFields
  | EvalPanic

definition lift_op :: "op_result \<Rightarrow> eval_error + data_value" where
  "lift_op r = (case r of Inl OpErr \<Rightarrow> Inl EvalRaised | Inl OpPanic \<Rightarrow> Inl EvalPanic | Inr v \<Rightarrow> Inr v)"

definition read_binding :: "symbol \<Rightarrow> nat option \<Rightarrow> tuple \<Rightarrow> eval_error + data_value" where
  "read_binding var tuple_pos bindings =
     (case tuple_pos of
        None \<Rightarrow> Inl (UnboundVariable var)
      | Some i \<Rightarrow>
          if i < length bindings then Inr (bindings ! i)
          else Inl (TupleTooShort var i (length bindings)))"

function (sequential) eval :: "expr \<Rightarrow> tuple \<Rightarrow> eval_error + data_value"
  and eval_args :: "expr list \<Rightarrow> tuple \<Rightarrow> eval_error + tuple"
  and eval_clauses :: "(expr \<times> expr) list \<Rightarrow> tuple \<Rightarrow> eval_error + data_value" where
  "eval (Binding var tuple_pos) bindings = read_binding var tuple_pos bindings"
| "eval (Const val) bindings = Inr val"
| "eval (Apply op args) bindings =
     and_then (eval_args args bindings) (\<lambda>vals. lift_op (op_inner op vals))"
| "eval (Cond clauses) bindings = eval_clauses clauses bindings"
| "eval (UnboundApply op args) bindings = Inl (NoImplementation op)"
| "eval_args [] bindings = Inr []"
| "eval_args (e # es) bindings =
     and_then (eval e bindings) (\<lambda>v. map_ok (\<lambda>vs. v # vs) (eval_args es bindings))"
| "eval_clauses [] bindings = Inr Null"
| "eval_clauses ((cond, val) # clauses) bindings =
     and_then (eval cond bindings) (\<lambda>v.
     case get_bool v of
       None \<Rightarrow> Inl (PredicateType v)
     | Some b \<Rightarrow> if b then eval val bindings else eval_clauses clauses bindings)"
  by pat_completeness auto
termination
  by (relation "measure (\<lambda>x. case x of
      Inl (e, _) \<Rightarrow> size e | Inr (Inl (es, _)) \<Rightarrow> size_list size es
    | Inr (Inr (cs, _)) \<Rightarrow> size_list (size_prod size size) cs)") auto

definition get_binding :: "expr \<Rightarrow> symbol option" where
  "get_binding e = (case e of Binding var _ \<Rightarrow> Some var | _ \<Rightarrow> None)"

definition get_const :: "expr \<Rightarrow> data_value option" where
  "get_const e = (case e of Const val \<Rightarrow> Some val | _ \<Rightarrow> None)"

section \<open>Operators the code names\<close>

definition OP_EQ :: "ext \<Rightarrow> op" where
  "OP_EQ E = \<lparr>op_name = ''OP_EQ'', min_arity = 2, vararg = False, op_inner = op_eq E\<rparr>"

definition OP_AND :: op where
  "OP_AND = \<lparr>op_name = ''OP_AND'', min_arity = 0, vararg = True, op_inner = op_and\<rparr>"

definition OP_IS_IN :: "ext \<Rightarrow> op" where
  "OP_IS_IN E = \<lparr>op_name = ''OP_IS_IN'', min_arity = 2, vararg = False, op_inner = op_is_in E\<rparr>"

definition OP_NEGATE :: op where
  "OP_NEGATE = \<lparr>op_name = ''OP_NEGATE'', min_arity = 1, vararg = False, op_inner = op_negate\<rparr>"

definition OP_GE :: "ext \<Rightarrow> op" where
  "OP_GE E = \<lparr>op_name = ''OP_GE'', min_arity = 2, vararg = False, op_inner = op_ge E\<rparr>"

definition OP_GT :: "ext \<Rightarrow> op" where
  "OP_GT E = \<lparr>op_name = ''OP_GT'', min_arity = 2, vararg = False, op_inner = op_gt E\<rparr>"

definition OP_LE :: "ext \<Rightarrow> op" where
  "OP_LE E = \<lparr>op_name = ''OP_LE'', min_arity = 2, vararg = False, op_inner = op_le E\<rparr>"

definition OP_LT :: "ext \<Rightarrow> op" where
  "OP_LT E = \<lparr>op_name = ''OP_LT'', min_arity = 2, vararg = False, op_inner = op_lt E\<rparr>"

definition OP_STARTS_WITH :: op where
  "OP_STARTS_WITH = \<lparr>op_name = ''OP_STARTS_WITH'', min_arity = 2, vararg = False, op_inner = op_starts_with\<rparr>"

definition OP_REGEX :: "ext \<Rightarrow> op" where
  "OP_REGEX E = \<lparr>op_name = ''OP_REGEX'', min_arity = 1, vararg = False, op_inner = op_regex E\<rparr>"

definition build_equate :: "ext \<Rightarrow> expr list \<Rightarrow> expr" where
  "build_equate E exprs = Apply (OP_EQ E) exprs"

definition build_and :: "expr list \<Rightarrow> expr" where
  "build_and exprs = Apply OP_AND exprs"

definition build_is_in :: "ext \<Rightarrow> expr list \<Rightarrow> expr" where
  "build_is_in E exprs = Apply (OP_IS_IN E) exprs"

definition negate :: "expr \<Rightarrow> expr" where
  "negate e = Apply OP_NEGATE [e]"

definition to_conjunction :: "expr \<Rightarrow> expr list" where
  "to_conjunction e =
     (case e of Apply op args \<Rightarrow> if op_name op = op_name OP_AND then args else [e] | _ \<Rightarrow> [e])"

section \<open>Calls in the source text\<close>

text \<open>
  The expressions for \<open>cond(...)\<close>, \<open>if(...)\<close> and the call of an operator, from the parsed arguments
  (\<open>parse/expr.rs\<close>). With an odd number of arguments \<open>cond\<close> gets \<open>null\<close> as the condition of the last one.
\<close>

datatype call_error = EmptyCond | WrongArgsToIf | WrongNumArgs | CallPanic

fun pairs :: "'a list \<Rightarrow> ('a \<times> 'a) list" where
  "pairs (x # y # zs) = (x, y) # pairs zs"
| "pairs _ = []"

definition is_true_const :: "expr \<Rightarrow> bool" where
  "is_true_const e = (case e of Const (Bool True) \<Rightarrow> True | _ \<Rightarrow> False)"

definition build_cond :: "expr list \<Rightarrow> call_error + expr" where
  "build_cond args =
     (if args = [] then Inl EmptyCond
      else
        let args = (if odd (length args) then butlast args @ [Const Null, last args] else args);
            clauses = pairs args
        in Inr (Cond (if is_true_const (fst (last clauses)) then clauses
             else clauses @ [(Const (Bool True), Const Null)])))"

definition build_if :: "expr list \<Rightarrow> call_error + expr" where
  "build_if args =
     (if length args = 2 \<or> length args = 3 then
        Inr (Cond [(args ! 0, args ! 1),
          (Const (Bool True), if length args = 3 then args ! 2 else Const Null)])
      else Inl WrongArgsToIf)"

text \<open>\<open>post_process_args\<close> wraps \<open>args[1]\<close>, the pattern of a regular expression function.\<close>

definition post_process_args :: "ext \<Rightarrow> op \<Rightarrow> expr list \<Rightarrow> call_error + expr list" where
  "post_process_args E op args =
     (if prefix ''OP_REGEX_'' (op_name op) then
        (if length args \<le> 1 then Inl CallPanic else Inr (args[1 := Apply (OP_REGEX E) [args ! 1]]))
      else Inr args)"

definition build_apply :: "ext \<Rightarrow> op \<Rightarrow> expr list \<Rightarrow> call_error + expr" where
  "build_apply E op args =
     and_then (post_process_args E op args) (\<lambda>args.
     if (if vararg op then min_arity op \<le> length args else min_arity op = length args)
     then Inr (Apply op args) else Inl WrongNumArgs)"

section \<open>Bytecode\<close>

function (sequential) expr2bytecode :: "expr \<Rightarrow> bytecode list \<Rightarrow> eval_error + bytecode list"
  and args2bytecode :: "expr list \<Rightarrow> bytecode list \<Rightarrow> eval_error + bytecode list"
  and clauses2bytecode ::
    "(expr \<times> expr) list \<Rightarrow> bytecode list \<times> nat list \<Rightarrow> eval_error + bytecode list \<times> nat list" where
  "expr2bytecode (Binding var tuple_pos) collector = Inr (collector @ [BBinding var tuple_pos])"
| "expr2bytecode (Const val) collector = Inr (collector @ [BConst val])"
| "expr2bytecode (Apply op args) collector =
     map_ok (\<lambda>collector. collector @ [BApply op (length args)]) (args2bytecode args collector)"
| "expr2bytecode (Cond clauses) collector =
     map_ok (\<lambda>(collector, return_jump_pos).
         fold (\<lambda>pos c. c[pos := BGoto (length collector)]) return_jump_pos collector)
       (clauses2bytecode clauses (collector, []))"
| "expr2bytecode (UnboundApply op args) collector = Inl (NoImplementation op)"
| "args2bytecode [] collector = Inr collector"
| "args2bytecode (e # es) collector = and_then (expr2bytecode e collector) (args2bytecode es)"
| "clauses2bytecode [] st = Inr st"
| "clauses2bytecode ((cond, val) # clauses) (collector, return_jump_pos) =
     and_then (expr2bytecode cond collector) (\<lambda>collector.
     let false_jump_amend_pos = length collector in
     and_then (expr2bytecode val (collector @ [BJumpIfFalse 0])) (\<lambda>collector.
     let collector = collector @ [BGoto 0];
         return_jump_pos = return_jump_pos @ [length collector - 1];
         collector = collector[false_jump_amend_pos := BJumpIfFalse (length collector)]
     in clauses2bytecode clauses (collector, return_jump_pos)))"
  by pat_completeness auto
termination
  by (relation "measure (\<lambda>x. case x of
      Inl (e, _) \<Rightarrow> size e | Inr (Inl (es, _)) \<Rightarrow> size_list size es
    | Inr (Inr (cs, _)) \<Rightarrow> size_list (size_prod size size) cs)") auto

definition compile :: "expr \<Rightarrow> eval_error + bytecode list" where
  "compile e = expr2bytecode e []"

text \<open>One instruction, from the pointer and the stack, whose top is its last element.\<close>

definition bytecode_step :: "bytecode \<Rightarrow> tuple \<Rightarrow> nat \<Rightarrow> tuple \<Rightarrow> eval_error + nat \<times> tuple" where
  "bytecode_step instr bindings pointer stack =
     (case instr of
        BBinding var tuple_pos \<Rightarrow>
          map_ok (\<lambda>v. (pointer + 1, stack @ [v])) (read_binding var tuple_pos bindings)
      | BConst val \<Rightarrow> Inr (pointer + 1, stack @ [val])
      | BApply op arity \<Rightarrow>
          if length stack < arity then Inl EvalPanic
          else
            (let frame_start = length stack - arity in
             map_ok (\<lambda>v. (pointer + 1, take frame_start stack @ [v]))
               (lift_op (op_inner op (drop frame_start stack))))
      | BJumpIfFalse jump_to \<Rightarrow>
          if stack = [] then Inl EvalPanic
          else
            (case get_bool (last stack) of
               None \<Rightarrow> Inl (PredicateType (last stack))
             | Some b \<Rightarrow> Inr (if b then pointer + 1 else jump_to, butlast stack))
      | BGoto jump_to \<Rightarrow> Inr (jump_to, stack))"

fun bytecode_loop :: "nat \<Rightarrow> bytecode list \<Rightarrow> tuple \<Rightarrow> nat \<Rightarrow> tuple \<Rightarrow> (eval_error + data_value) option" where
  "bytecode_loop n code bindings pointer stack =
     (if pointer = length code then Some (if stack = [] then Inl EvalPanic else Inr (last stack))
      else if length code < pointer then Some (Inl EvalPanic)
      else
        (case n of
           0 \<Rightarrow> None
         | Suc n \<Rightarrow>
             (case bytecode_step (code ! pointer) bindings pointer stack of
                Inl e \<Rightarrow> Some (Inl e)
              | Inr (pointer, stack) \<Rightarrow> bytecode_loop n code bindings pointer stack)))"

declare bytecode_loop.simps [simp del]

definition eval_bytecode :: "bytecode list \<Rightarrow> tuple \<Rightarrow> (eval_error + data_value) option" where
  "eval_bytecode code bindings = bytecode_loop (length code) code bindings 0 []"

definition eval_bytecode_pred :: "bytecode list \<Rightarrow> tuple \<Rightarrow> (eval_error + bool) option" where
  "eval_bytecode_pred code bindings =
     map_option (\<lambda>r. and_then r (\<lambda>v. ok_or (get_bool v) (PredicateType v))) (eval_bytecode code bindings)"

section \<open>Variables\<close>

function (sequential) fill_binding_indices :: "(symbol, nat) btree \<Rightarrow> expr \<Rightarrow> eval_error + expr"
  and fill_args :: "(symbol, nat) btree \<Rightarrow> expr list \<Rightarrow> eval_error + expr list"
  and fill_clauses :: "(symbol, nat) btree \<Rightarrow> (expr \<times> expr) list \<Rightarrow> eval_error + (expr \<times> expr) list" where
  "fill_binding_indices m (Binding var tuple_pos) =
     map_ok (\<lambda>i. Binding var (Some i)) (ok_or (bmap_get cmp_bytes m var) (BadBinding var))"
| "fill_binding_indices m (Const val) = Inr (Const val)"
| "fill_binding_indices m (Apply op args) = map_ok (Apply op) (fill_args m args)"
| "fill_binding_indices m (Cond clauses) = map_ok Cond (fill_clauses m clauses)"
| "fill_binding_indices m (UnboundApply op args) = Inl (NoImplementation op)"
| "fill_args m [] = Inr []"
| "fill_args m (e # es) =
     and_then (fill_binding_indices m e) (\<lambda>e. map_ok (\<lambda>es. e # es) (fill_args m es))"
| "fill_clauses m [] = Inr []"
| "fill_clauses m ((cond, val) # clauses) =
     and_then (fill_binding_indices m cond) (\<lambda>cond.
     and_then (fill_binding_indices m val) (\<lambda>val.
     map_ok (\<lambda>clauses. (cond, val) # clauses) (fill_clauses m clauses)))"
  by pat_completeness auto
termination
  by (relation "measure (\<lambda>x. case x of
      Inl (_, e) \<Rightarrow> size e | Inr (Inl (_, es)) \<Rightarrow> size_list size es
    | Inr (Inr (_, cs)) \<Rightarrow> size_list (size_prod size size) cs)") auto

text \<open>
  \<open>collect_bindings\<close>, \<open>do_get_variables\<close> and \<open>do_binding_indices\<close> walk an expression in the same way and
  differ in what they insert for a variable; all fail on a call without implementation.
\<close>

function (sequential) collect_vars :: "(symbol \<Rightarrow> nat option \<Rightarrow> 'c \<Rightarrow> 'c) \<Rightarrow> expr \<Rightarrow> 'c \<Rightarrow> eval_error + 'c"
  and collect_vars_args :: "(symbol \<Rightarrow> nat option \<Rightarrow> 'c \<Rightarrow> 'c) \<Rightarrow> expr list \<Rightarrow> 'c \<Rightarrow> eval_error + 'c"
  and collect_vars_clauses :: "(symbol \<Rightarrow> nat option \<Rightarrow> 'c \<Rightarrow> 'c) \<Rightarrow> (expr \<times> expr) list \<Rightarrow> 'c \<Rightarrow> eval_error + 'c" where
  "collect_vars ins (Binding var tuple_pos) coll = Inr (ins var tuple_pos coll)"
| "collect_vars ins (Const val) coll = Inr coll"
| "collect_vars ins (Apply op args) coll = collect_vars_args ins args coll"
| "collect_vars ins (Cond clauses) coll = collect_vars_clauses ins clauses coll"
| "collect_vars ins (UnboundApply op args) coll = Inl (NoImplementation op)"
| "collect_vars_args ins [] coll = Inr coll"
| "collect_vars_args ins (e # es) coll = and_then (collect_vars ins e coll) (collect_vars_args ins es)"
| "collect_vars_clauses ins [] coll = Inr coll"
| "collect_vars_clauses ins ((cond, val) # clauses) coll =
     and_then (collect_vars ins cond coll) (\<lambda>coll.
     and_then (collect_vars ins val coll) (collect_vars_clauses ins clauses))"
  by pat_completeness auto
termination
  by (relation "measure (\<lambda>x. case x of
      Inl (_, e, _) \<Rightarrow> size e | Inr (Inl (_, es, _)) \<Rightarrow> size_list size es
    | Inr (Inr (_, cs, _)) \<Rightarrow> size_list (size_prod size size) cs)") auto

definition collect_bindings :: "expr \<Rightarrow> symbol list \<Rightarrow> eval_error + symbol list" where
  "collect_bindings = collect_vars (\<lambda>var _. bset_insert cmp_bytes var)"

definition bindings_of :: "expr \<Rightarrow> eval_error + symbol list" where
  "bindings_of e = collect_bindings e []"

definition get_variables :: "expr \<Rightarrow> eval_error + symbol list" where
  "get_variables e = collect_vars (\<lambda>var _. bset_insert cmp_bytes var) e []"

definition binding_indices :: "expr \<Rightarrow> eval_error + nat list" where
  "binding_indices e =
     collect_vars (\<lambda>_ pos. case pos of None \<Rightarrow> id | Some i \<Rightarrow> bset_insert cmp_ord i) e []"

definition to_var_list :: "expr \<Rightarrow> eval_error + symbol list" where
  "to_var_list e =
     (case e of
        Apply op args \<Rightarrow>
          if op_name op \<noteq> ''OP_LIST'' then Inl InvalidFields
          else try_collect (\<lambda>field. ok_or (get_binding field) InvalidFields) args
      | Binding var _ \<Rightarrow> Inr [var]
      | _ \<Rightarrow> Inl InvalidFields)"

section \<open>Partial evaluation\<close>

definition is_const :: "expr \<Rightarrow> bool" where
  "is_const e = (case e of Const _ \<Rightarrow> True | _ \<Rightarrow> False)"

text \<open>The last step: two nested negations cancel.\<close>

definition drop_double_negation :: "expr \<Rightarrow> eval_error + expr" where
  "drop_double_negation e =
     (case e of
        Apply op1 (Apply op2 arg2 # _) \<Rightarrow>
          if op_name op1 = op_name OP_NEGATE \<and> op_name op2 = op_name OP_NEGATE
          then (case arg2 of [] \<Rightarrow> Inl EvalPanic | x # _ \<Rightarrow> Inr x)
          else Inr e
      | _ \<Rightarrow> Inr e)"

fun partial_eval :: "expr \<Rightarrow> eval_error + expr"
  and partial_eval_args :: "expr list \<Rightarrow> eval_error + expr list" where
  "partial_eval (Apply op args) =
     and_then (partial_eval_args args) (\<lambda>args.
     if list_all is_const args then map_ok Const (eval (Apply op args) [])
     else drop_double_negation (Apply op args))"
| "partial_eval (Binding var tuple_pos) = Inr (Binding var tuple_pos)"
| "partial_eval (Const val) = Inr (Const val)"
| "partial_eval (Cond clauses) = Inr (Cond clauses)"
| "partial_eval (UnboundApply op args) = Inr (UnboundApply op args)"
| "partial_eval_args [] = Inr []"
| "partial_eval_args (e # es) =
     and_then (partial_eval e) (\<lambda>e. map_ok (\<lambda>es. e # es) (partial_eval_args es))"

definition eval_to_const :: "expr \<Rightarrow> eval_error + data_value" where
  "eval_to_const e = and_then (partial_eval e) (\<lambda>e. ok_or (get_const e) NotConst)"

section \<open>Bounds from filters\<close>

record value_range =
  lower :: data_value
  upper :: data_value

definition range_default :: value_range where
  "range_default = \<lparr>lower = Null, upper = Bot\<rparr>"

definition range_null :: value_range where
  "range_null = \<lparr>lower = Bot, upper = Bot\<rparr>"

definition range_lower_bound :: "data_value \<Rightarrow> value_range" where
  "range_lower_bound val = \<lparr>lower = val, upper = Bot\<rparr>"

definition range_upper_bound :: "data_value \<Rightarrow> value_range" where
  "range_upper_bound val = \<lparr>lower = Null, upper = val\<rparr>"

definition range_merge :: "ext \<Rightarrow> value_range \<Rightarrow> value_range \<Rightarrow> value_range" where
  "range_merge E a b =
     (let l = value_max E (lower a) (lower b); u = value_min E (upper a) (upper b)
      in if cmp_value E l u = Greater then range_null else \<lparr>lower = l, upper = u\<rparr>)"

definition LARGEST_UTF_CHAR :: bytes where
  "LARGEST_UTF_CHAR = [0xF4, 0x8F, 0xBF, 0xBF]" \<comment> \<open>the UTF-8 encoding of \<open>'\u{10ffff}'\<close>\<close>

definition as_lower :: "data_value \<Rightarrow> data_value" where
  "as_lower val = (case get_int val of Some i \<Rightarrow> Num (IntN i) | None \<Rightarrow> val)"

definition as_upper :: "data_value \<Rightarrow> data_value" where
  "as_upper val = (case get_float val of Some f \<Rightarrow> Num (FloatN f) | None \<Rightarrow> val)"

text \<open>
  \<open>constant_for target a b\<close> is the constant of a comparison whose one side \<open>a\<close> is the variable and whose
  other side \<open>b\<close> is a constant. The indexing \<open>args[0]\<close>, \<open>args[1]\<close> is safe, since calls have the arity of their
  operator.
\<close>

definition constant_for :: "symbol \<Rightarrow> expr \<Rightarrow> expr \<Rightarrow> data_value option" where
  "constant_for target a b =
     (case get_binding a of
        Some symb \<Rightarrow>
          (case get_const b of Some val \<Rightarrow> if target = symb then Some val else None | None \<Rightarrow> None)
      | None \<Rightarrow> None)"

definition extract_bound :: "expr \<Rightarrow> symbol \<Rightarrow> eval_error + value_range" where
  "extract_bound e target =
     (case e of
        Apply op args \<Rightarrow>
          if op_name op \<in> {''OP_GE'', ''OP_GT''} then
            (if length args < 2 then Inl EvalPanic
             else case constant_for target (args ! 0) (args ! 1) of
               Some val \<Rightarrow> Inr (range_lower_bound (as_lower val))
             | None \<Rightarrow>
                 (case constant_for target (args ! 1) (args ! 0) of
                    Some val \<Rightarrow> Inr (range_upper_bound (as_upper val))
                  | None \<Rightarrow> Inr range_default))
          else if op_name op \<in> {''OP_LE'', ''OP_LT''} then
            (if length args < 2 then Inl EvalPanic
             else case constant_for target (args ! 0) (args ! 1) of
               Some val \<Rightarrow> Inr (range_upper_bound (as_upper val))
             | None \<Rightarrow>
                 (case constant_for target (args ! 1) (args ! 0) of
                    Some val \<Rightarrow> Inr (range_lower_bound (as_lower val))
                  | None \<Rightarrow> Inr range_default))
          else if op_name op = ''OP_STARTS_WITH'' then
            (if args = [] \<or> length args = 1 \<and> get_binding (args ! 0) \<noteq> None then Inl EvalPanic
             else if length args = 1 then Inr range_default
             else case constant_for target (args ! 0) (args ! 1) of
               Some val \<Rightarrow>
                 map_ok (\<lambda>s. \<lparr>lower = Str s, upper = Str (s @ LARGEST_UTF_CHAR)\<rparr>)
                   (ok_or (get_str val) (StrRangeScan val))
             | None \<Rightarrow> Inr range_default)
          else Inr range_default
      | UnboundApply op _ \<Rightarrow> Inl (NoImplementation op)
      | _ \<Rightarrow> Inr range_default)"

definition bound_of :: "ext \<Rightarrow> expr list \<Rightarrow> symbol \<Rightarrow> eval_error + value_range" where
  "bound_of E filters symb =
     try_fold (\<lambda>cur_bound filter. map_ok (range_merge E cur_bound) (extract_bound filter symb))
       range_default filters"

definition compute_bounds :: "ext \<Rightarrow> expr list \<Rightarrow> symbol list \<Rightarrow> eval_error + tuple \<times> tuple" where
  "compute_bounds E filters symbols =
     map_ok (\<lambda>bs. (map lower bs, map upper bs)) (try_collect (bound_of E filters) symbols)"

section \<open>Compiled code computes the value of the expression\<close>

text \<open>
  Every conditional ends in a clause whose condition is the constant \<open>true\<close>, as the parser builds them.
\<close>

function (sequential) total_conds :: "expr \<Rightarrow> bool"
  and total_conds_args :: "expr list \<Rightarrow> bool"
  and total_conds_clauses :: "(expr \<times> expr) list \<Rightarrow> bool" where
  "total_conds (Apply op args) = total_conds_args args"
| "total_conds (Cond clauses) =
     (clauses \<noteq> [] \<and> fst (last clauses) = Const (Bool True) \<and> total_conds_clauses clauses)"
| "total_conds _ = True"
| "total_conds_args [] = True"
| "total_conds_args (e # es) = (total_conds e \<and> total_conds_args es)"
| "total_conds_clauses [] = True"
| "total_conds_clauses ((c, v) # cs) = (total_conds c \<and> total_conds v \<and> total_conds_clauses cs)"
  by pat_completeness auto
termination
  by (relation "measure (\<lambda>x. case x of
      Inl e \<Rightarrow> size e | Inr (Inl es) \<Rightarrow> size_list size es
    | Inr (Inr cs) \<Rightarrow> size_list (size_prod size size) cs)") auto

text \<open>
  \<open>runs code b p stk p' r\<close>: from pointer \<open>p\<close> and stack \<open>stk\<close> the machine raises the error of \<open>r\<close>, or reaches
  \<open>p'\<close> with the stack of \<open>r\<close>, in at most \<open>p' - p\<close> steps.
\<close>

definition runs :: "bytecode list \<Rightarrow> tuple \<Rightarrow> nat \<Rightarrow> tuple \<Rightarrow> nat \<Rightarrow> eval_error + tuple \<Rightarrow> bool" where
  "runs code b p stk p' r \<longleftrightarrow> p \<le> p' \<and> (\<exists>k \<le> p' - p. \<forall>n.
     bytecode_loop (k + n) code b p stk =
       (case r of Inl e \<Rightarrow> Some (Inl e) | Inr stk' \<Rightarrow> bytecode_loop n code b p' stk'))"

lemma runs_refl: "runs code b p stk p (Inr stk)"
  by (simp add: runs_def)

lemma runs_trans:
  assumes "runs code b p stk p1 r" and "p1 \<le> p2"
    and "\<And>stk'. r = Inr stk' \<Longrightarrow> runs code b p1 stk' p2 (f stk')"
  shows "runs code b p stk p2 (and_then r f)"
proof -
  obtain k where k: "p \<le> p1" "k \<le> p1 - p" "\<And>n. bytecode_loop (k + n) code b p stk =
      (case r of Inl e \<Rightarrow> Some (Inl e) | Inr stk' \<Rightarrow> bytecode_loop n code b p1 stk')"
    using assms(1) by (auto simp: runs_def)
  show ?thesis
  proof (cases r)
    case (Inl e)
    then show ?thesis unfolding runs_def using k assms(2) by (intro conjI exI [of _ k]) auto
  next
    case (Inr stk')
    obtain l where l: "l \<le> p2 - p1" "\<And>n. bytecode_loop (l + n) code b p1 stk' =
        (case f stk' of Inl e \<Rightarrow> Some (Inl e) | Inr stk' \<Rightarrow> bytecode_loop n code b p2 stk')"
      using assms(3) [OF Inr] by (auto simp: runs_def)
    have "bytecode_loop ((k + l) + n) code b p stk =
        (case f stk' of Inl e \<Rightarrow> Some (Inl e) | Inr stk' \<Rightarrow> bytecode_loop n code b p2 stk')" for n
      using k(3) [of "l + n"] l(2) [of n] Inr by (simp add: add.assoc)
    then show ?thesis unfolding runs_def using k(1,2) l(1) assms(2) Inr by (intro conjI exI [of _ "k + l"]) auto
  qed
qed

lemma runs_step:
  assumes "p < length code" and "p < p'"
    and "bytecode_step (code ! p) b p stk = map_ok (Pair p') r"
  shows "runs code b p stk p' r"
proof -
  have "bytecode_loop (1 + n) code b p stk =
      (case r of Inl e \<Rightarrow> Some (Inl e) | Inr stk' \<Rightarrow> bytecode_loop n code b p' stk')" for n
    using assms by (subst bytecode_loop.simps) (auto simp: map_ok_def split: sum.splits)
  then show ?thesis unfolding runs_def using assms(2) by (intro conjI exI [of _ 1]) auto
qed

text \<open>\<open>code\<close> as part of a larger program, from instruction \<open>p\<close> on.\<close>

definition placed :: "bytecode list \<Rightarrow> nat \<Rightarrow> nat set \<Rightarrow> bytecode list \<Rightarrow> bool" where
  "placed code p holes full \<longleftrightarrow> length code \<le> length full \<and>
     (\<forall>i. p \<le> i \<and> i < length code \<and> i \<notin> holes \<longrightarrow> full ! i = code ! i)"

definition compiled_ok :: "expr \<Rightarrow> bool" where
  "compiled_ok e \<longleftrightarrow> (\<forall>pre code. expr2bytecode e pre = Inr code \<longrightarrow>
     (\<exists>body. code = pre @ body) \<and> (\<forall>full b stk. placed code (length pre) {} full \<longrightarrow>
       runs full b (length pre) stk (length code) (map_ok (\<lambda>v. stk @ [v]) (eval e b))))"

definition compiled_args_ok :: "expr list \<Rightarrow> bool" where
  "compiled_args_ok es \<longleftrightarrow> (\<forall>pre code. args2bytecode es pre = Inr code \<longrightarrow>
     (\<exists>body. code = pre @ body) \<and> (\<forall>full b stk. placed code (length pre) {} full \<longrightarrow>
       runs full b (length pre) stk (length code) (map_ok (\<lambda>vs. stk @ vs) (eval_args es b))))"

definition compiled_clauses_ok :: "(expr \<times> expr) list \<Rightarrow> bool" where
  "compiled_clauses_ok cs \<longleftrightarrow> (\<forall>pre rjp code rjp'. clauses2bytecode cs (pre, rjp) = Inr (code, rjp') \<longrightarrow>
     (\<exists>body new. code = pre @ body \<and> rjp' = rjp @ new \<and> set new \<subseteq> {length pre..<length code} \<and>
       (cs \<noteq> [] \<and> fst (last cs) = Const (Bool True) \<longrightarrow> (\<forall>full b stk final.
         placed code (length pre) (set new) full \<and> (\<forall>i \<in> set new. full ! i = BGoto final) \<and> length code \<le> final \<longrightarrow>
         runs full b (length pre) stk final (map_ok (\<lambda>v. stk @ [v]) (eval_clauses cs b))))))"

lemma placed_prefix:
  "placed (pre @ body) p H full \<Longrightarrow> p \<le> p' \<Longrightarrow> placed pre p' H full"
  unfolding placed_def by (auto simp: nth_append)

lemma compiled_args_Cons:
  assumes "compiled_ok e" and "compiled_args_ok es"
  shows "compiled_args_ok (e # es)"
  unfolding compiled_args_ok_def
proof (intro allI impI)
  fix pre code
  assume "args2bytecode (e # es) pre = Inr code"
  then obtain c1 where c1: "expr2bytecode e pre = Inr c1" "args2bytecode es c1 = Inr code"
    by (auto simp: and_then_Inr)
  obtain b1 b2 where body: "c1 = pre @ b1" "code = c1 @ b2"
    using assms c1 by (meson compiled_ok_def compiled_args_ok_def)
  have "runs full b (length pre) stk (length code) (map_ok (\<lambda>vs. stk @ vs) (eval_args (e # es) b))"
    if full: "placed code (length pre) {} full" for full b stk
  proof -
    have p: "placed c1 (length pre) {} full" "placed code (length c1) {} full"
      using full body by (auto simp: placed_def nth_append)
    have first: "runs full b (length pre) stk (length c1) (map_ok (\<lambda>v. stk @ [v]) (eval e b))"
      using assms(1) c1(1) p(1) by (simp add: compiled_ok_def)
    moreover have "runs full b (length c1) stk' (length code) (map_ok (\<lambda>vs. stk' @ vs) (eval_args es b))" for stk'
      using assms(2) c1(2) p(2) by (simp add: compiled_args_ok_def)
    ultimately have "runs full b (length pre) stk (length code)
        (and_then (map_ok (\<lambda>v. stk @ [v]) (eval e b)) (\<lambda>stk'. map_ok (\<lambda>vs. stk' @ vs) (eval_args es b)))"
      by (intro runs_trans [OF first]) (simp_all add: body)
    then show ?thesis
      by (auto simp: and_then_def map_ok_def split: sum.splits)
  qed
  then show "(\<exists>body. code = pre @ body) \<and> (\<forall>full b stk. placed code (length pre) {} full \<longrightarrow>
      runs full b (length pre) stk (length code) (map_ok (\<lambda>vs. stk @ vs) (eval_args (e # es) b)))"
    using body by auto
qed

lemma compiled_Apply:
  assumes "compiled_args_ok args"
  shows "compiled_ok (Apply op args)"
  unfolding compiled_ok_def
proof (intro allI impI)
  fix pre code
  assume "expr2bytecode (Apply op args) pre = Inr code"
  then obtain c1 where c1: "args2bytecode args pre = Inr c1" "code = c1 @ [BApply op (length args)]" by auto
  obtain b1 where body: "c1 = pre @ b1" using assms c1(1) by (meson compiled_args_ok_def)
  have "runs full b (length pre) stk (length code) (map_ok (\<lambda>v. stk @ [v]) (eval (Apply op args) b))"
    if full: "placed code (length pre) {} full" for full b stk
  proof -
    have p: "placed c1 (length pre) {} full" "full ! length c1 = BApply op (length args)" "length c1 < length full"
      using full body c1(2) by (auto simp: placed_def nth_append)
    have run: "runs full b (length pre) stk (length c1) (map_ok (\<lambda>vs. stk @ vs) (eval_args args b))"
      using assms c1(1) p(1) by (simp add: compiled_args_ok_def)
    have len: "eval_args es b = Inr vs \<Longrightarrow> length vs = length es" for es vs
      by (induction es arbitrary: vs) (auto simp: and_then_Inr)
    have "runs full b (length pre) stk (length code)
        (and_then (map_ok (\<lambda>vs. stk @ vs) (eval_args args b))
          (\<lambda>stk'. map_ok (\<lambda>v. take (length stk' - length args) stk' @ [v])
             (lift_op (op_inner op (drop (length stk' - length args) stk')))))"
    proof (rule runs_trans [OF run])
      show "length c1 \<le> length code" by (simp add: c1(2))
      show "runs full b (length c1) stk' (length code) (map_ok (\<lambda>v. take (length stk' - length args) stk' @ [v])
          (lift_op (op_inner op (drop (length stk' - length args) stk'))))"
        if "map_ok (\<lambda>vs. stk @ vs) (eval_args args b) = Inr stk'" for stk'
      proof (rule runs_step)
        show "bytecode_step (full ! length c1) b (length c1) stk' = map_ok (Pair (length code))
            (map_ok (\<lambda>v. take (length stk' - length args) stk' @ [v])
              (lift_op (op_inner op (drop (length stk' - length args) stk'))))"
          using that p(2) len c1(2) by (auto simp: bytecode_step_def Let_def map_ok_def split: sum.splits)
      qed (use p(3) c1(2) in auto)
    qed
    moreover have "and_then (map_ok (\<lambda>vs. stk @ vs) (eval_args args b))
          (\<lambda>stk'. map_ok (\<lambda>v. take (length stk' - length args) stk' @ [v])
             (lift_op (op_inner op (drop (length stk' - length args) stk')))) =
        map_ok (\<lambda>v. stk @ [v]) (eval (Apply op args) b)"
      using len by (auto simp: and_then_def map_ok_def split: sum.splits)
    ultimately show ?thesis by simp
  qed
  then show "(\<exists>body. code = pre @ body) \<and> (\<forall>full b stk. placed code (length pre) {} full \<longrightarrow>
      runs full b (length pre) stk (length code) (map_ok (\<lambda>v. stk @ [v]) (eval (Apply op args) b)))"
    using body c1(2) by auto
qed

lemma runs_clause:
  assumes cond: "runs full b p stk q (map_ok (\<lambda>x. stk @ [x]) (eval c b))"
    and jump: "full ! q = BJumpIfFalse l" "q < length full" "q < l"
    and val: "runs full b (q + 1) stk r (map_ok (\<lambda>v. stk @ [v]) (eval v b))"
    and return: "full ! r = BGoto final" "r < length full" "r < final" "q < r" "l \<le> final"
    and others: "eval c b \<noteq> Inr (Bool True) \<Longrightarrow>
      runs full b l stk final (map_ok (\<lambda>v. stk @ [v]) (eval_clauses cs b))"
  shows "runs full b p stk final (map_ok (\<lambda>v. stk @ [v]) (eval_clauses ((c, v) # cs) b))"
proof -
  define branch where "branch x = (case get_bool x of
      None \<Rightarrow> Inl (PredicateType x)
    | Some t \<Rightarrow> map_ok (\<lambda>v. stk @ [v]) (if t then eval v b else eval_clauses cs b))" for x
  have jump_step: "runs full b q (stk @ [x]) final (branch x)" if x: "eval c b = Inr x" for x
  proof (cases "get_bool x")
    case None
    show ?thesis
      by (rule runs_step) (use None jump return in \<open>auto simp: bytecode_step_def branch_def\<close>)
  next
    case (Some t)
    show ?thesis
    proof (cases t)
      case True
      have first: "runs full b q (stk @ [x]) (q + 1) (Inr stk)"
        by (rule runs_step) (use Some True jump in \<open>auto simp: bytecode_step_def\<close>)
      moreover have "runs full b (q + 1) stk final (and_then (map_ok (\<lambda>v. stk @ [v]) (eval v b)) Inr)"
      proof (rule runs_trans [OF val])
        show "runs full b r stk' final (Inr stk')" for stk'
          by (rule runs_step) (use return in \<open>auto simp: bytecode_step_def\<close>)
      qed (use return in simp)
      ultimately have "runs full b q (stk @ [x]) final
          (and_then (Inr stk) (\<lambda>_. and_then (map_ok (\<lambda>v. stk @ [v]) (eval v b)) Inr))"
        by (intro runs_trans [OF first]) (use return in auto)
      then show ?thesis using Some True by (simp add: branch_def and_then_def map_ok_def split: sum.splits)
    next
      case False
      have "runs full b q (stk @ [x]) l (Inr stk)"
        by (rule runs_step) (use Some False jump in \<open>auto simp: bytecode_step_def\<close>)
      moreover have "eval c b \<noteq> Inr (Bool True)" using x Some False by (auto simp: get_bool_def)
      ultimately have "runs full b q (stk @ [x]) final
          (and_then (Inr stk) (\<lambda>stk. map_ok (\<lambda>v. stk @ [v]) (eval_clauses cs b)))"
        using others return(5) by (intro runs_trans) auto
      then show ?thesis using Some False by (simp add: branch_def)
    qed
  qed
  have "runs full b p stk final (and_then (map_ok (\<lambda>x. stk @ [x]) (eval c b)) (\<lambda>stk'. branch (last stk')))"
    by (rule runs_trans [OF cond]) (use jump_step jump return in auto)
  moreover have "and_then (map_ok (\<lambda>x. stk @ [x]) (eval c b)) (\<lambda>stk'. branch (last stk')) =
      map_ok (\<lambda>v. stk @ [v]) (eval_clauses ((c, v) # cs) b)"
    by (auto simp: branch_def and_then_def map_ok_def split: sum.splits option.splits)
  ultimately show ?thesis by simp
qed

lemma compiled_clauses_Cons:
  assumes c: "compiled_ok c" and v: "compiled_ok v" and cs: "compiled_clauses_ok cs"
  shows "compiled_clauses_ok ((c, v) # cs)"
  unfolding compiled_clauses_ok_def
proof (intro allI impI)
  fix pre rjp code rjp'
  assume "clauses2bytecode ((c, v) # cs) (pre, rjp) = Inr (code, rjp')"
  then obtain c1 c2 where c1: "expr2bytecode c pre = Inr c1"
    and c2: "expr2bytecode v (c1 @ [BJumpIfFalse 0]) = Inr c2"
    and rest: "clauses2bytecode cs ((c2 @ [BGoto 0])[length c1 := BJumpIfFalse (length c2 + 1)],
      rjp @ [length c2]) = Inr (code, rjp')"
    by (auto simp: and_then_Inr Let_def)
  obtain b1 where b1: "c1 = pre @ b1" using c c1 by (meson compiled_ok_def)
  obtain b2 where b2: "c2 = (c1 @ [BJumpIfFalse 0]) @ b2" using v c2 by (meson compiled_ok_def)
  define c3 where "c3 = c1 @ BJumpIfFalse (length c2 + 1) # b2 @ [BGoto 0]"
  have len3: "length c3 = length c2 + 1" by (simp add: c3_def b2)
  have "(c2 @ [BGoto 0])[length c1 := BJumpIfFalse (length c2 + 1)] = c3"
    by (simp add: c3_def b2 list_update_append)
  with rest have "clauses2bytecode cs (c3, rjp @ [length c2]) = Inr (code, rjp')" by simp
  then obtain body new where rest': "code = c3 @ body" "rjp' = (rjp @ [length c2]) @ new"
    "set new \<subseteq> {length c3..<length code}"
    "cs \<noteq> [] \<and> fst (last cs) = Const (Bool True) \<longrightarrow> (\<forall>full b stk final.
       placed code (length c3) (set new) full \<and> (\<forall>i \<in> set new. full ! i = BGoto final) \<and> length code \<le> final \<longrightarrow>
       runs full b (length c3) stk final (map_ok (\<lambda>v. stk @ [v]) (eval_clauses cs b)))"
    using cs unfolding compiled_clauses_ok_def by blast
  have "runs full b (length pre) stk final (map_ok (\<lambda>v. stk @ [v]) (eval_clauses ((c, v) # cs) b))"
    if total: "fst (last ((c, v) # cs)) = Const (Bool True)"
      and full: "placed code (length pre) (set (length c2 # new)) full"
      and goto: "\<forall>i \<in> set (length c2 # new). full ! i = BGoto final" and final: "length code \<le> final"
    for full b stk final
  proof (rule runs_clause)
    have at: "full ! i = c3 ! i" if "length pre \<le> i" "i < length c2" for i
    proof -
      have "i \<notin> set (length c2 # new)" using that rest'(3) len3 by auto
      then show ?thesis using full that rest'(1) len3 unfolding placed_def by (auto simp: nth_append)
    qed
    have long: "length c3 \<le> length full" using full rest'(1) by (simp add: placed_def)
    have "placed c1 (length pre) {} full" using at long by (auto simp: placed_def c3_def b2 nth_append)
    then show "runs full b (length pre) stk (length c1) (map_ok (\<lambda>x. stk @ [x]) (eval c b))"
      using c c1 by (simp add: compiled_ok_def)
    have "placed c2 (length (c1 @ [BJumpIfFalse 0])) {} full"
      using at long by (auto simp: placed_def c3_def b2 b1 nth_append)
    then show "runs full b (length c1 + 1) stk (length c2) (map_ok (\<lambda>v. stk @ [v]) (eval v b))"
      using v c2 unfolding compiled_ok_def by fastforce
    show "full ! length c1 = BJumpIfFalse (length c3)"
      using at [of "length c1"] by (simp add: c3_def b1 b2)
    show "full ! length c2 = BGoto final" using goto by simp
    show "length c1 < length full" "length c1 < length c3" "length c2 < length full" "length c1 < length c2"
      using long len3 by (simp_all add: b2)
    show "length c2 < final" "length c3 \<le> final" using final rest'(1) len3 by simp_all
    show "runs full b (length c3) stk final (map_ok (\<lambda>v. stk @ [v]) (eval_clauses cs b))"
      if "eval c b \<noteq> Inr (Bool True)"
    proof -
      have ne: "cs \<noteq> []" using total that by auto
      have "placed code (length c3) (set new) full"
        using full b1 b2 len3 by (auto simp: placed_def c3_def)
      then show ?thesis using rest'(4) ne total goto final by simp
    qed
  qed
  moreover have "set (length c2 # new) \<subseteq> {length pre..<length code}"
    using rest'(1,3) len3 b1 b2 by auto
  moreover have "code = pre @ (b1 @ BJumpIfFalse (length c2 + 1) # b2 @ [BGoto 0] @ body)"
    by (simp add: rest'(1) c3_def b1)
  ultimately show "\<exists>body new. code = pre @ body \<and> rjp' = rjp @ new \<and> set new \<subseteq> {length pre..<length code} \<and>
       ((c, v) # cs \<noteq> [] \<and> fst (last ((c, v) # cs)) = Const (Bool True) \<longrightarrow> (\<forall>full b stk final.
         placed code (length pre) (set new) full \<and> (\<forall>i \<in> set new. full ! i = BGoto final) \<and> length code \<le> final \<longrightarrow>
         runs full b (length pre) stk final (map_ok (\<lambda>v. stk @ [v]) (eval_clauses ((c, v) # cs) b))))"
    using rest'(2) by (intro exI [of _ "b1 @ BJumpIfFalse (length c2 + 1) # b2 @ [BGoto 0] @ body"]
        exI [of _ "length c2 # new"]) auto
qed

lemma fold_update_nth:
  "length (fold (\<lambda>pos c. c[pos := x]) ps xs) = length xs"
  "i < length xs \<Longrightarrow> fold (\<lambda>pos c. c[pos := x]) ps xs ! i = (if i \<in> set ps then x else xs ! i)"
  by (induction ps arbitrary: xs) (auto simp: nth_list_update)

lemma compiled_Cond:
  assumes ok: "compiled_clauses_ok cs" and total: "cs \<noteq> []" "fst (last cs) = Const (Bool True)"
  shows "compiled_ok (Cond cs)"
  unfolding compiled_ok_def
proof (intro allI impI)
  fix pre code
  assume "expr2bytecode (Cond cs) pre = Inr code"
  then obtain c rjp where c: "clauses2bytecode cs (pre, []) = Inr (c, rjp)"
    and code: "code = fold (\<lambda>pos c'. c'[pos := BGoto (length c)]) rjp c" by auto
  obtain body where body: "c = pre @ body" "set rjp \<subseteq> {length pre..<length c}"
    and run: "\<And>full b stk final. placed c (length pre) (set rjp) full \<Longrightarrow>
      \<forall>i \<in> set rjp. full ! i = BGoto final \<Longrightarrow> length c \<le> final \<Longrightarrow>
      runs full b (length pre) stk final (map_ok (\<lambda>v. stk @ [v]) (eval_clauses cs b))"
    using ok c total unfolding compiled_clauses_ok_def by (metis append_Nil)
  have len: "length code = length c" and nth: "i < length c \<Longrightarrow>
      code ! i = (if i \<in> set rjp then BGoto (length c) else c ! i)" for i
    unfolding code by (simp_all add: fold_update_nth)
  have "take (length pre) code = pre"
    by (rule nth_equalityI) (use body len nth in \<open>auto simp: nth_append\<close>)
  then have "code = pre @ drop (length pre) code" by (metis append_take_drop_id)
  moreover have "runs full b (length pre) stk (length code) (map_ok (\<lambda>v. stk @ [v]) (eval (Cond cs) b))"
    if "placed code (length pre) {} full" for full b stk
  proof -
    have "placed c (length pre) (set rjp) full" "\<forall>i \<in> set rjp. full ! i = BGoto (length c)"
      using that body(2) unfolding placed_def len by (auto simp: nth)
    from run [OF this order_refl] show ?thesis by (simp add: len)
  qed
  ultimately show "(\<exists>body. code = pre @ body) \<and> (\<forall>full b stk. placed code (length pre) {} full \<longrightarrow>
      runs full b (length pre) stk (length code) (map_ok (\<lambda>v. stk @ [v]) (eval (Cond cs) b)))"
    by blast
qed

lemma compiled_leaf:
  assumes "\<And>pre. expr2bytecode e pre = Inr (pre @ [i])"
    and "\<And>b p stk. bytecode_step i b p stk = map_ok (\<lambda>v. (p + 1, stk @ [v])) (eval e b)"
  shows "compiled_ok e"
proof -
  have "runs full b (length pre) stk (length (pre @ [i])) (map_ok (\<lambda>v. stk @ [v]) (eval e b))"
    if "placed (pre @ [i]) (length pre) {} full" for full b stk and pre :: "bytecode list"
    by (rule runs_step) (use that assms(2) in \<open>auto simp: placed_def map_ok_def split: sum.splits\<close>)
  then show ?thesis using assms(1) by (simp add: compiled_ok_def)
qed

lemma compiled_total:
  "total_conds e \<Longrightarrow> compiled_ok e"
  "total_conds_args es \<Longrightarrow> compiled_args_ok es"
  "total_conds_clauses cs \<Longrightarrow> compiled_clauses_ok cs"
proof (induction e and es and cs rule: total_conds_total_conds_args_total_conds_clauses.induct)
  case (1 op args)
  then show ?case by (simp add: compiled_Apply)
next
  case (2 clauses)
  then show ?case by (simp add: compiled_Cond)
next
  case "3_1"
  show ?case by (rule compiled_leaf) (auto simp: bytecode_step_def)
next
  case "3_2"
  show ?case by (rule compiled_leaf) (auto simp: bytecode_step_def)
next
  case "3_3"
  show ?case by (simp add: compiled_ok_def)
next
  case 4
  show ?case by (auto simp: compiled_args_ok_def runs_refl)
next
  case (5 e es)
  then show ?case by (simp add: compiled_args_Cons)
next
  case 6
  show ?case by (simp add: compiled_clauses_ok_def)
next
  case (7 c v cs)
  then show ?case by (simp add: compiled_clauses_Cons)
qed

text \<open>
  C34: Running the bytecode of an expression gives what evaluating the expression gives, the same value or
  the same error, and takes no more steps than there are instructions, provided that every conditional
  ends in a \<open>true\<close> clause.
\<close>

theorem bytecode_agrees:
  assumes "compile e = Inr code" and "total_conds e"
  shows "eval_bytecode code bindings = Some (eval e bindings)"
proof -
  have "\<forall>full b stk. placed code 0 {} full \<longrightarrow>
      runs full b 0 stk (length code) (map_ok (\<lambda>v. stk @ [v]) (eval e b))"
    using compiled_total(1) [OF assms(2), unfolded compiled_ok_def, THEN spec [of _ "[]"], THEN spec [of _ code]]
      assms(1) by (auto simp: compile_def)
  from this [rule_format, of code bindings "[]"]
  have "runs code bindings 0 [] (length code) (map_ok (\<lambda>v. [v]) (eval e bindings))"
    by (simp add: placed_def)
  then obtain k where k: "k \<le> length code" "\<And>n. bytecode_loop (k + n) code bindings 0 [] =
      (case map_ok (\<lambda>v. [v]) (eval e bindings) of
         Inl e \<Rightarrow> Some (Inl e) | Inr stk \<Rightarrow> bytecode_loop n code bindings (length code) stk)"
    by (auto simp: runs_def)
  have "bytecode_loop n code bindings (length code) [v] = Some (Inr v)" for n v
    by (subst bytecode_loop.simps) simp
  then have "bytecode_loop (k + (length code - k)) code bindings 0 [] = Some (eval e bindings)"
    unfolding k(2) by (auto simp: map_ok_def split: sum.splits)
  then show ?thesis using k(1) by (simp add: eval_bytecode_def)
qed

theorem bytecode_agrees_witness:
  "eval_bytecode [BBinding [120] (Some 0), BJumpIfFalse 4, BConst Null, BGoto 8, BConst (Bool True),
       BJumpIfFalse 8, BConst Bot, BGoto 8] [Bool False] =
     Some (eval (Cond [(Binding [120] (Some 0), Const Null), (Const (Bool True), Const Bot)]) [Bool False])"
  by (rule bytecode_agrees) (simp_all add: compile_def Let_def)

section \<open>What the parser builds\<close>

lemma total_conds_pairs: "total_conds_args xs \<Longrightarrow> total_conds_clauses (pairs xs)"
  by (induction xs rule: pairs.induct) auto

lemma total_conds_args_iff: "total_conds_args xs \<longleftrightarrow> (\<forall>x \<in> set xs. total_conds x)"
  by (induction xs) auto

lemma total_conds_clauses_append:
  "total_conds_clauses (cs @ ds) \<longleftrightarrow> total_conds_clauses cs \<and> total_conds_clauses ds"
  by (induction cs) auto

lemma pairs_empty: "pairs xs = [] \<longleftrightarrow> length xs \<le> 1"
  by (cases xs rule: pairs.cases) auto

text \<open>Calls built from expressions with total conditionals have total conditionals.\<close>

lemma build_cond_total:
  assumes "build_cond args = Inr e" and "total_conds_args args"
  shows "total_conds e"
proof -
  define args' where "args' = (if odd (length args) then butlast args @ [Const Null, last args] else args)"
  have "e = Cond (if is_true_const (fst (last (pairs args'))) then pairs args'
      else pairs args' @ [(Const (Bool True), Const Null)])" and args: "args \<noteq> []"
    using assms(1) unfolding build_cond_def Let_def args'_def [symmetric] by (simp_all split: if_splits)
  moreover have "is_true_const c \<longleftrightarrow> c = Const (Bool True)" for c
    by (auto simp: is_true_const_def split: expr.splits data_value.splits bool.splits)
  ultimately have e: "e = Cond (if fst (last (pairs args')) = Const (Bool True) then pairs args'
      else pairs args' @ [(Const (Bool True), Const Null)])" by simp
  have "total_conds_args args'"
    using assms(2) args by (auto simp: args'_def total_conds_args_iff dest: in_set_butlastD)
  then have total: "total_conds_clauses (pairs args')" by (rule total_conds_pairs)
  have "pairs args' \<noteq> []"
    using args by (auto simp: pairs_empty args'_def le_Suc_eq)
  then show ?thesis
    using total unfolding e by (auto simp: total_conds_clauses_append)
qed

lemma build_if_total: "build_if args = Inr e \<Longrightarrow> total_conds_args args \<Longrightarrow> total_conds e"
  by (auto simp: build_if_def total_conds_args_iff split: if_splits)

lemma build_apply_total:
  "build_apply E op args = Inr e \<Longrightarrow> total_conds_args args \<Longrightarrow> total_conds e"
  by (auto simp: build_apply_def post_process_args_def and_then_Inr total_conds_args_iff
      dest!: set_update_subset_insert [THEN subsetD] split: if_splits)

lemma pairs_append: "even (length xs) \<Longrightarrow> pairs (xs @ ys) = pairs xs @ pairs ys"
  by (induction xs rule: pairs.induct) auto

lemma eval_clauses_false:
  "\<forall>p \<in> set cs. eval (fst p) b = Inr (Bool False) \<Longrightarrow> eval_clauses (cs @ ds) b = eval_clauses ds b"
  by (induction cs) (auto simp: get_bool_def)

text \<open>
  C35: \<open>cond\<close> with a default as its last, odd argument raises an error where it should return the default.
  For any odd number of arguments the default is paired with the condition null instead of true; whenever
  all the conditions before it are false, evaluation fails with a type error on that null.
\<close>

theorem cond_default_raises:
  assumes "odd (length args)"
  shows "\<exists>e. build_cond args = Inr e \<and>
    e = Cond (pairs (butlast args) @ [(Const Null, last args), (Const (Bool True), Const Null)]) \<and>
    ((\<forall>p \<in> set (pairs (butlast args)). eval (fst p) b = Inr (Bool False)) \<longrightarrow>
      eval e b = Inl (PredicateType Null))"
proof -
  have "args \<noteq> []" using assms by auto
  moreover have "pairs (butlast args @ [Const Null, last args]) = pairs (butlast args) @ [(Const Null, last args)]"
    using assms by (subst pairs_append) auto
  ultimately have "build_cond args =
      Inr (Cond (pairs (butlast args) @ [(Const Null, last args), (Const (Bool True), Const Null)]))"
    using assms by (simp add: build_cond_def Let_def is_true_const_def)
  then show ?thesis by (simp add: eval_clauses_false get_bool_def)
qed

theorem cond_default_raises_witness:
  "\<exists>e. build_cond [Const (Bool False), Const Bot, Binding [120] (Some 0), Const Bot, Const (Num (IntN 1))] = Inr e \<and>
    eval e [Bool False] = Inl (PredicateType Null)"
  using cond_default_raises [of "[Const (Bool False), Const Bot, Binding [120] (Some 0), Const Bot, Const (Num (IntN 1))]"
      "[Bool False]"]
  by (auto simp: read_binding_def)

section \<open>Partial evaluation keeps the value\<close>

text \<open>The operator with the name of the negation is the negation.\<close>

fun negate_ok :: "expr \<Rightarrow> bool" and negate_ok_args :: "expr list \<Rightarrow> bool" where
  "negate_ok (Apply op args) =
     ((op_name op = op_name OP_NEGATE \<longrightarrow> op_inner op = op_negate) \<and> negate_ok_args args)"
| "negate_ok _ = True"
| "negate_ok_args [] = True"
| "negate_ok_args (e # es) = (negate_ok e \<and> negate_ok_args es)"

lemma drop_double_negation_ok:
  "negate_ok e \<Longrightarrow> drop_double_negation e = Inr e' \<Longrightarrow> negate_ok e'"
  by (auto simp: drop_double_negation_def split: expr.splits list.splits if_splits)

lemma partial_eval_negate_ok:
  "negate_ok e \<Longrightarrow> partial_eval e = Inr e' \<Longrightarrow> negate_ok e'"
  "negate_ok_args es \<Longrightarrow> partial_eval_args es = Inr es' \<Longrightarrow> negate_ok_args es'"
proof (induction e and es arbitrary: e' and es' rule: partial_eval_partial_eval_args.induct)
  case (1 op args)
  then show ?case
    by (auto simp: and_then_Inr split: if_splits dest!: drop_double_negation_ok [rotated])
qed (auto simp: and_then_Inr)

lemma lift_op_simps [simp]:
  "lift_op (Inr v) = Inr v" "lift_op (Inl OpErr) = Inl EvalRaised" "lift_op (Inl OpPanic) = Inl EvalPanic"
  by (simp_all add: lift_op_def)

lemma lift_op_Inr [simp]: "lift_op r = Inr v \<longleftrightarrow> r = Inr v"
  by (auto simp: lift_op_def split: sum.splits op_error.splits)

lemma op_negate_Inr: "op_negate vs = Inr v \<longleftrightarrow> (\<exists>t rest. vs = Bool t # rest \<and> v = Bool (\<not> t))"
  by (cases vs rule: op_negate.cases) (auto split: data_value.splits)

lemma eval_args_const: "list_all is_const es \<Longrightarrow> eval_args es b = eval_args es []"
  by (induction es) (auto simp: is_const_def split: expr.splits)

lemma drop_double_negation_eval:
  assumes "negate_ok e" and "eval e b = Inr v"
  shows "\<exists>e'. drop_double_negation e = Inr e' \<and> eval e' b = Inr v"
proof (cases "\<exists>op1 op2 arg2 rest. e = Apply op1 (Apply op2 arg2 # rest) \<and>
    op_name op1 = op_name OP_NEGATE \<and> op_name op2 = op_name OP_NEGATE")
  case True
  then obtain op1 op2 arg2 rest where e: "e = Apply op1 (Apply op2 arg2 # rest)"
    "op_name op1 = op_name OP_NEGATE" "op_name op2 = op_name OP_NEGATE" by blast
  have inner: "op_inner op1 = op_negate" "op_inner op2 = op_negate" using assms(1) e by auto
  obtain vs w ws where vs: "eval_args arg2 b = Inr vs" "op_negate vs = Inr w" "op_negate (w # ws) = Inr v"
    using assms(2) e inner by (auto simp: and_then_Inr)
  then obtain t us where "vs = Bool t # us" "v = Bool t" by (auto simp: op_negate_Inr)
  with vs(1) show ?thesis using e by (cases arg2) (auto simp: drop_double_negation_def and_then_Inr)
next
  case False
  then have "drop_double_negation e = Inr e"
    by (auto simp: drop_double_negation_def split: expr.splits list.splits)
  then show ?thesis using assms(2) by simp
qed

lemma partial_eval_eval:
  "negate_ok e \<Longrightarrow> eval e b = Inr v \<Longrightarrow> \<exists>e'. partial_eval e = Inr e' \<and> eval e' b = Inr v"
  "negate_ok_args es \<Longrightarrow> eval_args es b = Inr vs \<Longrightarrow>
    \<exists>es'. partial_eval_args es = Inr es' \<and> eval_args es' b = Inr vs"
proof (induction e and es arbitrary: v and vs rule: partial_eval_partial_eval_args.induct)
  case (1 op args)
  obtain vs where vs: "eval_args args b = Inr vs" "op_inner op vs = Inr v"
    using "1.prems"(2) by (auto simp: and_then_Inr)
  obtain args' where args': "partial_eval_args args = Inr args'" "eval_args args' b = Inr vs"
    using "1.IH" "1.prems"(1) vs(1) by auto
  have ok: "negate_ok (Apply op args')"
    using "1.prems"(1) partial_eval_negate_ok(2) [OF _ args'(1)] by simp
  have ev: "eval (Apply op args') b = Inr v" using args'(2) vs(2) by simp
  show ?case
  proof (cases "list_all is_const args'")
    case True
    then have "eval (Apply op args') [] = Inr v" using ev eval_args_const [OF True, of b] by simp
    with True args'(1) show ?thesis by (simp del: eval.simps) simp
  next
    case False
    with drop_double_negation_eval [OF ok ev] args'(1) show ?thesis by simp
  qed
next
  case (7 e es)
  then show ?case by (fastforce simp: and_then_Inr)
qed auto

text \<open>
  C36: Partial evaluation, which folds constant calls and drops double negations, succeeds on every
  expression that has a value and keeps the value, whatever the variables stand for.
\<close>

theorem partial_eval_keeps_value:
  assumes "negate_ok e" and "eval e bindings = Inr v"
  shows "\<exists>e'. partial_eval e = Inr e' \<and> eval e' bindings = Inr v"
  using assms by (rule partial_eval_eval)

theorem partial_eval_keeps_value_witness:
  "\<exists>e'. partial_eval (negate (negate (Binding [120] (Some 0)))) = Inr e' \<and> eval e' [Bool True] = Inr (Bool True)"
  by (rule partial_eval_keeps_value) (simp_all add: negate_def OP_NEGATE_def read_binding_def)

end
