(* ===== verification/Program.thy ===== *)
theory Program
  imports Expr
begin

text \<open>
  The program representation of \<open>retia-core/src/data/program.rs\<close> that normalisation, reordering and
  stratification work on, and the generator of temporary symbols. Source spans are left out. The index
  searches (\<open>HnswSearch\<close>, \<open>FtsSearch\<close>, \<open>LshSearch\<close>) carry the handles and the manifest of their index, which no
  operation here looks at: they are the type parameter \<open>'m\<close>.
\<close>

section \<open>Atoms\<close>

record unification =
  binding :: symbol
  uexpr :: expr
  one_many_unif :: bool

record input_rule_apply_atom =
  ir_name :: symbol
  ir_args :: "expr list"

record input_named_field_relation_apply_atom =
  inf_name :: symbol
  inf_args :: "(bytes, expr) btree"
  inf_valid_at :: "i64 option"

record input_relation_apply_atom =
  irel_name :: symbol
  irel_args :: "expr list"
  irel_valid_at :: "i64 option"

record search_input =
  si_relation :: symbol
  si_index :: symbol
  si_bindings :: "(bytes, expr) btree"
  si_parameters :: "(bytes, expr) btree"

datatype input_atom =
    IRule input_rule_apply_atom
  | INamedFieldRelation input_named_field_relation_apply_atom
  | IRelation input_relation_apply_atom
  | IPredicate expr
  | INegation input_atom
  | IConjunction "input_atom list"
  | IDisjunction "input_atom list"
  | IUnification unification
  | ISearch search_input

record normal_form_rule_apply_atom =
  nr_name :: symbol
  nr_args :: "symbol list"

record normal_form_relation_apply_atom =
  nrel_name :: symbol
  nrel_args :: "symbol list"
  nrel_valid_at :: "i64 option"

record 'm hnsw_search =
  hnsw_index :: 'm
  hnsw_bindings :: "symbol list"
  hnsw_k :: nat
  hnsw_ef :: nat
  hnsw_query :: symbol
  bind_field :: "symbol option"
  bind_field_idx :: "symbol option"
  bind_distance :: "symbol option"
  bind_vector :: "symbol option"
  hnsw_radius :: "f64 option"
  hnsw_filter :: "expr option"

datatype fts_score_kind = TfIdf | Tf

record 'm fts_search =
  fts_index :: 'm
  fts_bindings :: "symbol list"
  fts_k :: nat
  fts_query :: symbol
  score_kind :: fts_score_kind
  bind_score :: "symbol option"
  fts_filter :: "expr option"

record 'm lsh_search =
  lsh_index :: 'm
  lsh_bindings :: "symbol list"
  lsh_k :: "nat option"
  lsh_query :: symbol
  lsh_filter :: "expr option"

datatype 'm normal_form_atom =
    Rule normal_form_rule_apply_atom
  | Relation normal_form_relation_apply_atom
  | NegatedRule normal_form_rule_apply_atom
  | NegatedRelation normal_form_relation_apply_atom
  | Predicate expr
  | Unification unification
  | HnswSearch "'m hnsw_search"
  | FtsSearch "'m fts_search"
  | LshSearch "'m lsh_search"

definition hnsw_all_bindings :: "'m hnsw_search \<Rightarrow> symbol list" where
  "hnsw_all_bindings s =
     hnsw_bindings s @ List.map_filter id [bind_field s, bind_field_idx s, bind_distance s, bind_vector s]"

definition fts_all_bindings :: "'m fts_search \<Rightarrow> symbol list" where
  "fts_all_bindings s = fts_bindings s @ List.map_filter id [bind_score s]"

definition lsh_all_bindings :: "'m lsh_search \<Rightarrow> symbol list" where
  "lsh_all_bindings s = lsh_bindings s"

definition unif_is_const :: "unification \<Rightarrow> bool" where
  "unif_is_const u = is_const (uexpr u)"

definition bindings_in_expr :: "unification \<Rightarrow> eval_error + symbol list" where
  "bindings_in_expr u = bindings_of (uexpr u)"

section \<open>Rules and programs\<close>

text \<open>An aggregation in a head comes with its arguments.\<close>

record input_inline_rule =
  ii_head :: "symbol list"
  ii_aggr :: "(aggr_name \<times> tuple) option list"
  ii_body :: "input_atom list"

record 'm normal_form_inline_rule =
  nf_head :: "symbol list"
  nf_aggr :: "(aggr_name \<times> tuple) option list"
  nf_body :: "'m normal_form_atom list"

datatype fixed_rule_arg =
    InMem symbol "symbol list"
  | Stored symbol "symbol list" "i64 option"
  | NamedStored symbol "(bytes, symbol) btree" "i64 option"

text \<open>
  A fixed rule application; the handle and the implementation of the algorithm, which is chosen at run time,
  are the type parameter \<open>'f\<close>.
\<close>

record 'f fixed_rule_apply =
  fixed_impl :: 'f
  rule_args :: "fixed_rule_arg list"
  fixed_options :: "(bytes, expr) btree"
  fixed_head :: "symbol list"
  fixed_arity :: nat

datatype 'f input_rules_or_fixed =
    InputRules "input_inline_rule list"
  | InputFixed "'f fixed_rule_apply"

datatype ('m, 'f) normal_form_rules_or_fixed =
    Rules "'m normal_form_inline_rule list"
  | Fixed "'f fixed_rule_apply"

record ('m, 'f) normal_form_program =
  prog :: "(symbol, ('m, 'f) normal_form_rules_or_fixed) btree"
  disable_magic_rewrite :: bool

section \<open>Temporary symbols\<close>

text \<open>The decimal digits of a counter, most significant first, as \<open>format!\<close> prints them.\<close>

fun decimal :: "nat \<Rightarrow> bytes" where
  "decimal n = (if n < 10 then [] else decimal (n div 10)) @ [48 + word_of_nat (n mod 10)]"

declare decimal.simps [simp del]

text \<open>The generator is its last identifier; it returns the symbol and the new state.\<close>

type_synonym temp_symb_gen = "32 word"

definition gen_next :: "temp_symb_gen \<Rightarrow> symbol \<times> temp_symb_gen" where
  "gen_next last_id = (let last_id = last_id + 1 in (42 # decimal (unat last_id), last_id))"

definition gen_next_ignored :: "temp_symb_gen \<Rightarrow> symbol \<times> temp_symb_gen" where
  "gen_next_ignored last_id = (let last_id = last_id + 1 in (126 # decimal (unat last_id), last_id))"

lemma decimal_not_Nil: "decimal n \<noteq> []" "[] \<noteq> decimal n"
  by (subst decimal.simps, simp)+

lemma decimal_inj: "decimal m = decimal n \<longleftrightarrow> m = n"
proof -
  have digit: "(word_of_nat (a mod 10) :: u8) = word_of_nat (b mod 10) \<longleftrightarrow> a mod 10 = b mod 10" for a b :: nat
  proof -
    have "unat (word_of_nat (a mod 10) :: u8) = a mod 10" for a :: nat
      by (simp add: unat_of_nat take_bit_nat_eq_self)
    then show ?thesis by metis
  qed
  have "decimal m = decimal n \<Longrightarrow> m = n"
  proof (induction m arbitrary: n rule: decimal.induct)
    case (1 m)
    let ?pre = "\<lambda>n. if n < 10 then [] else decimal (n div 10)"
    from 1(2) have eq: "?pre m = ?pre n" "m mod 10 = n mod 10"
      by (simp_all add: decimal.simps [of m] decimal.simps [of n] digit)
    have "m div 10 = n div 10"
    proof (cases "m < 10")
      case True
      with eq(1) have "n < 10" using decimal_not_Nil by (auto split: if_splits)
      with True show ?thesis by simp
    next
      case False
      with eq(1) have "\<not> n < 10" using decimal_not_Nil by (auto split: if_splits)
      with False eq(1) 1(1) show ?thesis by simp
    qed
    with eq(2) show ?case by (metis div_mult_mod_eq)
  qed
  then show ?thesis by blast
qed

end
