(* ===== verification/Graph.thy ===== *)
theory Graph
  imports BTree
begin

text \<open>
  \<open>retia-core/src/query/graph.rs\<close>: the graph algorithms behind stratification. A \<open>Graph<T>\<close> is a
  \<open>BTreeMap\<close> from nodes to successor lists, a \<open>StratifiedGraph<T>\<close> maps a node to its successors, each
  marked poisoned or not. Recursions and loops carry fuel, and running out of it is \<open>None\<close>; the lemmas
  show that the fuel the entry points give is enough. The cancellation check of \<open>Poison\<close> is left out.
\<close>

type_synonym 'a graph = "('a, 'a list) btree"
type_synonym 'a stratified_graph = "('a, ('a, bool) btree) btree"

section \<open>Reachability\<close>

text \<open>
  The recursion depth of \<open>walk\<close> is bounded by the number of nodes it can still collect.
\<close>

function (sequential) walk ::
    "('a \<Rightarrow> 'a \<Rightarrow> ordering) \<Rightarrow> 'a graph \<Rightarrow> nat \<Rightarrow> 'a \<Rightarrow> 'a list \<Rightarrow> 'a list option"
  and walk_children ::
    "('a \<Rightarrow> 'a \<Rightarrow> ordering) \<Rightarrow> 'a graph \<Rightarrow> nat \<Rightarrow> 'a list \<Rightarrow> 'a list \<Rightarrow> 'a list option" where
  "walk cmp graph 0 starting collected = None"
| "walk cmp graph (Suc n) starting collected =
     (case bmap_get cmp graph starting of
        Some children \<Rightarrow> walk_children cmp graph n children collected
      | None \<Rightarrow> Some collected)"
| "walk_children cmp graph n [] collected = Some collected"
| "walk_children cmp graph n (el # children) collected =
     (if \<not> bset_contains cmp el collected then
        (case walk cmp graph n el (bset_insert cmp el collected) of
           Some collected' \<Rightarrow> walk_children cmp graph n children collected'
         | None \<Rightarrow> None)
      else walk_children cmp graph n children collected)"
  by pat_completeness auto
termination
  by (relation "measures
      [\<lambda>x. case x of Inl (_, _, n, _, _) \<Rightarrow> n | Inr (_, _, n, _, _) \<Rightarrow> n,
       \<lambda>x. case x of Inl _ \<Rightarrow> 0 | Inr (_, _, _, els, _) \<Rightarrow> Suc (length els)]") auto

definition graph_size :: "'a graph \<Rightarrow> nat" where
  "graph_size graph = length (concat (map snd graph))"

definition reachable_components :: "('a \<Rightarrow> 'a \<Rightarrow> ordering) \<Rightarrow> 'a graph \<Rightarrow> 'a \<Rightarrow> 'a list option" where
  "reachable_components cmp graph start = walk cmp graph (graph_size graph + 2) start [start]"

section \<open>Stratification by a generalised Kahn's algorithm\<close>

record kahn_state =
  in_degree :: "nat list"
  ret :: "nat list list"
  current_stratum :: "nat list"
  safe_pending :: "nat list"
  unsafe_nodes :: "nat list"

abbreviation (input) "insert_node \<equiv> bset_insert (cmp_ord :: nat \<Rightarrow> nat \<Rightarrow> ordering)"

definition kahn_degrees :: "nat stratified_graph \<Rightarrow> nat \<Rightarrow> nat list" where
  "kahn_degrees graph num_nodes =
     fold (\<lambda>to d. d[to := d ! to + 1]) (concat (map (map fst \<circ> snd) graph)) (replicate num_nodes 0)"

text \<open>\<open>pop\<close> and \<open>push\<close> work on the last element of a vector.\<close>

fun kahn_edges :: "(nat, bool) btree \<Rightarrow> kahn_state \<Rightarrow> kahn_state" where
  "kahn_edges [] s = s"
| "kahn_edges ((nxt, poisoned) # edges) s =
     (let deg = (in_degree s)[nxt := in_degree s ! nxt - 1];
          uns = (if poisoned then insert_node nxt (unsafe_nodes s) else unsafe_nodes s);
          safe = (if deg ! nxt = 0 \<and> nxt \<notin> set uns then safe_pending s @ [nxt] else safe_pending s)
      in kahn_edges edges (s\<lparr>in_degree := deg, unsafe_nodes := uns, safe_pending := safe\<rparr>))"

definition kahn_flush :: "kahn_state \<Rightarrow> kahn_state" where
  "kahn_flush s =
     (if safe_pending s = [] \<and> unsafe_nodes s \<noteq> [] then
        s\<lparr>ret := ret s @ [current_stratum s], current_stratum := [],
          safe_pending := filter (\<lambda>node. in_degree s ! node = 0) (unsafe_nodes s), unsafe_nodes := []\<rparr>
      else s)"

fun kahn_loop :: "nat stratified_graph \<Rightarrow> nat \<Rightarrow> kahn_state \<Rightarrow> nat list list option" where
  "kahn_loop graph 0 s = None"
| "kahn_loop graph (Suc n) s =
     (let s = kahn_flush s in
      if safe_pending s = [] then
        Some (if current_stratum s \<noteq> [] then ret s @ [current_stratum s] else ret s)
      else
        (let removed = last (safe_pending s);
             s = s\<lparr>safe_pending := butlast (safe_pending s), current_stratum := current_stratum s @ [removed]\<rparr>
         in kahn_loop graph n
              (case bmap_get cmp_ord graph removed of
                 Some edges \<Rightarrow> kahn_edges edges s
               | None \<Rightarrow> s)))"

definition kahn_init :: "nat stratified_graph \<Rightarrow> nat \<Rightarrow> kahn_state" where
  "kahn_init graph num_nodes =
     \<lparr>in_degree = kahn_degrees graph num_nodes, ret = [], current_stratum = [],
      safe_pending = filter (\<lambda>node. kahn_degrees graph num_nodes ! node = 0) [0..<num_nodes],
      unsafe_nodes = []\<rparr>"

definition generalized_kahn :: "nat stratified_graph \<Rightarrow> nat \<Rightarrow> nat list list option" where
  "generalized_kahn graph num_nodes = kahn_loop graph (num_nodes + 1) (kahn_init graph num_nodes)"

section \<open>Strongly connected components\<close>

record tarjan =
  next_id :: nat
  ids :: "nat option list"
  low :: "nat list"
  on_stack :: "bool list"
  stack :: "nat list" \<comment> \<open>the top is the last element\<close>

definition tarjan_new :: "nat list list \<Rightarrow> tarjan" where
  "tarjan_new graph =
     \<lparr>next_id = 0, ids = replicate (length graph) None, low = replicate (length graph) 0,
      on_stack = replicate (length graph) False, stack = []\<rparr>"

text \<open>The loop that pops a finished component off the stack.\<close>

function tarjan_pop :: "nat \<Rightarrow> nat \<Rightarrow> tarjan \<Rightarrow> tarjan" where
  "tarjan_pop at root s =
     (if stack s = [] then s
      else
        (let node = last (stack s);
             s = s\<lparr>stack := butlast (stack s), on_stack := (on_stack s)[node := False],
                   low := (low s)[node := root]\<rparr>
         in if node = at then s else tarjan_pop at root s))"
  by auto
termination
  by (relation "measure (\<lambda>(at, root, s). length (stack s))") (auto simp: Let_def)

declare tarjan_pop.simps [simp del]

function (sequential) tarjan_dfs :: "nat list list \<Rightarrow> nat \<Rightarrow> nat \<Rightarrow> tarjan \<Rightarrow> tarjan option"
  and tarjan_children :: "nat list list \<Rightarrow> nat \<Rightarrow> nat \<Rightarrow> nat list \<Rightarrow> tarjan \<Rightarrow> tarjan option" where
  "tarjan_dfs graph 0 at s = None"
| "tarjan_dfs graph (Suc n) at s =
     (let i = next_id s + 1;
          s = s\<lparr>stack := stack s @ [at], on_stack := (on_stack s)[at := True], next_id := i,
                ids := (ids s)[at := Some i], low := (low s)[at := i]\<rparr>
      in case tarjan_children graph n at (graph ! at) s of
           None \<Rightarrow> None
         | Some s \<Rightarrow> Some (if ids s ! at = Some (low s ! at) then tarjan_pop at (low s ! at) s else s))"
| "tarjan_children graph n at [] s = Some s"
| "tarjan_children graph n at (to # tos) s =
     (case (if ids s ! to = None then tarjan_dfs graph n to s else Some s) of
        None \<Rightarrow> None
      | Some s \<Rightarrow>
          tarjan_children graph n at tos
            (if on_stack s ! to then s\<lparr>low := (low s)[at := min (low s ! at) (low s ! to)]\<rparr> else s))"
  by pat_completeness auto
termination
  by (relation "measures
      [\<lambda>x. case x of Inl (_, n, _, _) \<Rightarrow> n | Inr (_, n, _, _, _) \<Rightarrow> n,
       \<lambda>x. case x of Inl _ \<Rightarrow> 0 | Inr (_, _, _, tos, _) \<Rightarrow> Suc (length tos)]") auto

fun tarjan_all :: "nat list list \<Rightarrow> nat list \<Rightarrow> tarjan \<Rightarrow> tarjan option" where
  "tarjan_all graph [] s = Some s"
| "tarjan_all graph (i # is) s =
     (case (if ids s ! i = None then tarjan_dfs graph (length graph + 1) i s else Some s) of
        None \<Rightarrow> None
      | Some s \<Rightarrow> tarjan_all graph is s)"

text \<open>\<open>low_map.entry(grp).or_default().push(idx)\<close> for every node.\<close>

definition low_groups :: "nat list \<Rightarrow> (nat, nat list) btree" where
  "low_groups lows = fold (\<lambda>(grp, idx) m.
     bmap_insert cmp_ord grp ((case bmap_get cmp_ord m grp of None \<Rightarrow> [] | Some l \<Rightarrow> l) @ [idx]) m)
     (zip lows [0..<length lows]) []"

definition tarjan_run :: "nat list list \<Rightarrow> nat list list option" where
  "tarjan_run graph =
     map_option (\<lambda>s. map snd (low_groups (low s))) (tarjan_all graph [0..<length graph] (tarjan_new graph))"

definition strongly_connected_components ::
  "('a \<Rightarrow> 'a \<Rightarrow> ordering) \<Rightarrow> 'a graph \<Rightarrow> 'a list list option" where
  "strongly_connected_components cmp graph =
     (let indices = map fst graph;
          invert_indices = zip indices [0..<length indices];
          idx_graph = map (\<lambda>(_, vs). List.map_filter (bmap_get cmp invert_indices) vs) graph
      in map_option (map (map (\<lambda>i. indices ! i))) (tarjan_run idx_graph))"

section \<open>Reachability is the reflexive transitive closure\<close>

definition graph_edges :: "('a \<Rightarrow> 'a \<Rightarrow> ordering) \<Rightarrow> 'a graph \<Rightarrow> ('a \<times> 'a) set" where
  "graph_edges cmp graph = {(u, v). \<exists>vs. bmap_get cmp graph u = Some vs \<and> v \<in> set vs}"

definition targets :: "'a graph \<Rightarrow> 'a set" where
  "targets graph = set (concat (map snd graph))"

lemma bmap_get_targets: "bmap_get cmp graph u = Some vs \<Longrightarrow> set vs \<subseteq> targets graph"
  unfolding targets_def using bmap_get_Some_in [of cmp graph u vs] by force

text \<open>
  What a walk that does not run out of fuel has done to the collected set: it grew, every node it
  added has all its successors in the set, and it added only nodes reachable from where it started.
\<close>

definition walked ::
  "('a \<times> 'a) set \<Rightarrow> 'a set \<Rightarrow> 'a list \<Rightarrow> 'a list \<Rightarrow> bool" where
  "walked R from collected collected' \<longleftrightarrow>
     set collected \<subseteq> set collected' \<and>
     R `` (set collected' - set collected) \<subseteq> set collected' \<and>
     set collected' \<subseteq> set collected \<union> R\<^sup>* `` from"

lemma walked_trans:
  assumes "walked R A c c'" and "walked R B c' c''"
  shows "walked R (A \<union> B) c c''"
  using assms unfolding walked_def by blast

lemma walked_insert:
  assumes "walked R {x} c' c''" and "set c' = insert x (set c)" and "R `` {x} \<subseteq> set c''"
  shows "walked R {x} c c''"
  using assms unfolding walked_def by (auto 0 3)

context linear_cmp
begin

lemma walk_children_total:
  assumes walk: "\<And>starting collected. card (targets graph - set collected) < n \<Longrightarrow>
     \<exists>c. walk cmp graph n starting collected = Some c \<and> walked (graph_edges cmp graph) {starting} collected c \<and>
       graph_edges cmp graph `` {starting} \<subseteq> set c"
  shows "card (targets graph - set collected) \<le> n \<Longrightarrow> set els \<subseteq> targets graph \<Longrightarrow>
     \<exists>c. walk_children cmp graph n els collected = Some c \<and> walked (graph_edges cmp graph) (set els) collected c \<and>
       set els \<subseteq> set c"
proof (induction els arbitrary: collected)
  case Nil
  then show ?case by (simp add: walked_def)
next
  case (Cons el els)
  have fin: "finite (targets graph - set c)" for c by (simp add: targets_def)
  show ?case
  proof (cases "el \<in> set collected")
    case True
    with Cons.IH [OF Cons.prems(1)] Cons.prems(2) obtain c where
      "walk_children cmp graph n els collected = Some c" "walked (graph_edges cmp graph) (set els) collected c"
      "set els \<subseteq> set c" by auto
    with True show ?thesis
      by (intro exI [of _ c]) (auto simp: bset_contains_iff walked_def)
  next
    case False
    let ?c1 = "bset_insert cmp el collected"
    have c1: "set ?c1 = insert el (set collected)" by (rule set_bset_insert)
    have "targets graph - set ?c1 \<subset> targets graph - set collected"
      using Cons.prems(2) False by (auto simp: c1)
    then have lt: "card (targets graph - set ?c1) < n"
      using psubset_card_mono [OF fin] Cons.prems(1) by (meson order_less_le_trans)
    obtain c2 where c2: "walk cmp graph n el ?c1 = Some c2" "walked (graph_edges cmp graph) {el} ?c1 c2"
      "graph_edges cmp graph `` {el} \<subseteq> set c2"
      using walk [OF lt, of el] by blast
    then have w: "walked (graph_edges cmp graph) {el} collected c2" by (intro walked_insert [OF _ c1])
    have "targets graph - set c2 \<subseteq> targets graph - set collected" using w by (auto simp: walked_def)
    then have "card (targets graph - set c2) \<le> n"
      using card_mono [OF fin] Cons.prems(1) by (meson order_trans)
    from Cons.IH [OF this] Cons.prems(2) obtain c where
      c: "walk_children cmp graph n els c2 = Some c" "walked (graph_edges cmp graph) (set els) c2 c" "set els \<subseteq> set c"
      by auto
    have "el \<in> set c" using c2(2) c(2) c1 by (auto simp: walked_def)
    with False c c2(1) walked_trans [OF w c(2)] show ?thesis
      by (auto simp: bset_contains_iff)
  qed
qed

lemma walk_total:
  "card (targets graph - set collected) < n \<Longrightarrow>
     \<exists>c. walk cmp graph n starting collected = Some c \<and> walked (graph_edges cmp graph) {starting} collected c \<and>
       graph_edges cmp graph `` {starting} \<subseteq> set c"
proof (induction n arbitrary: starting collected)
  case (Suc n)
  show ?case
  proof (cases "bmap_get cmp graph starting")
    case None
    then show ?thesis by (auto simp: walked_def graph_edges_def)
  next
    case (Some children)
    from Suc.prems have "card (targets graph - set collected) \<le> n" by simp
    from walk_children_total [OF Suc.IH this bmap_get_targets [OF Some]] obtain c where
      c: "walk_children cmp graph n children collected = Some c"
      "walked (graph_edges cmp graph) (set children) collected c" "set children \<subseteq> set c" by blast
    have eq: "set children = graph_edges cmp graph `` {starting}"
      using Some by (auto simp: graph_edges_def)
    then have "(graph_edges cmp graph)\<^sup>* `` set children \<subseteq> (graph_edges cmp graph)\<^sup>* `` {starting}"
      by (auto intro: converse_rtrancl_into_rtrancl)
    then have "walked (graph_edges cmp graph) {starting} collected c"
      using c(2) unfolding walked_def by blast
    with c(1,3) eq Some show ?thesis by simp
  qed
qed simp

lemma reachable_components_closure:
  "\<exists>c. reachable_components cmp graph start = Some c \<and> set c = (graph_edges cmp graph)\<^sup>* `` {start}"
proof -
  have "card (targets graph - set [start]) \<le> card (targets graph)"
    by (rule card_mono) (auto simp: targets_def)
  also have "\<dots> \<le> graph_size graph" unfolding targets_def graph_size_def by (rule card_length)
  finally obtain c where c: "reachable_components cmp graph start = Some c"
    "walked (graph_edges cmp graph) {start} [start] c" "graph_edges cmp graph `` {start} \<subseteq> set c"
    using walk_total [of graph "[start]" "graph_size graph + 2" start]
    unfolding reachable_components_def by auto
  have closed: "graph_edges cmp graph `` set c \<subseteq> set c"
    using c(2,3) by (auto simp: walked_def)
  have "start \<in> set c" using c(2) by (simp add: walked_def)
  moreover have "v \<in> set c" if "(start, v) \<in> (graph_edges cmp graph)\<^sup>*" for v
    using that \<open>start \<in> set c\<close> closed by (induction rule: rtrancl_induct) auto
  ultimately have "set c = (graph_edges cmp graph)\<^sup>* `` {start}"
    using c(2) by (auto simp: walked_def)
  with c(1) show ?thesis by blast
qed

end

section \<open>The generalised Kahn algorithm\<close>

definition kahn_edge :: "nat stratified_graph \<Rightarrow> nat \<Rightarrow> nat \<Rightarrow> bool \<Rightarrow> bool" where
  "kahn_edge g u v p \<longleftrightarrow> (\<exists>es. (u, es) \<in> set g \<and> (v, p) \<in> set es)"

definition kahn_wf :: "nat stratified_graph \<Rightarrow> nat \<Rightarrow> bool" where
  "kahn_wf g n \<longleftrightarrow> distinct (map fst g) \<and>
     (\<forall>(u, es) \<in> set g. u < n \<and> distinct (map fst es) \<and> (\<forall>(v, p) \<in> set es. v < n))"

text \<open>The number of nodes not done yet that have an edge to \<open>v\<close>.\<close>

definition open_preds :: "nat stratified_graph \<Rightarrow> nat set \<Rightarrow> nat \<Rightarrow> nat" where
  "open_preds g D v = length (filter (\<lambda>(u, es). u \<notin> D \<and> v \<in> fst ` set es) g)"

lemma open_preds_0: "open_preds g D v = 0 \<longleftrightarrow> (\<forall>u p. kahn_edge g u v p \<longrightarrow> u \<in> D)"
  by (force simp: open_preds_def kahn_edge_def filter_empty_conv)

lemma open_preds_insert:
  assumes "distinct (map fst g)" and "r \<notin> D"
  shows "open_preds g D v = open_preds g (insert r D) v +
    (if \<exists>p. kahn_edge g r v p then 1 else 0)"
  using assms(1)
proof (induction g)
  case Nil
  then show ?case by (simp add: open_preds_def kahn_edge_def)
next
  case (Cons x g)
  obtain u es where x: "x = (u, es)" by (cases x)
  have edge: "(\<exists>p. kahn_edge (x # g) r v p) \<longleftrightarrow> r = u \<and> v \<in> fst ` set es \<or> (\<exists>p. kahn_edge g r v p)"
    by (force simp: kahn_edge_def x)
  have "u = r \<Longrightarrow> \<not> (\<exists>p. kahn_edge g r v p)"
    using Cons.prems by (force simp: kahn_edge_def x)
  with Cons assms(2) edge show ?case
    by (auto simp: open_preds_def x split: if_splits)
qed

lemma count_list_distinct: "distinct xs \<Longrightarrow> count_list xs v = (if v \<in> set xs then 1 else 0)"
  by (induction xs) (auto simp: count_list_0_iff)

lemma kahn_degrees_eq:
  assumes "kahn_wf g n"
  shows "length (kahn_degrees g n) = n \<and> (\<forall>v < n. kahn_degrees g n ! v = open_preds g {} v)"
proof -
  have fold: "length (fold (\<lambda>to d. d[to := d ! to + 1]) ts d) = length d \<and>
      (\<forall>v < length d. fold (\<lambda>to d. d[to := d ! to + 1]) ts d ! v = d ! v + count_list ts v)" for ts and d :: "nat list"
    by (induction ts arbitrary: d) (auto simp: nth_list_update)
  have "count_list (concat (map (map fst \<circ> snd) g)) v = open_preds g {} v" for v
    using assms unfolding kahn_wf_def
  proof (induction g)
    case (Cons x g)
    then have "distinct (map fst (snd x))" by auto
    then have "count_list (map fst (snd x)) v = (if v \<in> fst ` set (snd x) then 1 else 0)"
      using count_list_distinct [of "map fst (snd x)" v] by simp
    with Cons show ?case by (auto simp: open_preds_def count_list_append)
  qed (simp add: open_preds_def)
  with fold [of "concat (map (map fst \<circ> snd) g)" "replicate n 0"] show ?thesis
    by (simp add: kahn_degrees_def)
qed

text \<open>What processing the edges of a removed node does.\<close>

lemma kahn_edges_fields:
  assumes "distinct (map fst es)" and "\<forall>(v, p) \<in> set es. v < length (in_degree s)"
  shows "ret (kahn_edges es s) = ret s" "current_stratum (kahn_edges es s) = current_stratum s"
    "length (in_degree (kahn_edges es s)) = length (in_degree s)"
    "v < length (in_degree s) \<Longrightarrow>
       in_degree (kahn_edges es s) ! v = in_degree s ! v - (if v \<in> fst ` set es then 1 else 0)"
    "set (unsafe_nodes (kahn_edges es s)) = set (unsafe_nodes s) \<union> {v. (v, True) \<in> set es}"
    "bset_wf cmp_ord (unsafe_nodes s) \<Longrightarrow> bset_wf cmp_ord (unsafe_nodes (kahn_edges es s))"
    "safe_pending (kahn_edges es s) = safe_pending s @
       map fst (filter (\<lambda>(v, p). in_degree s ! v - 1 = 0 \<and> \<not> p \<and> v \<notin> set (unsafe_nodes s)) es)"
proof -
  show "bset_wf cmp_ord (unsafe_nodes s) \<Longrightarrow> bset_wf cmp_ord (unsafe_nodes (kahn_edges es s))"
    by (induction es s rule: kahn_edges.induct) (auto simp: Let_def ord.bset_wf_insert)
  have "ret (kahn_edges es s) = ret s \<and> current_stratum (kahn_edges es s) = current_stratum s \<and>
    length (in_degree (kahn_edges es s)) = length (in_degree s) \<and>
    (\<forall>v < length (in_degree s). in_degree (kahn_edges es s) ! v = in_degree s ! v - (if v \<in> fst ` set es then 1 else 0)) \<and>
    set (unsafe_nodes (kahn_edges es s)) = set (unsafe_nodes s) \<union> {v. (v, True) \<in> set es} \<and>
    safe_pending (kahn_edges es s) = safe_pending s @
       map fst (filter (\<lambda>(v, p). in_degree s ! v - 1 = 0 \<and> \<not> p \<and> v \<notin> set (unsafe_nodes s)) es)"
    using assms
  proof (induction es arbitrary: s)
    case (Cons e es)
    obtain w q where e: "e = (w, q)" by (cases e)
    let ?uns = "if q then insert_node w (unsafe_nodes s) else unsafe_nodes s"
    let ?deg = "(in_degree s)[w := in_degree s ! w - 1]"
    let ?s = "s\<lparr>in_degree := ?deg, unsafe_nodes := ?uns,
        safe_pending := if ?deg ! w = 0 \<and> w \<notin> set ?uns then safe_pending s @ [w] else safe_pending s\<rparr>"
    have step: "kahn_edges (e # es) s = kahn_edges es ?s" by (simp add: e Let_def)
    have uns: "set ?uns = (if q then insert w (set (unsafe_nodes s)) else set (unsafe_nodes s))"
      by (simp add: ord.set_bset_insert)
    have w: "w \<notin> fst ` set es" "w < length (in_degree s)" using Cons.prems by (auto simp: e)
    have later: "v \<noteq> w" if "(v, p) \<in> set es" for v p using w(1) that by force
    note IH = Cons.IH [of ?s]
    have filt: "filter (\<lambda>(v, p). in_degree ?s ! v - 1 = 0 \<and> \<not> p \<and> v \<notin> set (unsafe_nodes ?s)) es =
        filter (\<lambda>(v, p). in_degree s ! v - 1 = 0 \<and> \<not> p \<and> v \<notin> set (unsafe_nodes s)) es"
      by (rule filter_cong) (auto simp: uns dest: later)
    show ?case
      using IH Cons.prems w filt uns unfolding step by (auto simp: e nth_list_update)
  qed simp
  then show "ret (kahn_edges es s) = ret s" "current_stratum (kahn_edges es s) = current_stratum s"
    "length (in_degree (kahn_edges es s)) = length (in_degree s)"
    "v < length (in_degree s) \<Longrightarrow>
       in_degree (kahn_edges es s) ! v = in_degree s ! v - (if v \<in> fst ` set es then 1 else 0)"
    "set (unsafe_nodes (kahn_edges es s)) = set (unsafe_nodes s) \<union> {v. (v, True) \<in> set es}"
    "safe_pending (kahn_edges es s) = safe_pending s @
       map fst (filter (\<lambda>(v, p). in_degree s ! v - 1 = 0 \<and> \<not> p \<and> v \<notin> set (unsafe_nodes s)) es)"
    by blast+
qed

definition done_nodes :: "kahn_state \<Rightarrow> nat set" where
  "done_nodes s = set (concat (ret s)) \<union> set (current_stratum s)"

text \<open>
  A sequence of strata respects the edges when the predecessors of every node are in earlier strata
  or, over an edge that is not poisoned, in the same one.
\<close>

fun strata_from :: "nat stratified_graph \<Rightarrow> nat set \<Rightarrow> nat list list \<Rightarrow> bool" where
  "strata_from g D [] = True"
| "strata_from g D (x # xs) =
     ((\<forall>v \<in> set x. \<forall>u p. kahn_edge g u v p \<longrightarrow> u \<in> D \<or> \<not> p \<and> u \<in> set x) \<and> strata_from g (D \<union> set x) xs)"

lemma strata_from_append:
  "strata_from g D (xs @ ys) \<longleftrightarrow> strata_from g D xs \<and> strata_from g (D \<union> set (concat xs)) ys"
  by (induction xs arbitrary: D) (auto simp: Un_assoc)

lemma strata_from_pred:
  "strata_from g D xs \<Longrightarrow> v \<in> set (concat xs) \<Longrightarrow> kahn_edge g u v p \<Longrightarrow> u \<in> D \<union> set (concat xs)"
  by (induction xs arbitrary: D) fastforce+

definition kahn_inv :: "nat stratified_graph \<Rightarrow> nat \<Rightarrow> kahn_state \<Rightarrow> bool" where
  "kahn_inv g n s \<longleftrightarrow>
     length (in_degree s) = n \<and> done_nodes s \<subseteq> {..<n} \<and>
     distinct (concat (ret s) @ current_stratum s) \<and> distinct (safe_pending s) \<and>
     bset_wf cmp_ord (unsafe_nodes s) \<and>
     (\<forall>v < n. in_degree s ! v = open_preds g (done_nodes s) v) \<and>
     (\<forall>v \<in> set (safe_pending s).
        v < n \<and> v \<notin> done_nodes s \<and> open_preds g (done_nodes s) v = 0 \<and> v \<notin> set (unsafe_nodes s)) \<and>
     (\<forall>v. v \<in> set (unsafe_nodes s) \<longleftrightarrow>
        v \<notin> done_nodes s \<and> (\<exists>u \<in> set (current_stratum s). kahn_edge g u v True)) \<and>
     (\<forall>v < n. v \<notin> done_nodes s \<longrightarrow> open_preds g (done_nodes s) v = 0 \<longrightarrow>
        v \<in> set (safe_pending s) \<union> set (unsafe_nodes s)) \<and>
     strata_from g {} (ret s @ [current_stratum s])"

lemma kahn_edge_get:
  assumes "distinct (map fst g)"
  shows "kahn_edge g u v p \<longleftrightarrow> (v, p) \<in> set (case bmap_get cmp_ord g u of Some es \<Rightarrow> es | None \<Rightarrow> [])"
  using assms
proof (induction g)
  case (Cons x g)
  then show ?case by (cases x) (auto simp: kahn_edge_def image_iff split: option.splits)
qed (simp add: kahn_edge_def)

lemma kahn_edge_bounds: "kahn_wf g n \<Longrightarrow> kahn_edge g u v p \<Longrightarrow> u < n \<and> v < n"
  by (fastforce simp: kahn_wf_def kahn_edge_def)

lemma kahn_wf_get:
  assumes "kahn_wf g n" and "es = (case bmap_get cmp_ord g u of Some es \<Rightarrow> es | None \<Rightarrow> [])"
  shows "distinct (map fst es)" "\<forall>(v, p) \<in> set es. v < n"
proof -
  have "distinct (map fst es) \<and> (\<forall>(v, p) \<in> set es. v < n)"
  proof (cases "bmap_get cmp_ord g u")
    case (Some l)
    with bmap_get_Some_in [OF Some] assms show ?thesis by (auto simp: kahn_wf_def)
  qed (simp add: assms(2))
  then show "distinct (map fst es)" "\<forall>(v, p) \<in> set es. v < n" by blast+
qed

lemma kahn_done_pred:
  assumes "kahn_inv g n s" and "v \<in> done_nodes s" and "kahn_edge g u v p"
  shows "u \<in> done_nodes s"
proof -
  have "strata_from g {} (ret s @ [current_stratum s])" using assms(1) by (simp add: kahn_inv_def)
  from strata_from_pred [OF this _ assms(3)] assms(2) show ?thesis by (simp add: done_nodes_def)
qed

lemma kahn_flush_inv:
  assumes wf: "kahn_wf g n" and "kahn_inv g n s"
  shows "kahn_inv g n (kahn_flush s)" "done_nodes (kahn_flush s) = done_nodes s"
    "safe_pending (kahn_flush s) = [] \<Longrightarrow> unsafe_nodes (kahn_flush s) = []"
proof -
  show d: "done_nodes (kahn_flush s) = done_nodes s"
    by (auto simp: kahn_flush_def done_nodes_def)
  show "safe_pending (kahn_flush s) = [] \<Longrightarrow> unsafe_nodes (kahn_flush s) = []"
    by (auto simp: kahn_flush_def split: if_splits)
  show "kahn_inv g n (kahn_flush s)"
  proof (cases "safe_pending s = [] \<and> unsafe_nodes s \<noteq> []")
    case True
    have bound: "kahn_edge g u v True \<Longrightarrow> v < n" for u v
      using kahn_edge_bounds [OF wf] by blast
    have "distinct (unsafe_nodes s)"
      using assms(2) by (intro ord.bset_wf_distinct) (simp add: kahn_inv_def)
    with True assms bound show ?thesis
      unfolding kahn_inv_def d
      by (auto simp: kahn_flush_def strata_from_append)
  next
    case False
    then have "kahn_flush s = s" by (auto simp: kahn_flush_def)
    with assms show ?thesis by simp
  qed
qed

text \<open>One iteration of the loop after the flush: the last pending node is done.\<close>

definition kahn_step :: "nat stratified_graph \<Rightarrow> kahn_state \<Rightarrow> kahn_state" where
  "kahn_step g s =
     (let removed = last (safe_pending s);
          s = s\<lparr>safe_pending := butlast (safe_pending s), current_stratum := current_stratum s @ [removed]\<rparr>
      in case bmap_get cmp_ord g removed of Some edges \<Rightarrow> kahn_edges edges s | None \<Rightarrow> s)"

lemma kahn_loop_step:
  "kahn_loop g (Suc k) s =
     (if safe_pending (kahn_flush s) = [] then
        Some (if current_stratum (kahn_flush s) \<noteq> [] then ret (kahn_flush s) @ [current_stratum (kahn_flush s)]
              else ret (kahn_flush s))
      else kahn_loop g k (kahn_step g (kahn_flush s)))"
  by (simp add: kahn_step_def Let_def)

lemma kahn_step_inv:
  assumes wf: "kahn_wf g n" and inv: "kahn_inv g n s" and ne: "safe_pending s \<noteq> []"
  shows "kahn_inv g n (kahn_step g s) \<and> done_nodes (kahn_step g s) = insert (last (safe_pending s)) (done_nodes s)"
proof -
  define r where "r = last (safe_pending s)"
  define es where "es = (case bmap_get cmp_ord g r of Some es \<Rightarrow> es | None \<Rightarrow> [])"
  define s1 where "s1 = s\<lparr>safe_pending := butlast (safe_pending s), current_stratum := current_stratum s @ [r]\<rparr>"
  let ?s' = "kahn_edges es s1" and ?D = "done_nodes s"
  have step: "kahn_step g s = ?s'"
    by (simp add: kahn_step_def r_def es_def s1_def Let_def split: option.splits)
  have dist: "distinct (map fst g)" using wf by (simp add: kahn_wf_def)
  note edge = kahn_edge_get [OF dist, of r, folded es_def]
  note es_wf = kahn_wf_get [OF wf es_def]
  have safe: "safe_pending s = butlast (safe_pending s) @ [r]" using ne by (simp add: r_def)
  have len: "length (in_degree s) = n" and D: "?D \<subseteq> {..<n}"
    and dist_s: "distinct (concat (ret s) @ current_stratum s)" "distinct (safe_pending s)"
    and uwf: "bset_wf cmp_ord (unsafe_nodes s)"
    and deg: "\<And>v. v < n \<Longrightarrow> in_degree s ! v = open_preds g ?D v"
    and sf: "\<And>v. v \<in> set (safe_pending s) \<Longrightarrow> v < n \<and> v \<notin> ?D \<and> open_preds g ?D v = 0 \<and> v \<notin> set (unsafe_nodes s)"
    and uns: "\<And>v. v \<in> set (unsafe_nodes s) \<longleftrightarrow> v \<notin> ?D \<and> (\<exists>u \<in> set (current_stratum s). kahn_edge g u v True)"
    and pend: "\<And>v. v < n \<Longrightarrow> v \<notin> ?D \<Longrightarrow> open_preds g ?D v = 0 \<Longrightarrow> v \<in> set (safe_pending s) \<union> set (unsafe_nodes s)"
    and strata: "strata_from g {} (ret s @ [current_stratum s])"
    using inv unfolding kahn_inv_def by blast+
  have r: "r < n" "r \<notin> ?D" "open_preds g ?D r = 0" "r \<notin> set (unsafe_nodes s)" "r \<in> set (safe_pending s)"
    using sf [of r] safe by (metis in_set_conv_decomp)+
  have targets: "v \<notin> insert r ?D" "v \<notin> set (safe_pending s)" if "(v, p) \<in> set es" for v p
  proof -
    have e: "kahn_edge g r v p" using that edge by simp
    then have "v \<notin> ?D" using kahn_done_pred [OF inv] r(2) by blast
    moreover have "open_preds g ?D v \<noteq> 0" using e r(2) open_preds_0 by blast
    ultimately show "v \<notin> insert r ?D" "v \<notin> set (safe_pending s)" using r(3) sf by auto
  qed
  have fields: "ret ?s' = ret s" "current_stratum ?s' = current_stratum s @ [r]"
    "length (in_degree ?s') = n"
    "\<And>v. v < n \<Longrightarrow> in_degree ?s' ! v = in_degree s ! v - (if v \<in> fst ` set es then 1 else 0)"
    "set (unsafe_nodes ?s') = set (unsafe_nodes s) \<union> {v. (v, True) \<in> set es}"
    "bset_wf cmp_ord (unsafe_nodes ?s')"
    "safe_pending ?s' = butlast (safe_pending s) @
       map fst (filter (\<lambda>(v, p). in_degree s ! v - 1 = 0 \<and> \<not> p \<and> v \<notin> set (unsafe_nodes s)) es)"
    using kahn_edges_fields [OF es_wf(1), of s1] es_wf(2) len uwf by (simp_all add: s1_def)
  have D': "done_nodes ?s' = insert r ?D" by (auto simp: done_nodes_def fields)
  have preds: "open_preds g (insert r ?D) v = open_preds g ?D v - (if v \<in> fst ` set es then 1 else 0)" for v
    using open_preds_insert [OF dist r(2), of v] edge by (force split: if_splits)
  have key: "\<exists>p. (v, p) \<in> set es" if "v \<in> fst ` set es" for v using that by force
  have dist_s': "distinct (concat (ret ?s') @ current_stratum ?s')"
    using dist_s(1) r(2) by (auto simp: fields done_nodes_def)
  have "distinct (map fst (filter P es))" for P
    using es_wf(1) by (simp add: distinct_map_filter)
  moreover have "distinct (butlast (safe_pending s))" using dist_s(2) by (rule distinct_butlast)
  ultimately have dist_safe: "distinct (safe_pending ?s')"
    using targets(2) by (fastforce simp: fields dest: in_set_butlastD)
  have safe': "v < n \<and> v \<notin> insert r ?D \<and> open_preds g (insert r ?D) v = 0 \<and> v \<notin> set (unsafe_nodes ?s')"
    if v_safe: "v \<in> set (safe_pending ?s')" for v
  proof (cases "v \<in> set (butlast (safe_pending s))")
    case True
    then have v: "v \<in> set (safe_pending s)" by (rule in_set_butlastD)
    have "v \<noteq> r" using True dist_s(2) by (subst (asm) safe) auto
    moreover have "v \<notin> fst ` set es" using v targets(2) key by blast
    ultimately show ?thesis using sf [OF v] by (auto simp: fields preds intro: rev_image_eqI)
  next
    case False
    then obtain p where p: "(v, p) \<in> set es" "in_degree s ! v - 1 = 0" "\<not> p" "v \<notin> set (unsafe_nodes s)"
      using v_safe by (auto simp: fields)
    then have "v < n" "(v, True) \<notin> set es" using es_wf by (auto dest: eq_key_imp_eq_value)
    moreover have "open_preds g (insert r ?D) v = 0"
      using p(1,2) deg [OF \<open>v < n\<close>] by (auto simp: preds intro: rev_image_eqI)
    ultimately show ?thesis using p targets(1) by (auto simp: fields)
  qed
  have unsafe': "v \<in> set (unsafe_nodes ?s') \<longleftrightarrow>
      v \<notin> insert r ?D \<and> (\<exists>u \<in> set (current_stratum s @ [r]). kahn_edge g u v True)" for v
    using uns [of v] targets(1) [of v True] r(4) edge [of v True] by (auto simp: fields)
  have pend': "v \<in> set (safe_pending ?s') \<union> set (unsafe_nodes ?s')"
    if "v < n" "v \<notin> insert r ?D" "open_preds g (insert r ?D) v = 0" for v
  proof (cases "v \<in> fst ` set es")
    case True
    then obtain p where p: "(v, p) \<in> set es" using key by blast
    with that preds [of v] True deg [of v] have "in_degree s ! v - 1 = 0" by simp
    with p show ?thesis by (cases p) (auto simp: fields image_iff)
  next
    case False
    then have "v \<in> set (safe_pending s) \<union> set (unsafe_nodes s)"
      using pend [OF that(1)] that(2,3) by (simp add: preds)
    moreover have "v \<in> set (safe_pending s) \<Longrightarrow> v \<in> set (butlast (safe_pending s))"
      using that(2) by (subst (asm) safe) auto
    ultimately show ?thesis by (auto simp: fields)
  qed
  have "u \<in> set (concat (ret s)) \<or> \<not> p \<and> u \<in> set (current_stratum s)" if "kahn_edge g u r p" for u p
  proof -
    have "u \<in> ?D" using r(3) that open_preds_0 by blast
    moreover have "\<not> (p \<and> u \<in> set (current_stratum s))" using r(2,4) uns that by auto
    ultimately show ?thesis by (auto simp: done_nodes_def)
  qed
  then have strata': "strata_from g {} (ret s @ [current_stratum s @ [r]])"
    using strata by (simp add: strata_from_append) blast
  have deg': "\<forall>v < n. in_degree ?s' ! v = open_preds g (insert r ?D) v"
    using fields(4) deg preds by simp
  have "insert r ?D \<subseteq> {..<n}" using D r(1) by simp
  then have "kahn_inv g n ?s'"
    unfolding kahn_inv_def D' fields(1,2)
    by (intro conjI fields(3) dist_safe fields(6) deg' strata')
      (use dist_s' [unfolded fields(1,2)] safe' unsafe' pend' in blast)+
  then show ?thesis unfolding step D' r_def by blast
qed

lemma kahn_init_inv:
  assumes "kahn_wf g n"
  shows "kahn_inv g n (kahn_init g n)" "done_nodes (kahn_init g n) = {}"
  using kahn_degrees_eq [OF assms] by (auto simp: kahn_inv_def kahn_init_def done_nodes_def)

lemma kahn_loop_result:
  assumes wf: "kahn_wf g n" and "kahn_inv g n s" and "n - card (done_nodes s) < k"
  shows "\<exists>xs. kahn_loop g k s = Some xs \<and> strata_from g {} xs \<and> distinct (concat xs) \<and> set (concat xs) \<subseteq> {..<n} \<and>
    (\<forall>v < n. v \<notin> set (concat xs) \<longrightarrow> (\<exists>u p. kahn_edge g u v p \<and> u \<notin> set (concat xs)))"
  using assms(2,3)
proof (induction k arbitrary: s)
  case (Suc k)
  note flush = kahn_flush_inv [OF wf Suc.prems(1)]
  let ?f = "kahn_flush s"
  show ?case
  proof (cases "safe_pending ?f = []")
    case True
    then have none: "unsafe_nodes ?f = []" by (rule flush(3))
    let ?xs = "if current_stratum ?f \<noteq> [] then ret ?f @ [current_stratum ?f] else ret ?f"
    have D: "set (concat ?xs) = done_nodes ?f" by (auto simp: done_nodes_def)
    have "\<exists>u p. kahn_edge g u v p \<and> u \<notin> done_nodes ?f" if "v < n" "v \<notin> done_nodes ?f" for v
    proof -
      have "open_preds g (done_nodes ?f) v \<noteq> 0"
        using flush(1) that True none unfolding kahn_inv_def by auto
      then show ?thesis by (auto simp: open_preds_0)
    qed
    moreover have "strata_from g {} ?xs" "distinct (concat ?xs)" "done_nodes ?f \<subseteq> {..<n}"
      using flush(1) by (auto simp: kahn_inv_def strata_from_append)
    moreover have "kahn_loop g (Suc k) s = Some ?xs" using True by (simp add: kahn_loop_step del: kahn_loop.simps)
    ultimately show ?thesis unfolding D [symmetric] by blast
  next
    case False
    note step = kahn_step_inv [OF wf flush(1) False]
    let ?r = "last (safe_pending ?f)"
    have r: "?r \<notin> done_nodes s" "?r < n" and D: "done_nodes s \<subseteq> {..<n}"
      using flush(1,2) last_in_set [OF False] by (auto simp: kahn_inv_def)
    have fin: "finite (done_nodes s)" using D finite_subset by blast
    have "insert ?r (done_nodes s) \<subseteq> {..<n}" using D r by auto
    then have "card (insert ?r (done_nodes s)) \<le> card {..<n}" by (intro card_mono) auto
    then have "n - card (done_nodes (kahn_step g ?f)) < k"
      using Suc.prems(2) step r(1) fin flush(2) by simp
    from Suc.IH [OF conjunct1 [OF step] this] False show ?thesis
      by (simp add: kahn_loop_step del: kahn_loop.simps)
  qed
qed simp

lemma acyclic_kahn_complete:
  assumes "acyclic {(u, v). \<exists>p. kahn_edge g u v p}" and "kahn_wf g n"
    and "\<forall>v < n. v \<notin> D \<longrightarrow> (\<exists>u p. kahn_edge g u v p \<and> u \<notin> D)" and "v < n"
  shows "v \<in> D"
proof -
  let ?R = "{(u, v). \<exists>p. kahn_edge g u v p}"
  have "?R \<subseteq> {..<n} \<times> {..<n}" using kahn_edge_bounds [OF assms(2)] by auto
  then have "finite ?R" by (rule finite_subset) simp
  then have "wf ?R" using assms(1) by (rule finite_acyclic_wf)
  then show ?thesis
    using assms(4)
  proof (induction v rule: wf_induct_rule)
    case (less v)
    show ?case
    proof (rule ccontr)
      assume "v \<notin> D"
      then obtain u p where u: "kahn_edge g u v p" "u \<notin> D" using assms(3) less.prems by blast
      with less.IH [of u] kahn_edge_bounds [OF assms(2)] show False by blast
    qed
  qed
qed

lemma strata_from_nth:
  assumes "strata_from g D xs" and "i < length xs" and "v \<in> set (xs ! i)" and "kahn_edge g u v p"
  shows "u \<in> D \<or> (\<exists>j \<le> i. u \<in> set (xs ! j) \<and> (p \<longrightarrow> j < i))"
  using assms(1-3)
proof (induction xs arbitrary: D i)
  case (Cons x xs)
  show ?case
  proof (cases i)
    case 0
    with Cons.prems assms(4) show ?thesis by auto
  next
    case (Suc k)
    with Cons.IH [of "D \<union> set x" k] Cons.prems have "u \<in> D \<union> set x \<or> (\<exists>j \<le> k. u \<in> set (xs ! j) \<and> (p \<longrightarrow> j < k))"
      by auto
    then show ?thesis
    proof
      assume "u \<in> D \<union> set x"
      with Suc show ?thesis by (auto intro: exI [of _ 0])
    next
      assume "\<exists>j \<le> k. u \<in> set (xs ! j) \<and> (p \<longrightarrow> j < k)"
      then obtain j where "j \<le> k" "u \<in> set (xs ! j)" "p \<longrightarrow> j < k" by blast
      with Suc show ?thesis by (intro disjI2 exI [of _ "Suc j"]) auto
    qed
  qed
qed simp

section \<open>Properties\<close>

text \<open>
  C27: The nodes \<open>reachable_components\<close> collects are exactly those reachable from the start along the
  edges of the graph; the recursion always ends.
\<close>

theorem reachable_components_correct:
  "\<exists>c. reachable_components cmp_bytes graph start = Some c \<and>
     set c = {v. (start, v) \<in> {(u, v). \<exists>vs. bmap_get cmp_bytes graph u = Some vs \<and> v \<in> set vs}\<^sup>*}"
  using bytes_ord.reachable_components_closure [of graph start] by (auto simp: graph_edges_def)

lemma generalized_kahn_strata:
  assumes "kahn_wf g n"
  shows "\<exists>strata. generalized_kahn g n = Some strata \<and> distinct (concat strata) \<and>
    (\<forall>i < length strata. \<forall>v \<in> set (strata ! i). \<forall>u p. kahn_edge g u v p \<longrightarrow>
       (\<exists>j \<le> i. u \<in> set (strata ! j) \<and> (p \<longrightarrow> j < i))) \<and>
    (acyclic {(u, v). \<exists>p. kahn_edge g u v p} \<longrightarrow> set (concat strata) = {..<n})"
proof -
  obtain xs where xs: "generalized_kahn g n = Some xs" "strata_from g {} xs" "distinct (concat xs)"
    "set (concat xs) \<subseteq> {..<n}"
    "\<forall>v < n. v \<notin> set (concat xs) \<longrightarrow> (\<exists>u p. kahn_edge g u v p \<and> u \<notin> set (concat xs))"
    using kahn_loop_result [OF assms kahn_init_inv(1) [OF assms], of "n + 1"] kahn_init_inv(2) [OF assms]
    by (auto simp: generalized_kahn_def)
  moreover have "set (concat xs) = {..<n}" if "acyclic {(u, v). \<exists>p. kahn_edge g u v p}"
    using acyclic_kahn_complete [OF that assms xs(5)] xs(4) by blast
  ultimately show ?thesis
    using strata_from_nth [OF xs(2)] by blast
qed

text \<open>
  C28: The generalised Kahn algorithm always ends. In the strata it returns no node occurs twice, and a
  node comes after every predecessor: in a later stratum or, over an edge that is not poisoned, possibly
  in the same one. When the graph has no cycle, every node gets a stratum.
\<close>

theorem generalized_kahn_correct:
  assumes "kahn_wf g n"
  shows "\<exists>strata. generalized_kahn g n = Some strata \<and> distinct (concat strata) \<and>
    (\<forall>i < length strata. \<forall>v \<in> set (strata ! i). \<forall>u p. kahn_edge g u v p \<longrightarrow>
       (\<exists>j \<le> i. u \<in> set (strata ! j) \<and> (p \<longrightarrow> j < i))) \<and>
    (acyclic {(u, v). \<exists>p. kahn_edge g u v p} \<longrightarrow> set (concat strata) = {..<n})"
  using assms by (rule generalized_kahn_strata)

theorem generalized_kahn_correct_witness:
  "\<exists>strata. generalized_kahn [(0, [(1, True), (2, False)]), (1, []), (2, [(1, False)])] 3 = Some strata \<and>
     distinct (concat strata)"
proof -
  have "kahn_wf [(0, [(1, True), (2, False)]), (1, []), (2, [(1, False)])] 3" by (simp add: kahn_wf_def)
  from generalized_kahn_correct [OF this] show ?thesis by blast
qed

end
