(* ===== verification/Scc.thy ===== *)
theory Scc
  imports Graph
begin

text \<open>
  Correctness of \<open>TarjanScc\<close> (\<open>retia-core/src/query/graph.rs\<close>): the groups it returns are the strongly
  connected components. A node is seen once it has a number, and finished once it is off the stack
  again. The code propagates \<open>low\<close> of a node on the stack, where the textbook takes its number; the
  invariant only asks that \<open>low\<close> of a node on the stack is the number of some node on the stack, not
  after it, that it reaches.
\<close>

definition succs :: "nat list list \<Rightarrow> (nat \<times> nat) set" where
  "succs g = {(u, v). u < length g \<and> v \<in> set (g ! u)}"

definition idx_wf :: "nat list list \<Rightarrow> bool" where
  "idx_wf g \<longleftrightarrow> (\<forall>vs \<in> set g. \<forall>v \<in> set vs. v < length g)"

definition seen :: "tarjan \<Rightarrow> nat set" where
  "seen s = {v. v < length (ids s) \<and> ids s ! v \<noteq> None}"

definition num :: "tarjan \<Rightarrow> nat \<Rightarrow> nat" where
  "num s v = the (ids s ! v)"

definition finished :: "tarjan \<Rightarrow> nat set" where
  "finished s = seen s - set (stack s)"

text \<open>The bookkeeping: lengths, numbers, and a stack in the order of the numbers.\<close>

definition tarjan_shape :: "nat list list \<Rightarrow> tarjan \<Rightarrow> bool" where
  "tarjan_shape g s \<longleftrightarrow>
     length (ids s) = length g \<and> length (low s) = length g \<and> length (on_stack s) = length g \<and>
     set (stack s) \<subseteq> seen s \<and> (\<forall>v < length g. on_stack s ! v \<longleftrightarrow> v \<in> set (stack s)) \<and>
     (\<forall>v \<in> seen s. num s v \<le> next_id s) \<and> inj_on (num s) (seen s) \<and>
     sorted_wrt (\<lambda>u v. num s u < num s v) (stack s)"

text \<open>Finished nodes: closed under edges, grouped by \<open>low\<close> into components.\<close>

definition finished_ok :: "nat list list \<Rightarrow> tarjan \<Rightarrow> bool" where
  "finished_ok g s \<longleftrightarrow>
     (\<forall>u \<in> finished s. \<forall>v. (u, v) \<in> succs g \<longrightarrow> v \<in> finished s) \<and>
     (\<forall>u \<in> finished s. \<exists>r \<in> seen s. low s ! u = num s r \<and> (u, r) \<in> (succs g)\<^sup>* \<and> (r, u) \<in> (succs g)\<^sup>*) \<and>
     (\<forall>u \<in> finished s. \<forall>v. (u, v) \<in> (succs g)\<^sup>* \<longrightarrow> (v, u) \<in> (succs g)\<^sup>* \<longrightarrow> low s ! v = low s ! u)"

definition low_sound :: "nat list list \<Rightarrow> tarjan \<Rightarrow> bool" where
  "low_sound g s \<longleftrightarrow>
     (\<forall>v \<in> set (stack s). \<exists>w \<in> set (stack s). low s ! v = num s w \<and> num s w \<le> num s v \<and> (v, w) \<in> (succs g)\<^sup>*)"

definition tarjan_inv :: "nat list list \<Rightarrow> tarjan \<Rightarrow> bool" where
  "tarjan_inv g s \<longleftrightarrow> tarjan_shape g s \<and> finished_ok g s \<and> low_sound g s"

text \<open>
  The nodes on the stack above \<open>base\<close> whose call has returned: each reaches a node before it, its
  successors are seen, and \<open>bound\<close> is not above the number of any successor in \<open>base\<close>.
\<close>

definition returned :: "nat list list \<Rightarrow> nat list \<Rightarrow> nat \<Rightarrow> nat list \<Rightarrow> tarjan \<Rightarrow> bool" where
  "returned g base bound ext s \<longleftrightarrow>
     (\<forall>v \<in> set ext. low s ! v < num s v \<and>
        (\<forall>w. (v, w) \<in> succs g \<longrightarrow> w \<in> seen s \<and> (w \<in> set base \<longrightarrow> bound \<le> num s w)))"

text \<open>What a call for \<open>at\<close> leaves alone.\<close>

definition frame :: "nat list list \<Rightarrow> nat \<Rightarrow> tarjan \<Rightarrow> tarjan \<Rightarrow> bool" where
  "frame g at s s' \<longleftrightarrow>
     seen s \<subseteq> seen s' \<and> (\<forall>v \<in> seen s. ids s' ! v = ids s ! v \<and> (v \<noteq> at \<longrightarrow> low s' ! v = low s ! v)) \<and>
     (\<forall>v \<in> seen s' - seen s. (at, v) \<in> (succs g)\<^sup>*)"

definition dfs_post :: "nat list list \<Rightarrow> nat \<Rightarrow> tarjan \<Rightarrow> nat list \<Rightarrow> tarjan \<Rightarrow> bool" where
  "dfs_post g at s ext s' \<longleftrightarrow>
     tarjan_inv g s' \<and> frame g at s s' \<and> at \<in> seen s' \<and> stack s' = stack s @ ext \<and>
     set ext \<inter> seen s = {} \<and> (ext \<noteq> [] \<longrightarrow> at \<in> set ext) \<and> returned g (stack s) (low s' ! at) ext s'"

definition loop_inv :: "nat list list \<Rightarrow> nat list \<Rightarrow> nat \<Rightarrow> nat list \<Rightarrow> nat set \<Rightarrow> tarjan \<Rightarrow> bool" where
  "loop_inv g base at ext visited s \<longleftrightarrow>
     tarjan_inv g s \<and> stack s = base @ at # ext \<and> returned g base (low s ! at) ext s \<and>
     (\<forall>w \<in> visited. w \<in> seen s \<and> (w \<in> set base \<longrightarrow> low s ! at \<le> num s w)) \<and>
     (\<forall>v \<in> set ext. (at, v) \<in> (succs g)\<^sup>*)"

section \<open>Steps\<close>

lemma tarjan_pop_result:
  assumes "stack s = base @ at # ext" and "at \<notin> set ext" and "set (at # ext) \<subseteq> {..<length (low s)}"
    and "length (on_stack s) = length (low s)"
  shows "stack (tarjan_pop at r s) = base \<and> ids (tarjan_pop at r s) = ids s \<and>
     next_id (tarjan_pop at r s) = next_id s \<and> length (low (tarjan_pop at r s)) = length (low s) \<and>
     length (on_stack (tarjan_pop at r s)) = length (low s) \<and>
     (\<forall>v < length (low s). low (tarjan_pop at r s) ! v = (if v \<in> set (at # ext) then r else low s ! v)) \<and>
     (\<forall>v < length (low s). on_stack (tarjan_pop at r s) ! v \<longleftrightarrow> on_stack s ! v \<and> v \<notin> set (at # ext))"
  using assms
proof (induction ext arbitrary: s rule: rev_induct)
  case Nil
  then show ?case by (subst (1 2 3 4 5 6 7) tarjan_pop.simps) (auto simp: Let_def nth_list_update)
next
  case (snoc x ext)
  let ?s = "s\<lparr>stack := butlast (stack s), on_stack := (on_stack s)[x := False], low := (low s)[x := r]\<rparr>"
  have "tarjan_pop at r s = tarjan_pop at r ?s"
    using snoc.prems(1,2) by (subst tarjan_pop.simps) (auto simp: Let_def)
  moreover have "stack ?s = base @ at # ext" "at \<notin> set ext" "set (at # ext) \<subseteq> {..<length (low ?s)}"
    "length (on_stack ?s) = length (low ?s)"
    using snoc.prems by (auto simp: butlast_append)
  note snoc.IH [OF this]
  ultimately show ?case using snoc.prems by (auto simp: nth_list_update)
qed

definition tarjan_push :: "nat \<Rightarrow> tarjan \<Rightarrow> tarjan" where
  "tarjan_push at s =
     s\<lparr>stack := stack s @ [at], on_stack := (on_stack s)[at := True], next_id := next_id s + 1,
       ids := (ids s)[at := Some (next_id s + 1)], low := (low s)[at := next_id s + 1]\<rparr>"

lemma tarjan_push_fields:
  assumes "tarjan_shape g s" and "at < length g" and "at \<notin> seen s"
  shows "stack (tarjan_push at s) = stack s @ [at]"
    and "seen (tarjan_push at s) = insert at (seen s)"
    and "finished (tarjan_push at s) = finished s"
    and "\<And>v. v \<in> seen s \<Longrightarrow> ids (tarjan_push at s) ! v = ids s ! v \<and> low (tarjan_push at s) ! v = low s ! v \<and>
      num (tarjan_push at s) v = num s v"
    and "ids (tarjan_push at s) ! at = Some (next_id s + 1)"
    and "low (tarjan_push at s) ! at = next_id s + 1"
    and "num (tarjan_push at s) at = next_id s + 1"
proof -
  note shape = assms(1) [unfolded tarjan_shape_def]
  show fields: "stack (tarjan_push at s) = stack s @ [at]"
    "ids (tarjan_push at s) ! at = Some (next_id s + 1)" "low (tarjan_push at s) ! at = next_id s + 1"
    "num (tarjan_push at s) at = next_id s + 1"
    using shape assms(2) by (simp_all add: tarjan_push_def num_def)
  show seen: "seen (tarjan_push at s) = insert at (seen s)"
    using shape assms(2) by (auto simp: tarjan_push_def seen_def nth_list_update)
  show "finished (tarjan_push at s) = finished s"
    unfolding finished_def seen fields(1) using assms(3) by auto
  show "ids (tarjan_push at s) ! v = ids s ! v \<and> low (tarjan_push at s) ! v = low s ! v \<and>
    num (tarjan_push at s) v = num s v" if "v \<in> seen s" for v
  proof -
    have "v \<noteq> at" using that assms(3) by blast
    then show ?thesis by (simp add: tarjan_push_def num_def)
  qed
qed

lemma tarjan_push_shape:
  assumes "tarjan_shape g s" and "at < length g" and "at \<notin> seen s"
  shows "tarjan_shape g (tarjan_push at s)"
proof -
  note shape = assms(1) [unfolded tarjan_shape_def]
  note f = tarjan_push_fields [OF assms]
  have le: "num s v \<le> next_id s" if "v \<in> seen s" for v using shape that by blast
  have st: "set (stack s) \<subseteq> seen s" using shape by blast
  have "inj_on (num (tarjan_push at s)) (insert at (seen s))"
  proof -
    have "inj_on (num (tarjan_push at s)) (seen s)"
      using shape f(4) by (auto simp: inj_on_def)
    moreover have "num (tarjan_push at s) at \<notin> num (tarjan_push at s) ` (seen s)"
      using f(4,7) le by (fastforce)
    ultimately show ?thesis by (simp add: inj_on_insert assms(3))
  qed
  moreover have "sorted_wrt (\<lambda>u v. num (tarjan_push at s) u < num (tarjan_push at s) v) (stack s @ [at])"
  proof -
    have "sorted_wrt (\<lambda>u v. num (tarjan_push at s) u < num (tarjan_push at s) v) (stack s)"
      by (rule sorted_wrt_mono_rel [where P = "\<lambda>u v. num s u < num s v"]) (use f(4) [OF subsetD [OF st]] shape in auto)
    moreover have "num (tarjan_push at s) u < num (tarjan_push at s) at" if "u \<in> set (stack s)" for u
      using that st f(4,7) le [of u] by auto
    ultimately show ?thesis by (simp add: sorted_wrt_append)
  qed
  moreover have "num (tarjan_push at s) v \<le> next_id s + 1" if "v \<in> insert at (seen s)" for v
    using that f(4,7) le [of v] by auto
  moreover have "on_stack (tarjan_push at s) ! v \<longleftrightarrow> v \<in> set (stack s @ [at])" if "v < length g" for v
    using that shape assms(2) by (auto simp: tarjan_push_def nth_list_update)
  moreover have "length (ids (tarjan_push at s)) = length g" "length (low (tarjan_push at s)) = length g"
    "length (on_stack (tarjan_push at s)) = length g" "next_id (tarjan_push at s) = next_id s + 1"
    using shape by (simp_all add: tarjan_push_def)
  ultimately show ?thesis
    unfolding tarjan_shape_def f(1,2) using st by auto
qed

lemma closed_rtrancl:
  assumes "\<forall>u \<in> S. \<forall>v. (u, v) \<in> R \<longrightarrow> v \<in> S" and "(u, v) \<in> R\<^sup>*" and "u \<in> S"
  shows "v \<in> S"
  using assms(2,3,1) by (induction rule: rtrancl_induct) auto

lemma finished_ok_cong:
  assumes "finished_ok g s" and "finished s' = finished s" and "seen s \<subseteq> seen s'"
    and "\<And>v. v \<in> seen s \<Longrightarrow> num s' v = num s v" and "\<And>v. v \<in> finished s \<Longrightarrow> low s' ! v = low s ! v"
  shows "finished_ok g s'"
proof -
  note ok = assms(1) [unfolded finished_ok_def]
  have closed: "\<forall>u \<in> finished s. \<forall>v. (u, v) \<in> succs g \<longrightarrow> v \<in> finished s" using ok by blast
  have "\<exists>r \<in> seen s'. low s' ! u = num s' r \<and> (u, r) \<in> (succs g)\<^sup>* \<and> (r, u) \<in> (succs g)\<^sup>*"
    if u: "u \<in> finished s" for u
  proof -
    obtain r where "r \<in> seen s" "low s ! u = num s r" "(u, r) \<in> (succs g)\<^sup>*" "(r, u) \<in> (succs g)\<^sup>*"
      using ok u by blast
    then show ?thesis using assms(3) assms(4) [of r] assms(5) [OF u] by (intro bexI [of _ r]) auto
  qed
  moreover have "low s' ! v = low s' ! u"
    if "u \<in> finished s" "(u, v) \<in> (succs g)\<^sup>*" "(v, u) \<in> (succs g)\<^sup>*" for u v
    using closed_rtrancl [OF closed that(2,1)] that ok assms(5) by metis
  ultimately show ?thesis unfolding finished_ok_def assms(2) using closed by blast
qed

lemma tarjan_push_inv:
  assumes inv: "tarjan_inv g s" and at: "at < length g" "at \<notin> seen s"
  shows "loop_inv g (stack s) at [] {} (tarjan_push at s)"
proof -
  have shape: "tarjan_shape g s" and fin: "finished_ok g s" and low: "low_sound g s"
    using inv by (simp_all add: tarjan_inv_def)
  note f = tarjan_push_fields [OF shape at]
  have st: "set (stack s) \<subseteq> seen s" using shape by (simp add: tarjan_shape_def)
  have "finished_ok g (tarjan_push at s)"
    by (rule finished_ok_cong [OF fin f(3)]) (use f(2,4) in \<open>auto simp: finished_def\<close>)
  moreover have "low_sound g (tarjan_push at s)"
    unfolding low_sound_def f(1)
  proof
    fix v
    assume "v \<in> set (stack s @ [at])"
    then consider "v \<in> set (stack s)" | "v = at" by auto
    then show "\<exists>w \<in> set (stack s @ [at]). low (tarjan_push at s) ! v = num (tarjan_push at s) w \<and>
        num (tarjan_push at s) w \<le> num (tarjan_push at s) v \<and> (v, w) \<in> (succs g)\<^sup>*"
    proof cases
      case 1
      obtain w where w: "w \<in> set (stack s)" "low s ! v = num s w" "num s w \<le> num s v" "(v, w) \<in> (succs g)\<^sup>*"
        using low 1 by (auto simp: low_sound_def)
      have "v \<in> seen s" "w \<in> seen s" using 1 w(1) st by auto
      with w f(4) show ?thesis by (intro bexI [of _ w]) auto
    next
      case 2
      show ?thesis unfolding 2 using f(6,7) by (intro bexI [of _ at]) auto
    qed
  qed
  ultimately show ?thesis
    using tarjan_push_shape [OF shape at] f(1)
    by (simp add: loop_inv_def tarjan_inv_def returned_def)
qed

text \<open>The state after an edge from \<open>at\<close> has been looked at.\<close>

definition tarjan_relax :: "nat \<Rightarrow> nat \<Rightarrow> tarjan \<Rightarrow> tarjan" where
  "tarjan_relax at to s =
     (if on_stack s ! to then s\<lparr>low := (low s)[at := min (low s ! at) (low s ! to)]\<rparr> else s)"

lemma tarjan_relax_fields [simp]:
  "stack (tarjan_relax at to s) = stack s" "ids (tarjan_relax at to s) = ids s"
  "on_stack (tarjan_relax at to s) = on_stack s" "next_id (tarjan_relax at to s) = next_id s"
  "length (low (tarjan_relax at to s)) = length (low s)" "seen (tarjan_relax at to s) = seen s"
  "num (tarjan_relax at to s) = num s" "finished (tarjan_relax at to s) = finished s"
  "v \<noteq> at \<Longrightarrow> low (tarjan_relax at to s) ! v = low s ! v"
  by (simp_all add: tarjan_relax_def seen_def num_def fun_eq_iff finished_def)

lemma tarjan_relax_low:
  "at < length (low s) \<Longrightarrow> low (tarjan_relax at to s) ! at =
     (if on_stack s ! to then min (low s ! at) (low s ! to) else low s ! at)"
  by (simp add: tarjan_relax_def)

lemma tarjan_relax_inv:
  assumes inv: "tarjan_inv g s" and at: "at \<in> set (stack s)" and edge: "(at, to) \<in> succs g"
    and to: "to \<in> seen s"
  shows "tarjan_inv g (tarjan_relax at to s)"
proof -
  have shape: "tarjan_shape g s" and fin: "finished_ok g s" and low: "low_sound g s"
    using inv by (simp_all add: tarjan_inv_def)
  have bounds: "at < length g" "to < length g" "length (low s) = length g"
    using shape at to by (auto simp: tarjan_shape_def seen_def)
  have "finished_ok g (tarjan_relax at to s)"
    by (rule finished_ok_cong [OF fin]) (use at in \<open>auto simp: finished_def intro!: tarjan_relax_fields(9)\<close>)
  moreover have "low_sound g (tarjan_relax at to s)"
    unfolding low_sound_def tarjan_relax_fields(1,7)
  proof
    fix v
    assume v: "v \<in> set (stack s)"
    have sound: "\<exists>w \<in> set (stack s). low s ! v = num s w \<and> num s w \<le> num s v \<and> (v, w) \<in> (succs g)\<^sup>*"
      if "v \<in> set (stack s)" for v
      using low that by (simp add: low_sound_def)
    show "\<exists>w \<in> set (stack s). low (tarjan_relax at to s) ! v = num s w \<and> num s w \<le> num s v \<and> (v, w) \<in> (succs g)\<^sup>*"
    proof (cases "v = at \<and> on_stack s ! to \<and> low s ! to < low s ! at")
      case True
      then have "to \<in> set (stack s)" using shape bounds by (simp add: tarjan_shape_def)
      then obtain w where w: "w \<in> set (stack s)" "low s ! to = num s w" "(to, w) \<in> (succs g)\<^sup>*"
        using sound by blast
      moreover have "low s ! at \<le> num s at" using sound [OF at] by auto
      moreover have "(at, w) \<in> (succs g)\<^sup>*" using edge w(3) by (rule converse_rtrancl_into_rtrancl)
      ultimately show ?thesis
        using True bounds by (intro bexI [of _ w]) (auto simp: tarjan_relax_low)
    next
      case False
      then have "low (tarjan_relax at to s) ! v = low s ! v"
        using bounds by (cases "v = at") (auto simp: tarjan_relax_low min_def)
      with sound [OF v] show ?thesis by simp
    qed
  qed
  moreover have "tarjan_shape g (tarjan_relax at to s)"
    using shape by (simp add: tarjan_shape_def)
  ultimately show ?thesis by (simp add: tarjan_inv_def)
qed

text \<open>An edge to a node seen before.\<close>

lemma loop_inv_seen:
  assumes inv: "loop_inv g base at ext visited s" and edge: "(at, to) \<in> succs g" and to: "to \<in> seen s"
  shows "loop_inv g base at ext (insert to visited) (tarjan_relax at to s)"
proof -
  note L = inv [unfolded loop_inv_def]
  have T: "tarjan_inv g s" and st: "stack s = base @ at # ext" using L by simp_all
  have shape: "tarjan_shape g s" using T by (simp add: tarjan_inv_def)
  have bounds: "at < length (low s)" "to < length g"
    using shape to st by (auto simp: tarjan_shape_def seen_def)
  have le: "low (tarjan_relax at to s) ! at \<le> low s ! at"
    using bounds by (simp add: tarjan_relax_low)
  have at_ext: "at \<notin> set ext"
    using shape st by (auto simp: tarjan_shape_def sorted_wrt_append)
  have low_to: "low (tarjan_relax at to s) ! at \<le> num s to" if "to \<in> set base"
  proof -
    have "to \<in> set (stack s)" using that st by simp
    then have "on_stack s ! to" "low s ! to \<le> num s to"
      using shape T bounds by (auto simp: tarjan_shape_def tarjan_inv_def low_sound_def)
    then show ?thesis using bounds by (simp add: tarjan_relax_low)
  qed
  have "returned g base (low (tarjan_relax at to s) ! at) ext (tarjan_relax at to s)"
    unfolding returned_def tarjan_relax_fields(6,7)
  proof
    fix v assume v: "v \<in> set ext"
    then have "v \<noteq> at" using at_ext by blast
    with v L le show "low (tarjan_relax at to s) ! v < num s v \<and> (\<forall>w. (v, w) \<in> succs g \<longrightarrow>
        w \<in> seen s \<and> (w \<in> set base \<longrightarrow> low (tarjan_relax at to s) ! at \<le> num s w))"
      by (auto simp: returned_def intro: order_trans)
  qed
  moreover have "tarjan_inv g (tarjan_relax at to s)"
    using tarjan_relax_inv [OF T _ edge to] st by simp
  moreover have "\<forall>w \<in> insert to visited. w \<in> seen s \<and> (w \<in> set base \<longrightarrow> low (tarjan_relax at to s) ! at \<le> num s w)"
    using L le to low_to order_trans by blast
  ultimately show ?thesis using L by (simp add: loop_inv_def)
qed

text \<open>An edge to a new node, after the call for it.\<close>

lemma dfs_post_num:
  assumes "frame g to s s1" and "v \<in> seen s"
  shows "num s1 v = num s v"
  using assms by (simp add: frame_def num_def)

lemma loop_inv_unseen:
  assumes inv: "loop_inv g base at ext visited s" and edge: "(at, to) \<in> succs g" and to: "to \<notin> seen s"
    and post: "dfs_post g to s ext1 s1"
  shows "loop_inv g base at (ext @ ext1) (insert to visited) (tarjan_relax at to s1)"
proof -
  note L = inv [unfolded loop_inv_def]
  note P = post [unfolded dfs_post_def]
  have T: "tarjan_inv g s" and T1: "tarjan_inv g s1" and fr: "frame g to s s1"
    and st: "stack s = base @ at # ext" and st1: "stack s1 = base @ at # ext @ ext1" using L P by simp_all
  have shape: "tarjan_shape g s" "tarjan_shape g s1" using T T1 by (simp_all add: tarjan_inv_def)
  have old: "set (stack s) \<subseteq> seen s" using shape by (simp add: tarjan_shape_def)
  have at: "at \<in> seen s" "at \<noteq> to" using old st to by auto
  have seen: "seen s \<subseteq> seen s1" using fr by (simp add: frame_def)
  have low: "low s1 ! v = low s ! v" if "v \<in> seen s" for v
    using fr that to by (auto simp: frame_def)
  have bounds: "at < length (low s1)" "to < length g"
    using shape P at seen by (auto simp: tarjan_shape_def seen_def)
  let ?s = "tarjan_relax at to s1"
  have le: "low ?s ! at \<le> low s ! at"
    using bounds low [OF at(1)] by (simp add: tarjan_relax_low)
  have base: "num s1 w = num s w" if "w \<in> set base" for w
    using dfs_post_num [OF fr] that old st by auto
  have not_at: "at \<notin> set (ext @ ext1)"
    using shape(2) st1 by (auto simp: tarjan_shape_def sorted_wrt_append)
  have ext1: "low s1 ! v < num s1 v \<and> (\<forall>w. (v, w) \<in> succs g \<longrightarrow>
        w \<in> seen s1 \<and> (w \<in> set base \<longrightarrow> low ?s ! at \<le> num s1 w))" if "v \<in> set ext1" for v
  proof -
    have "to \<in> set (stack s1)" using that P st1 by auto
    then have "on_stack s1 ! to" using shape(2) bounds(2) by (simp add: tarjan_shape_def)
    then have "low ?s ! at \<le> low s1 ! to" using bounds by (simp add: tarjan_relax_low)
    moreover have "low s1 ! v < num s1 v \<and> (\<forall>w. (v, w) \<in> succs g \<longrightarrow>
        w \<in> seen s1 \<and> (w \<in> set (stack s) \<longrightarrow> low s1 ! to \<le> num s1 w))"
      using P that by (simp add: returned_def)
    ultimately show ?thesis using st by (auto intro: order_trans)
  qed
  have ext: "low s1 ! v < num s1 v \<and> (\<forall>w. (v, w) \<in> succs g \<longrightarrow>
        w \<in> seen s1 \<and> (w \<in> set base \<longrightarrow> low ?s ! at \<le> num s1 w))" if "v \<in> set ext" for v
  proof -
    have "v \<in> seen s" using that old st by auto
    then have "low s1 ! v = low s ! v" "num s1 v = num s v" using low dfs_post_num [OF fr] by auto
    moreover have "low s ! v < num s v \<and> (\<forall>w. (v, w) \<in> succs g \<longrightarrow>
        w \<in> seen s \<and> (w \<in> set base \<longrightarrow> low s ! at \<le> num s w))"
      using L that by (simp add: returned_def)
    ultimately show ?thesis using le base seen by (auto intro: order_trans)
  qed
  have "returned g base (low ?s ! at) (ext @ ext1) ?s"
    unfolding returned_def tarjan_relax_fields(6,7)
  proof
    fix v assume v: "v \<in> set (ext @ ext1)"
    then have "v \<noteq> at" using not_at by blast
    with v ext ext1 show "low ?s ! v < num s1 v \<and> (\<forall>w. (v, w) \<in> succs g \<longrightarrow>
        w \<in> seen s1 \<and> (w \<in> set base \<longrightarrow> low ?s ! at \<le> num s1 w))"
      by auto
  qed
  moreover have "tarjan_inv g ?s"
    using tarjan_relax_inv [OF T1 _ edge] st1 P by simp
  moreover have "w \<in> seen s1 \<and> (w \<in> set base \<longrightarrow> low ?s ! at \<le> num s1 w)" if "w \<in> insert to visited" for w
    using that L P le seen base to old st order_trans by auto
  moreover have "(at, v) \<in> (succs g)\<^sup>*" if "v \<in> set (ext @ ext1)" for v
  proof (cases "v \<in> set ext")
    case False
    then have "v \<in> seen s1 - seen s" using that P st1 shape(2) by (auto simp: tarjan_shape_def)
    then have "(to, v) \<in> (succs g)\<^sup>*" using fr by (simp add: frame_def)
    with edge show ?thesis by (rule converse_rtrancl_into_rtrancl)
  qed (use L in simp)
  ultimately show ?thesis using st1 by (simp add: loop_inv_def)
qed

section \<open>Popping a component\<close>

text \<open>
  When \<open>low\<close> of \<open>at\<close> is its own number, no edge leads from the nodes on top of the stack below \<open>at\<close>, and
  they all reach \<open>at\<close>.
\<close>

lemma component_closed:
  assumes inv: "loop_inv g base at ext visited s" and all: "\<forall>w. (at, w) \<in> succs g \<longrightarrow> w \<in> visited"
    and root: "low s ! at = num s at"
  shows "\<forall>u \<in> finished s \<union> set (at # ext). \<forall>v. (u, v) \<in> succs g \<longrightarrow> v \<in> finished s \<union> set (at # ext)"
proof (intro ballI allI impI)
  fix u v
  assume u: "u \<in> finished s \<union> set (at # ext)" and edge: "(u, v) \<in> succs g"
  note L = inv [unfolded loop_inv_def]
  have shape: "tarjan_shape g s" and fin: "finished_ok g s" and st: "stack s = base @ at # ext"
    using L by (simp_all add: tarjan_inv_def)
  have before: "num s w < num s at" if "w \<in> set base" for w
    using shape that st by (auto simp: tarjan_shape_def sorted_wrt_append)
  show "v \<in> finished s \<union> set (at # ext)"
  proof (cases "u \<in> finished s")
    case True
    then show ?thesis using fin edge by (auto simp: finished_ok_def)
  next
    case False
    then have "v \<in> seen s \<and> (v \<in> set base \<longrightarrow> low s ! at \<le> num s v)"
      using u edge L all by (auto simp: returned_def)
    then show ?thesis using before [of v] root st by (auto simp: finished_def)
  qed
qed

lemma component_root:
  assumes inv: "loop_inv g base at ext visited s" and all: "\<forall>w. (at, w) \<in> succs g \<longrightarrow> w \<in> visited"
    and root: "low s ! at = num s at" and u: "u \<in> set (at # ext)"
  shows "(u, at) \<in> (succs g)\<^sup>*"
  using u
proof (induction "num s u" arbitrary: u rule: less_induct)
  case less
  note L = inv [unfolded loop_inv_def]
  have low: "low_sound g s" and st: "stack s = base @ at # ext" using L by (simp_all add: tarjan_inv_def)
  show ?case
  proof (cases "u = at")
    case False
    then have u: "u \<in> set ext" using less.prems by simp
    then have lt: "low s ! u < num s u" using L by (simp add: returned_def)
    obtain w where w: "w \<in> set (stack s)" "low s ! u = num s w" "(u, w) \<in> (succs g)\<^sup>*"
      using low u st by (auto simp: low_sound_def)
    have "w \<in> finished s \<union> set (at # ext)"
      using closed_rtrancl [OF component_closed [OF inv all root] w(3)] u by simp
    then have "w \<in> set (at # ext)" using w(1) by (auto simp: finished_def)
    then have "(w, at) \<in> (succs g)\<^sup>*" using less.hyps w(2) lt by simp
    with w(3) show ?thesis by (rule rtrancl_trans)
  qed simp
qed

lemma sorted_num_distinct: "sorted_wrt (\<lambda>u v. (f u :: nat) < f v) xs \<Longrightarrow> distinct xs"
  by (induction xs) auto

lemma tarjan_shape_distinct:
  assumes "tarjan_shape g s"
  shows "distinct (stack s)"
  by (rule sorted_num_distinct [of "num s"]) (use assms in \<open>simp add: tarjan_shape_def\<close>)

lemma tarjan_pop_fields:
  assumes inv: "loop_inv g base at ext visited s"
  shows "stack (tarjan_pop at r s) = base" and "ids (tarjan_pop at r s) = ids s"
    and "seen (tarjan_pop at r s) = seen s" and "num (tarjan_pop at r s) = num s"
    and "finished (tarjan_pop at r s) = finished s \<union> set (at # ext)"
    and "\<And>v. v \<in> set (at # ext) \<Longrightarrow> low (tarjan_pop at r s) ! v = r"
    and "\<And>v. v \<in> seen s \<Longrightarrow> v \<notin> set (at # ext) \<Longrightarrow> low (tarjan_pop at r s) ! v = low s ! v"
    and "tarjan_shape g (tarjan_pop at r s)"
proof -
  note L = inv [unfolded loop_inv_def]
  have shape: "tarjan_shape g s" and st: "stack s = base @ at # ext" using L by (simp_all add: tarjan_inv_def)
  have bounds: "set (stack s) \<subseteq> seen s" "seen s \<subseteq> {..<length (low s)}" "length (on_stack s) = length (low s)"
    "length (low s) = length g"
    using shape by (auto simp: tarjan_shape_def seen_def)
  have dist: "distinct (stack s)" "at \<notin> set ext" "set base \<inter> set (at # ext) = {}"
    using tarjan_shape_distinct [OF shape] unfolding st by auto
  have "set (at # ext) \<subseteq> {..<length (low s)}" using bounds st by auto
  note pop = tarjan_pop_result [OF st dist(2) this bounds(3), of r]
  show fields: "stack (tarjan_pop at r s) = base" "ids (tarjan_pop at r s) = ids s"
    "seen (tarjan_pop at r s) = seen s" "num (tarjan_pop at r s) = num s"
    using pop by (simp_all add: seen_def num_def fun_eq_iff)
  show "finished (tarjan_pop at r s) = finished s \<union> set (at # ext)"
    unfolding finished_def fields using st bounds(1) dist(3) by auto
  show "low (tarjan_pop at r s) ! v = r" if "v \<in> set (at # ext)" for v
    using pop that bounds st by auto
  show "low (tarjan_pop at r s) ! v = low s ! v" if "v \<in> seen s" "v \<notin> set (at # ext)" for v
    using pop that bounds by auto
  have "\<forall>v < length g. on_stack (tarjan_pop at r s) ! v \<longleftrightarrow> v \<in> set base"
    using pop shape bounds(4) st dist(3) by (auto simp: tarjan_shape_def)
  then show "tarjan_shape g (tarjan_pop at r s)"
    using shape pop bounds st unfolding tarjan_shape_def fields by (auto simp: sorted_wrt_append)
qed

lemma tarjan_pop_inv:
  assumes inv: "loop_inv g base at ext visited s" and all: "\<forall>w. (at, w) \<in> succs g \<longrightarrow> w \<in> visited"
    and root: "low s ! at = num s at"
  shows "tarjan_inv g (tarjan_pop at (low s ! at) s)"
proof -
  note L = inv [unfolded loop_inv_def]
  have shape: "tarjan_shape g s" and fin: "finished_ok g s" and low: "low_sound g s"
    and st: "stack s = base @ at # ext" using L by (simp_all add: tarjan_inv_def)
  have old: "set (stack s) \<subseteq> seen s" using shape by (simp add: tarjan_shape_def)
  let ?s = "tarjan_pop at (low s ! at) s"
  note f = tarjan_pop_fields [OF inv, where r = "low s ! at"]
  note closed = component_closed [OF inv all root]
  have part: "finished s \<inter> set (at # ext) = {}" using st by (auto simp: finished_def)
  have fin_low: "low ?s ! u = low s ! u" if "u \<in> finished s" for u
    using f(7) that part by (auto simp: finished_def)
  have "\<forall>u \<in> set ext. (at, u) \<in> (succs g)\<^sup>*" using L by blast
  then have reach: "(at, u) \<in> (succs g)\<^sup>*" "(u, at) \<in> (succs g)\<^sup>*" if "u \<in> set (at # ext)" for u
    using component_root [OF inv all root that] that by auto
  have closed0: "\<forall>u \<in> finished s. \<forall>v. (u, v) \<in> succs g \<longrightarrow> v \<in> finished s"
    using fin by (simp add: finished_ok_def)
  have root_of: "\<exists>r \<in> seen s. low ?s ! u = num s r \<and> (u, r) \<in> (succs g)\<^sup>* \<and> (r, u) \<in> (succs g)\<^sup>*"
    if "u \<in> finished s \<union> set (at # ext)" for u
  proof (cases "u \<in> finished s")
    case True
    then show ?thesis unfolding fin_low [OF True] using fin unfolding finished_ok_def by blast
  next
    case False
    then have "u \<in> set (at # ext)" using that by simp
    moreover have "at \<in> seen s" using old st by auto
    moreover note f(6) [OF calculation(1)]
    ultimately show ?thesis using reach root by (intro bexI [of _ at]) simp_all
  qed
  have same: "low ?s ! v = low ?s ! u"
    if u: "u \<in> finished s \<union> set (at # ext)" and uv: "(u, v) \<in> (succs g)\<^sup>*" "(v, u) \<in> (succs g)\<^sup>*" for u v
  proof (cases "u \<in> finished s")
    case True
    then have v: "v \<in> finished s" using closed_rtrancl [OF closed0 uv(1)] by simp
    have "low s ! v = low s ! u" using True fin uv unfolding finished_ok_def by blast
    then show ?thesis unfolding fin_low [OF True] fin_low [OF v] .
  next
    case False
    then have u': "u \<in> set (at # ext)" using u by simp
    have "v \<in> finished s \<union> set (at # ext)" by (rule closed_rtrancl [OF closed uv(1) u])
    moreover have "v \<notin> finished s" using closed_rtrancl [OF closed0 uv(2)] False by blast
    ultimately have v': "v \<in> set (at # ext)" by blast
    show ?thesis unfolding f(6) [OF u'] f(6) [OF v'] ..
  qed
  have "finished_ok g ?s" unfolding finished_ok_def f(3,4,5)
    by (intro conjI closed ballI allI impI root_of same)
  moreover have "low_sound g ?s"
    unfolding low_sound_def f(1,4)
  proof
    fix v assume v: "v \<in> set base"
    then have "v \<in> set (stack s)" using st by simp
    then obtain w where w: "w \<in> set (stack s)" "low s ! v = num s w" "num s w \<le> num s v" "(v, w) \<in> (succs g)\<^sup>*"
      using low unfolding low_sound_def by blast
    have "w \<in> set base"
    proof (rule ccontr)
      assume "w \<notin> set base"
      then have "w \<in> set (at # ext)" using w(1) st by auto
      then have "num s v < num s w" using v shape st by (auto simp: tarjan_shape_def sorted_wrt_append)
      with w(3) show False by simp
    qed
    moreover have "v \<in> seen s" "v \<notin> set (at # ext)"
      using v old tarjan_shape_distinct [OF shape] unfolding st by auto
    ultimately show "\<exists>w \<in> set base. low ?s ! v = num s w \<and> num s w \<le> num s v \<and> (v, w) \<in> (succs g)\<^sup>*"
      using w f(7) by (intro bexI [of _ w]) simp_all
  qed
  ultimately show ?thesis using f(8) by (simp add: tarjan_inv_def)
qed

section \<open>The whole search\<close>

lemma tarjan_children_step:
  "tarjan_children g n at (to # tos) s =
     (case (if ids s ! to = None then tarjan_dfs g n to s else Some s) of
        None \<Rightarrow> None
      | Some s \<Rightarrow> tarjan_children g n at tos (tarjan_relax at to s))"
  by (simp add: tarjan_relax_def split: option.split)

lemma tarjan_dfs_step:
  "tarjan_dfs g (Suc n) at s =
     (case tarjan_children g n at (g ! at) (tarjan_push at s) of
        None \<Rightarrow> None
      | Some s \<Rightarrow> Some (if ids s ! at = Some (low s ! at) then tarjan_pop at (low s ! at) s else s))"
  by (simp add: tarjan_push_def Let_def)

definition unseen :: "nat list list \<Rightarrow> tarjan \<Rightarrow> nat set" where
  "unseen g s = {..<length g} - seen s"

lemma unseen_mono: "seen s \<subseteq> seen s' \<Longrightarrow> card (unseen g s) \<le> n \<Longrightarrow> card (unseen g s') \<le> n"
  by (rule order_trans [OF card_mono [of "unseen g s"]]) (auto simp: unseen_def)

lemma frame_refl: "frame g at s s"
  by (simp add: frame_def)

lemma frame_trans: "frame g at s s1 \<Longrightarrow> frame g at s1 s2 \<Longrightarrow> frame g at s s2"
  unfolding frame_def by (auto simp: subset_iff)

lemma frame_relax: "frame g at s (tarjan_relax at to s)"
  by (simp add: frame_def)

lemma frame_child:
  assumes "frame g to s s1" and "(at, to) \<in> succs g" and "to \<notin> seen s"
  shows "frame g at s s1"
proof -
  have "(at, v) \<in> (succs g)\<^sup>*" if "v \<in> seen s1 - seen s" for v
    using assms(1) that by (auto simp: frame_def intro: converse_rtrancl_into_rtrancl [OF assms(2)])
  then show ?thesis using assms(1,3) by (auto simp: frame_def)
qed

lemma tarjan_children_ok:
  assumes dfs: "\<And>to s. \<lbrakk>tarjan_inv g s; to < length g; to \<notin> seen s; card (unseen g s) \<le> n\<rbrakk> \<Longrightarrow>
      \<exists>ext s'. tarjan_dfs g n to s = Some s' \<and> dfs_post g to s ext s'"
    and "loop_inv g base at ext visited s" and "\<forall>to \<in> set tos. (at, to) \<in> succs g \<and> to < length g"
    and "card (unseen g s) \<le> n"
  shows "\<exists>ext' s'. tarjan_children g n at tos s = Some s' \<and> loop_inv g base at ext' (visited \<union> set tos) s' \<and>
    frame g at s s'"
  using assms(2-)
proof (induction tos arbitrary: ext visited s)
  case Nil
  then show ?case using frame_refl by auto
next
  case (Cons to tos)
  have edge: "(at, to) \<in> succs g" "to < length g" using Cons.prems(2) by simp_all
  have T: "tarjan_inv g s" using Cons.prems(1) by (simp add: loop_inv_def)
  have len: "length (ids s) = length g" using T by (simp add: tarjan_inv_def tarjan_shape_def)
  obtain ext1 s1 where s1: "(if ids s ! to = None then tarjan_dfs g n to s else Some s) = Some s1"
    "loop_inv g base at ext1 (insert to visited) (tarjan_relax at to s1)" "frame g at s s1"
  proof (cases "to \<in> seen s")
    case True
    then have "ids s ! to \<noteq> None" by (simp add: seen_def)
    then show thesis
      by (intro that [OF _ loop_inv_seen [OF Cons.prems(1) edge(1) True] frame_refl]) auto
  next
    case False
    then have "ids s ! to = None" using edge(2) len by (simp add: seen_def)
    moreover obtain e s' where d: "tarjan_dfs g n to s = Some s'" "dfs_post g to s e s'"
      using dfs [OF T edge(2) False Cons.prems(3)] by blast
    moreover have "frame g at s s'"
      using d(2) frame_child [OF _ edge(1) False] by (simp add: dfs_post_def)
    ultimately show thesis
      by (intro that [OF _ loop_inv_unseen [OF Cons.prems(1) edge(1) False d(2)]]) simp_all
  qed
  have fr: "frame g at s (tarjan_relax at to s1)" using frame_trans [OF s1(3) frame_relax] .
  then have "card (unseen g (tarjan_relax at to s1)) \<le> n"
    using unseen_mono [OF _ Cons.prems(3)] by (simp add: frame_def)
  then obtain ext' s' where "tarjan_children g n at tos (tarjan_relax at to s1) = Some s'"
    "loop_inv g base at ext' (insert to visited \<union> set tos) s'" "frame g at (tarjan_relax at to s1) s'"
    using Cons.IH [OF s1(2)] Cons.prems(2) by auto
  then show ?case
    using frame_trans [OF fr] unfolding tarjan_children_step s1(1) by auto
qed

lemma tarjan_push_unseen:
  assumes "tarjan_shape g s" and "at < length g" and "at \<notin> seen s" and "card (unseen g s) \<le> Suc n"
  shows "card (unseen g (tarjan_push at s)) \<le> n"
proof -
  have "unseen g (tarjan_push at s) = unseen g s - {at}" "at \<in> unseen g s"
    using tarjan_push_fields(2) [OF assms(1-3)] assms(2,3) by (auto simp: unseen_def)
  then show ?thesis using assms(4) by (simp add: unseen_def)
qed

text \<open>Without a pop, the node stays on the stack and reaches a node before it.\<close>

lemma dfs_post_stay:
  assumes inv: "loop_inv g (stack s) at ext visited s'" and all: "\<forall>w. (at, w) \<in> succs g \<longrightarrow> w \<in> visited"
    and low: "low s' ! at \<noteq> num s' at" and fr: "frame g at s s'" and new: "set (at # ext) \<inter> seen s = {}"
  shows "dfs_post g at s (at # ext) s'"
proof -
  note L = inv [unfolded loop_inv_def]
  have "at \<in> set (stack s')" "at \<in> seen s'" using L by (auto simp: tarjan_inv_def tarjan_shape_def)
  moreover from this have "low s' ! at \<le> num s' at"
    using L unfolding tarjan_inv_def low_sound_def by force
  ultimately show ?thesis
    using L all low fr new by (auto simp: dfs_post_def returned_def)
qed

lemma dfs_post_pop:
  assumes inv: "loop_inv g (stack s) at ext visited s'" and all: "\<forall>w. (at, w) \<in> succs g \<longrightarrow> w \<in> visited"
    and low: "low s' ! at = num s' at" and fr: "frame g at s s'" and new: "set (at # ext) \<inter> seen s = {}"
  shows "dfs_post g at s [] (tarjan_pop at (low s' ! at) s')"
proof -
  note f = tarjan_pop_fields [OF inv, where r = "low s' ! at"]
  have seen: "seen s \<subseteq> seen s'" using fr by (simp add: frame_def)
  have "low (tarjan_pop at (low s' ! at) s') ! v = low s' ! v" if "v \<in> seen s" for v
    by (rule f(7)) (use that seen new in auto)
  then have "frame g at s (tarjan_pop at (low s' ! at) s')"
    using fr unfolding frame_def f(2,3) by auto
  moreover have "at \<in> seen s'"
    using inv by (auto simp: loop_inv_def tarjan_inv_def tarjan_shape_def)
  ultimately show ?thesis
    using tarjan_pop_inv [OF inv all low] f(1,3) by (simp add: dfs_post_def returned_def)
qed

lemma tarjan_dfs_ok:
  assumes wf: "idx_wf g"
  shows "\<lbrakk>tarjan_inv g s; at < length g; at \<notin> seen s; card (unseen g s) \<le> n\<rbrakk> \<Longrightarrow>
    \<exists>ext s'. tarjan_dfs g n at s = Some s' \<and> dfs_post g at s ext s'"
proof (induction n arbitrary: at s)
  case 0
  then show ?case by (auto simp: unseen_def)
next
  case (Suc n)
  have shape: "tarjan_shape g s" using Suc.prems(1) by (simp add: tarjan_inv_def)
  note f = tarjan_push_fields [OF shape Suc.prems(2,3)]
  have edges: "\<forall>to \<in> set (g ! at). (at, to) \<in> succs g \<and> to < length g"
    using wf Suc.prems(2) by (auto simp: succs_def idx_wf_def)
  obtain ext s' where s': "tarjan_children g n at (g ! at) (tarjan_push at s) = Some s'"
    "loop_inv g (stack s) at ext ({} \<union> set (g ! at)) s'" "frame g at (tarjan_push at s) s'"
    using tarjan_children_ok [OF Suc.IH tarjan_push_inv [OF Suc.prems(1-3)] edges
        tarjan_push_unseen [OF shape Suc.prems(2-4)]] by blast
  note L = s'(2) [unfolded loop_inv_def]
  have all: "\<forall>w. (at, w) \<in> succs g \<longrightarrow> w \<in> {} \<union> set (g ! at)" by (simp add: succs_def)
  have fr: "frame g at s s'"
    using s'(3) f(2,4) Suc.prems(3) unfolding frame_def f(2) by auto
  have new: "set (at # ext) \<inter> seen s = {}"
  proof -
    have "num s' at < num s' v" if "v \<in> set ext" for v
      using L that by (auto simp: tarjan_inv_def tarjan_shape_def sorted_wrt_append)
    moreover have "num s' at = next_id s + 1"
      using s'(3) f(2,5) by (simp add: frame_def num_def)
    moreover have "num s' v \<le> next_id s" if "v \<in> seen s" for v
      using dfs_post_num [OF fr that] shape that by (simp add: tarjan_shape_def)
    ultimately show ?thesis using Suc.prems(3) by fastforce
  qed
  have "ids s' ! at = ids (tarjan_push at s) ! at" using s'(3) f(2) by (simp add: frame_def)
  then have num: "ids s' ! at = Some (num s' at)" by (simp add: num_def f(5))
  show ?case
  proof (cases "low s' ! at = num s' at")
    case True
    with dfs_post_pop [OF s'(2) all True fr new] show ?thesis
      unfolding tarjan_dfs_step s'(1) by (auto simp: num)
  next
    case False
    with dfs_post_stay [OF s'(2) all False fr new] show ?thesis
      unfolding tarjan_dfs_step s'(1) by (auto simp: num)
  qed
qed

text \<open>A call on an empty stack leaves it empty: the first node on it would have to reach one before it.\<close>

lemma dfs_post_empty:
  assumes "dfs_post g at s ext s'" and "stack s = []"
  shows "stack s' = []"
proof (cases ext)
  case (Cons v vs)
  note P = assms(1) [unfolded dfs_post_def returned_def]
  have st: "stack s' = v # vs" using P assms(2) Cons by simp
  have "low s' ! v < num s' v" using P Cons by simp
  moreover obtain w where "w \<in> set (stack s')" "low s' ! v = num s' w"
    using P st by (force simp: tarjan_inv_def low_sound_def)
  moreover have "\<forall>w \<in> set vs. num s' v < num s' w"
    using P st by (simp add: tarjan_inv_def tarjan_shape_def)
  ultimately show ?thesis using st by auto
qed (use assms in \<open>simp add: dfs_post_def\<close>)

lemma tarjan_all_ok:
  assumes wf: "idx_wf g"
  shows "\<lbrakk>tarjan_inv g s; stack s = []; set is \<subseteq> {..<length g}\<rbrakk> \<Longrightarrow>
    \<exists>s'. tarjan_all g is s = Some s' \<and> tarjan_inv g s' \<and> stack s' = [] \<and> seen s \<union> set is \<subseteq> seen s'"
proof (induction "is" arbitrary: s)
  case (Cons i "is")
  have i: "i < length g" using Cons.prems(3) by simp
  have len: "length (ids s) = length g" using Cons.prems(1) by (simp add: tarjan_inv_def tarjan_shape_def)
  obtain s1 where s1: "(if ids s ! i = None then tarjan_dfs g (length g + 1) i s else Some s) = Some s1"
    "tarjan_inv g s1" "stack s1 = []" "insert i (seen s) \<subseteq> seen s1"
  proof (cases "i \<in> seen s")
    case True
    then show thesis using that [of s] Cons.prems(1,2) by (auto simp: seen_def)
  next
    case False
    then have none: "ids s ! i = None" using i len by (simp add: seen_def)
    have "card (unseen g s) \<le> length g + 1"
      using card_mono [of "{..<length g}" "unseen g s"] by (auto simp: unseen_def)
    then obtain ext s' where d: "tarjan_dfs g (length g + 1) i s = Some s'" "dfs_post g i s ext s'"
      using tarjan_dfs_ok [OF wf Cons.prems(1) i False] by blast
    have "stack s' = []" using dfs_post_empty [OF d(2) Cons.prems(2)] .
    moreover have "tarjan_inv g s'" "insert i (seen s) \<subseteq> seen s'"
      using d(2) by (auto simp: dfs_post_def frame_def)
    moreover have "(if ids s ! i = None then tarjan_dfs g (length g + 1) i s else Some s) = Some s'"
      unfolding none d(1) by simp
    ultimately show thesis by (intro that)
  qed
  obtain s' where "tarjan_all g is s1 = Some s'" "tarjan_inv g s'" "stack s' = []" "seen s1 \<union> set is \<subseteq> seen s'"
    using Cons.IH [OF s1(2,3)] Cons.prems(3) by auto
  moreover have "tarjan_all g (i # is) s = tarjan_all g is s1"
    unfolding tarjan_all.simps s1(1) by simp
  ultimately show ?case using s1(4) by auto
qed simp

lemma tarjan_new_inv: "tarjan_inv g (tarjan_new g)"
proof -
  have "seen (tarjan_new g) = {}" by (simp add: seen_def tarjan_new_def)
  then show ?thesis
    by (simp add: tarjan_inv_def tarjan_shape_def finished_ok_def low_sound_def finished_def)
      (simp add: tarjan_new_def)
qed

lemma tarjan_low_components:
  assumes wf: "idx_wf g"
  obtains s where "tarjan_all g [0..<length g] (tarjan_new g) = Some s" and "length (low s) = length g"
    and "\<And>u v. u < length g \<Longrightarrow> v < length g \<Longrightarrow>
      low s ! u = low s ! v \<longleftrightarrow> (u, v) \<in> (succs g)\<^sup>* \<and> (v, u) \<in> (succs g)\<^sup>*"
proof -
  have "stack (tarjan_new g) = []" by (simp add: tarjan_new_def)
  then obtain s where s: "tarjan_all g [0..<length g] (tarjan_new g) = Some s" "tarjan_inv g s" "stack s = []"
    "set [0..<length g] \<subseteq> seen s"
    using tarjan_all_ok [OF wf tarjan_new_inv, of "[0..<length g]"] by (auto simp: lessThan_atLeast0)
  have fin: "u \<in> finished s" if "u < length g" for u
    using that s(3,4) by (auto simp: finished_def)
  have ok: "finished_ok g s" and inj: "inj_on (num s) (seen s)" and len: "length (low s) = length g"
    using s(2) by (simp_all add: tarjan_inv_def tarjan_shape_def)
  show thesis
  proof (rule that [OF s(1) len])
    fix u v
    assume uv: "u < length g" "v < length g"
    have root: "\<exists>r \<in> seen s. low s ! w = num s r \<and> (w, r) \<in> (succs g)\<^sup>* \<and> (r, w) \<in> (succs g)\<^sup>*"
      if "w < length g" for w
      using ok fin [OF that] unfolding finished_ok_def by blast
    obtain r1 where r1: "r1 \<in> seen s" "low s ! u = num s r1" "(u, r1) \<in> (succs g)\<^sup>*" "(r1, u) \<in> (succs g)\<^sup>*"
      using root uv(1) by blast
    obtain r2 where r2: "r2 \<in> seen s" "low s ! v = num s r2" "(v, r2) \<in> (succs g)\<^sup>*" "(r2, v) \<in> (succs g)\<^sup>*"
      using root uv(2) by blast
    show "low s ! u = low s ! v \<longleftrightarrow> (u, v) \<in> (succs g)\<^sup>* \<and> (v, u) \<in> (succs g)\<^sup>*"
    proof
      assume "low s ! u = low s ! v"
      then have "r1 = r2" using inj r1 r2 by (simp add: inj_on_def)
      then show "(u, v) \<in> (succs g)\<^sup>* \<and> (v, u) \<in> (succs g)\<^sup>*"
        using r1(3,4) r2(3,4) by (auto intro: rtrancl_trans)
    next
      assume "(u, v) \<in> (succs g)\<^sup>* \<and> (v, u) \<in> (succs g)\<^sup>*"
      then have "low s ! v = low s ! u" using ok fin [OF uv(1)] unfolding finished_ok_def by blast
      then show "low s ! u = low s ! v" by (rule sym)
    qed
  qed
qed

section \<open>Grouping\<close>

lemma low_groups_get:
  fixes lows :: "nat list"
  shows "bmap_wf cmp_ord (low_groups lows) \<and> (\<forall>k. bmap_get cmp_ord (low_groups lows) k =
     (let l = filter (\<lambda>i. lows ! i = k) [0..<length lows] in if l = [] then None else Some l))"
proof -
  define step :: "nat \<times> nat \<Rightarrow> (nat, nat list) btree \<Rightarrow> (nat, nat list) btree" where
    "step = (\<lambda>(grp, idx) m. bmap_insert cmp_ord grp ((case bmap_get cmp_ord m grp of None \<Rightarrow> [] | Some l \<Rightarrow> l) @ [idx]) m)"
  have gen: "bmap_wf cmp_ord (fold step ps []) \<and> (\<forall>k. bmap_get cmp_ord (fold step ps []) k =
     (let l = map snd (filter (\<lambda>p. fst p = k) ps) in if l = [] then None else Some l))" for ps
  proof (induction ps rule: rev_induct)
    case (snoc p ps)
    then show ?case
      by (cases p) (auto simp: step_def ord.bmap_wf_insert ord.bmap_get_insert ord.cmp_Equal_iff Let_def
          split: option.split)
  qed simp
  have "map snd (filter (\<lambda>p. fst p = k) (zip lows [0..<length lows])) = filter (\<lambda>i. lows ! i = k) [0..<length lows]" for k
  proof -
    have "zip lows [0..<length lows] = map (\<lambda>i. (lows ! i, i)) [0..<length lows]"
      by (rule nth_equalityI) simp_all
    then show ?thesis by (simp add: filter_map comp_def)
  qed
  with gen [of "zip lows [0..<length lows]"] show ?thesis
    by (simp add: low_groups_def step_def)
qed

lemma low_groups_partition:
  fixes lows :: "nat list"
  shows "distinct (concat (map snd (low_groups lows)))"
    and "set (concat (map snd (low_groups lows))) = {..<length lows}"
    and "\<And>c u. c \<in> set (map snd (low_groups lows)) \<Longrightarrow> u \<in> set c \<Longrightarrow>
      set c = {v. v < length lows \<and> lows ! v = lows ! u}"
    and "[] \<notin> set (map snd (low_groups lows))"
proof -
  let ?m = "low_groups lows"
  have wf: "bmap_wf cmp_ord ?m" using low_groups_get by blast
  have mem: "(k, c) \<in> set ?m \<longleftrightarrow> c = filter (\<lambda>i. lows ! i = k) [0..<length lows] \<and> c \<noteq> []" for k c
    unfolding ord.bmap_get_Some_iff [OF wf, symmetric] using low_groups_get [of lows] by (auto simp: Let_def)
  show classes: "set c = {v. v < length lows \<and> lows ! v = lows ! u}"
    if "c \<in> set (map snd ?m)" "u \<in> set c" for c u
    using that by (auto simp: mem)
  show "[] \<notin> set (map snd ?m)" by (auto simp: mem)
  have "v \<in> set (concat (map snd ?m))" if "v < length lows" for v
  proof -
    have "(lows ! v, filter (\<lambda>i. lows ! i = lows ! v) [0..<length lows]) \<in> set ?m"
      using that by (auto simp: mem filter_empty_conv)
    then show ?thesis using that by force
  qed
  then show "set (concat (map snd ?m)) = {..<length lows}" by (auto simp: mem)
  have inj: "inj_on snd (set ?m)"
  proof (rule inj_onI)
    fix p q
    assume pq: "p \<in> set ?m" "q \<in> set ?m" "snd p = snd q"
    have "fst p = lows ! v" if "p \<in> set ?m" "v \<in> set (snd p)" for p v
      using that mem [of "fst p" "snd p"] by auto
    moreover have "snd p \<noteq> []" using pq(1) mem [of "fst p" "snd p"] by (metis prod.collapse)
    then have "hd (snd p) \<in> set (snd p)" by (rule hd_in_set)
    ultimately have "fst p = fst q" using pq by simp
    with pq(3) show "p = q" by (simp add: prod_eq_iff)
  qed
  have "distinct (map fst ?m)" using ord.bmap_wf_distinct [OF wf] .
  then have "distinct (map snd ?m)" using inj by (simp add: distinct_map)
  moreover have "set c \<inter> set c' = {}" if "c \<in> set (map snd ?m)" "c' \<in> set (map snd ?m)" "c \<noteq> c'" for c c'
    using that by (auto simp: mem)
  moreover have "distinct c" if "c \<in> set (map snd ?m)" for c
    using that by (auto simp: mem)
  ultimately show "distinct (concat (map snd ?m))" by (intro distinct_concat)
qed

section \<open>Strongly connected components of a graph\<close>

lemma tarjan_run_components:
  assumes "idx_wf g"
  obtains cs where "tarjan_run g = Some cs" and "distinct (concat cs)" and "set (concat cs) = {..<length g}"
    and "\<And>c u. c \<in> set cs \<Longrightarrow> u \<in> set c \<Longrightarrow> set c = {v. v < length g \<and> (u, v) \<in> (succs g)\<^sup>* \<and> (v, u) \<in> (succs g)\<^sup>*}"
    and "[] \<notin> set cs"
proof -
  obtain s where s: "tarjan_all g [0..<length g] (tarjan_new g) = Some s" "length (low s) = length g"
    "\<And>u v. u < length g \<Longrightarrow> v < length g \<Longrightarrow>
      low s ! u = low s ! v \<longleftrightarrow> (u, v) \<in> (succs g)\<^sup>* \<and> (v, u) \<in> (succs g)\<^sup>*"
    using tarjan_low_components [OF assms] by blast
  note part = low_groups_partition [where lows = "low s"]
  show thesis
  proof (rule that [of "map snd (low_groups (low s))"])
    show "tarjan_run g = Some (map snd (low_groups (low s)))" by (simp add: tarjan_run_def s(1))
    show "set c = {v. v < length g \<and> (u, v) \<in> (succs g)\<^sup>* \<and> (v, u) \<in> (succs g)\<^sup>*}"
      if c: "c \<in> set (map snd (low_groups (low s)))" "u \<in> set c" for c u
    proof -
      have "u \<in> set (concat (map snd (low_groups (low s))))" using c by auto
      then have "u < length g" unfolding part(2) s(2) by simp
      with part(3) [OF c] s(2,3) show ?thesis by auto
    qed
  qed (use part s(2) in auto)
qed

lemma set_map_filter_Some: "set (List.map_filter f xs) = {y. \<exists>x \<in> set xs. f x = Some y}"
  by (induction xs) (auto simp: map_filter_simps split: option.splits)

context linear_cmp
begin

abbreviation idx_graph_of :: "('a, 'a list) btree \<Rightarrow> nat list list" where
  "idx_graph_of graph \<equiv>
     map (\<lambda>(_, vs). List.map_filter (bmap_get cmp (zip (map fst graph) [0..<length graph])) vs) graph"

lemma bmap_get_index:
  assumes "bmap_wf cmp graph"
  shows "bmap_get cmp (zip (map fst graph) [0..<length graph]) v = Some i \<longleftrightarrow> i < length graph \<and> fst (graph ! i) = v"
proof -
  have "bmap_wf cmp (zip (map fst graph) [0..<length graph])" using assms by (simp add: bmap_wf_def)
  from bmap_get_Some_iff [OF this, of v i] show ?thesis
    by (auto simp: set_zip intro!: exI [of _ i])
qed

lemma bmap_get_nth:
  assumes "bmap_wf cmp graph" and "i < length graph"
  shows "bmap_get cmp graph (fst (graph ! i)) = Some (snd (graph ! i))"
  using assms bmap_get_Some_iff [OF assms(1)] by simp

lemma idx_graph_edges:
  assumes "bmap_wf cmp graph"
  shows "(i, j) \<in> succs (idx_graph_of graph) \<longleftrightarrow>
    i < length graph \<and> j < length graph \<and> (fst (graph ! i), fst (graph ! j)) \<in> graph_edges cmp graph"
  using bmap_get_nth [OF assms]
  by (auto simp: succs_def graph_edges_def set_map_filter_Some bmap_get_index [OF assms] split_beta)

lemma idx_graph_wf: "bmap_wf cmp graph \<Longrightarrow> idx_wf (idx_graph_of graph)"
  by (auto simp: idx_wf_def set_map_filter_Some bmap_get_index)

lemma idx_graph_paths:
  assumes wf: "bmap_wf cmp graph" and ij: "i < length graph" "j < length graph"
  shows "(i, j) \<in> (succs (idx_graph_of graph))\<^sup>* \<longleftrightarrow> (fst (graph ! i), fst (graph ! j)) \<in> (graph_edges cmp graph)\<^sup>*"
proof
  assume "(i, j) \<in> (succs (idx_graph_of graph))\<^sup>*"
  then show "(fst (graph ! i), fst (graph ! j)) \<in> (graph_edges cmp graph)\<^sup>*"
    by (induction rule: rtrancl_induct) (auto simp: idx_graph_edges [OF wf] intro: rtrancl_into_rtrancl)
next
  have index: "i = l" if "i < length graph" "l < length graph" "fst (graph ! i) = fst (graph ! l)" for i l
    using bmap_wf_distinct [OF wf] that by (simp add: distinct_conv_nth) metis
  assume "(fst (graph ! i), fst (graph ! j)) \<in> (graph_edges cmp graph)\<^sup>*"
  then have "\<exists>l < length graph. fst (graph ! i) = fst (graph ! l) \<and> (l, j) \<in> (succs (idx_graph_of graph))\<^sup>*"
  proof (induction rule: converse_rtrancl_induct)
    case base
    then show ?case using ij(2) by auto
  next
    case (step u w)
    then obtain l where l: "l < length graph" "w = fst (graph ! l)" "(l, j) \<in> (succs (idx_graph_of graph))\<^sup>*"
      by blast
    obtain vs where "bmap_get cmp graph u = Some vs" using step.hyps(1) by (auto simp: graph_edges_def)
    then obtain k where k: "k < length graph" "u = fst (graph ! k)"
      unfolding bmap_get_Some_iff [OF wf] by (metis fst_conv in_set_conv_nth)
    have "(k, l) \<in> succs (idx_graph_of graph)"
      using step.hyps(1) k l by (simp add: idx_graph_edges [OF wf])
    then have "(k, j) \<in> (succs (idx_graph_of graph))\<^sup>*" using l(3) by (rule converse_rtrancl_into_rtrancl)
    with k show ?case by blast
  qed
  then show "(i, j) \<in> (succs (idx_graph_of graph))\<^sup>*" using index ij(1) by blast
qed

lemma strongly_connected_components_ok:
  assumes wf: "bmap_wf cmp graph"
  obtains cs where "strongly_connected_components cmp graph = Some cs" and "distinct (concat cs)"
    and "set (concat cs) = fst ` set graph" and "[] \<notin> set cs"
    and "\<And>c u. c \<in> set cs \<Longrightarrow> u \<in> set c \<Longrightarrow>
      set c = {v \<in> fst ` set graph. (u, v) \<in> (graph_edges cmp graph)\<^sup>* \<and> (v, u) \<in> (graph_edges cmp graph)\<^sup>*}"
proof -
  let ?g = "idx_graph_of graph" and ?key = "\<lambda>i. fst (graph ! i)"
  obtain cs where cs: "tarjan_run ?g = Some cs" "distinct (concat cs)" "set (concat cs) = {..<length ?g}"
    "\<And>c u. c \<in> set cs \<Longrightarrow> u \<in> set c \<Longrightarrow>
      set c = {v. v < length ?g \<and> (u, v) \<in> (succs ?g)\<^sup>* \<and> (v, u) \<in> (succs ?g)\<^sup>*}" "[] \<notin> set cs"
    using tarjan_run_components [OF idx_graph_wf [OF wf]] by blast
  have range: "i < length graph" if "c \<in> set cs" "i \<in> set c" for c i
    using cs(3) that by (auto simp: subset_iff set_eq_iff)
  have keys: "fst ` set graph = ?key ` {..<length graph}" by (auto simp: set_conv_nth)
  have inj: "inj_on ?key {..<length graph}"
    using bmap_wf_distinct [OF wf] by (auto simp: inj_on_def distinct_conv_nth)
  have key: "map fst graph ! i = ?key i" if "i < length graph" for i using that by simp
  have "map (map (\<lambda>i. map fst graph ! i)) cs = map (map ?key) cs"
    using range by (auto intro!: key)
  then have run: "strongly_connected_components cmp graph = Some (map (map ?key) cs)"
    by (simp add: strongly_connected_components_def cs(1) Let_def)
  have concat: "concat (map (map ?key) cs) = map ?key (concat cs)" by (simp add: map_concat)
  show thesis
  proof (rule that [OF run])
    show "distinct (concat (map (map ?key) cs))"
      unfolding concat distinct_map using cs(2,3) inj by simp
    show "set (concat (map (map ?key) cs)) = fst ` set graph"
      unfolding concat keys using cs(3) by simp
    show "[] \<notin> set (map (map ?key) cs)" using cs(5) by auto
    show "set c = {v \<in> fst ` set graph. (u, v) \<in> (graph_edges cmp graph)\<^sup>* \<and> (v, u) \<in> (graph_edges cmp graph)\<^sup>*}"
      if "c \<in> set (map (map ?key) cs)" "u \<in> set c" for c u
    proof -
      obtain d i where d: "d \<in> set cs" "c = map ?key d" "i \<in> set d" "u = ?key i" using \<open>c \<in> _\<close> \<open>u \<in> _\<close> by auto
      have "set d = {v. v < length graph \<and> (?key i, ?key v) \<in> (graph_edges cmp graph)\<^sup>* \<and> (?key v, ?key i) \<in> (graph_edges cmp graph)\<^sup>*}"
        using cs(4) [OF d(1,3)] idx_graph_paths [OF wf] range [OF d(1,3)] by auto
      then show ?thesis unfolding keys d by auto
    qed
  qed
qed

end

text \<open>
  C29: \<open>strongly_connected_components\<close> always ends and returns each key of the graph exactly once; the
  group of a key consists of the keys that it reaches and that reach it.
\<close>

theorem strongly_connected_components_correct:
  assumes "bmap_wf cmp_bytes graph"
  shows "\<exists>cs. strongly_connected_components cmp_bytes graph = Some cs \<and> distinct (concat cs) \<and>
    set (concat cs) = fst ` set graph \<and> (\<forall>c \<in> set cs. \<forall>u \<in> set c. set c =
      {v \<in> fst ` set graph. (u, v) \<in> (graph_edges cmp_bytes graph)\<^sup>* \<and> (v, u) \<in> (graph_edges cmp_bytes graph)\<^sup>*})"
  by (rule bytes_ord.strongly_connected_components_ok [OF assms]) blast

theorem strongly_connected_components_correct_witness:
  "\<exists>cs. strongly_connected_components cmp_bytes [([0], [[1]]), ([1], [[0], [2]]), ([2], [])] = Some cs \<and>
     distinct (concat cs)"
proof -
  have "bmap_wf cmp_bytes [([0], [[1]]), ([1], [[0], [2]]), ([2], [])]"
    by (simp add: bmap_wf_def bset_wf_def)
  from strongly_connected_components_correct [OF this] show ?thesis by blast
qed

end
