(* ===== verification/Stratify.thy ===== *)
theory Stratify
  imports Program Scc
begin

text \<open>
  \<open>retia-core/src/query/stratify.rs\<close>: the rules of a program that the query reaches are put into strata, so
  that a rule is evaluated after the rules it depends on, and strictly after those it depends on through
  negation, an aggregation or a fixed rule. The names of the stores with a lifetime, which the code wraps
  as \<open>MagicSymbol::Muggle\<close>, are kept as symbols.
\<close>

section \<open>The dependency graph\<close>

definition contained_rules :: "'m normal_form_atom \<Rightarrow> (symbol, bool) btree" where
  "contained_rules atom =
     (case atom of
        Rule r \<Rightarrow> [(nr_name r, False)]
      | NegatedRule r \<Rightarrow> [(nr_name r, True)]
      | _ \<Rightarrow> [])"

definition ruleset_has_aggr :: "'m normal_form_inline_rule list \<Rightarrow> bool" where
  "ruleset_has_aggr ruleset = list_ex (\<lambda>rule. list_ex (\<lambda>a. \<not> Option.is_none a) (nf_aggr rule)) ruleset"

definition ruleset_is_meet :: "'m normal_form_inline_rule list \<Rightarrow> bool" where
  "ruleset_is_meet ruleset \<longleftrightarrow>
     ruleset_has_aggr ruleset \<and>
     list_all (\<lambda>rule. list_all (\<lambda>v. case v of None \<Rightarrow> True | Some (v, _) \<Rightarrow> is_meet v) (nf_aggr rule)) ruleset"

definition meet_rules :: "('m, 'f) normal_form_program \<Rightarrow> symbol list" where
  "meet_rules nf_prog =
     map fst (filter (\<lambda>(k, ruleset). case ruleset of Rules ruleset \<Rightarrow> ruleset_is_meet ruleset | Fixed _ \<Rightarrow> False) (prog nf_prog))"

definition fixed_rules :: "('m, 'f) normal_form_program \<Rightarrow> symbol list" where
  "fixed_rules nf_prog =
     map fst (filter (\<lambda>(k, ruleset). case ruleset of Rules _ \<Rightarrow> False | Fixed _ \<Rightarrow> True) (prog nf_prog))"

definition add_dependency ::
  "('m, 'f) normal_form_program \<Rightarrow> symbol \<Rightarrow> 'm normal_form_inline_rule list \<Rightarrow> symbol \<times> bool \<Rightarrow>
   (symbol, bool) btree \<Rightarrow> (symbol, bool) btree" where
  "add_dependency nf_prog k ruleset dep deps =
     (case dep of (found_key, is_negated) \<Rightarrow>
        let has_aggr = ruleset_has_aggr ruleset;
            is_meet = ruleset_is_meet ruleset;
            found_key_is_meet = bset_contains cmp_bytes found_key (meet_rules nf_prog) \<and> found_key \<noteq> k;
            found_key_is_fixed_rule = bset_contains cmp_bytes found_key (fixed_rules nf_prog)
        in case bmap_get cmp_bytes deps found_key of
             None \<Rightarrow>
               bmap_insert cmp_bytes found_key
                 (if has_aggr then (if is_meet \<and> k = found_key then found_key_is_fixed_rule \<or> is_negated else True)
                  else found_key_is_fixed_rule \<or> found_key_is_meet \<or> is_negated) deps
           | Some old \<Rightarrow>
               let new_val =
                 (if has_aggr
                  then (if is_meet \<and> k = found_key then found_key_is_fixed_rule \<or> found_key_is_meet \<or> is_negated else True)
                  else found_key_is_fixed_rule \<or> found_key_is_meet \<or> is_negated)
               in bmap_insert cmp_bytes found_key (old \<or> new_val) deps)"

definition rule_dependencies ::
  "('m, 'f) normal_form_program \<Rightarrow> symbol \<Rightarrow> ('m, 'f) normal_form_rules_or_fixed \<Rightarrow> (symbol, bool) btree" where
  "rule_dependencies nf_prog k ruleset =
     (case ruleset of
        Rules ruleset \<Rightarrow>
          fold (add_dependency nf_prog k ruleset) (concat (map contained_rules (concat (map nf_body ruleset)))) []
      | Fixed fixed \<Rightarrow>
          fold (\<lambda>rel ret. case rel of InMem name _ \<Rightarrow> bmap_insert cmp_bytes name True ret | _ \<Rightarrow> ret) (rule_args fixed) [])"

definition convert_normal_form_program_to_graph :: "('m, 'f) normal_form_program \<Rightarrow> symbol stratified_graph" where
  "convert_normal_form_program_to_graph nf_prog =
     map (\<lambda>(k, ruleset). (k, rule_dependencies nf_prog k ruleset)) (prog nf_prog)"

definition reduce_to_graph :: "'a stratified_graph \<Rightarrow> 'a graph" where
  "reduce_to_graph g = map (\<lambda>(k, s). (k, map fst s)) g"

section \<open>Strata\<close>

definition verify_no_cycle :: "symbol stratified_graph \<Rightarrow> symbol list list \<Rightarrow> bool" where
  "verify_no_cycle g sccs =
     list_all (\<lambda>(k, vs). list_all (\<lambda>scc. bset_contains cmp_bytes k scc \<longrightarrow>
         list_all (\<lambda>(v, negated). \<not> negated \<or> \<not> bset_contains cmp_bytes v scc) vs) sccs) g"

definition bmap_from_iter :: "('k \<Rightarrow> 'k \<Rightarrow> ordering) \<Rightarrow> ('k \<times> 'v) list \<Rightarrow> ('k, 'v) btree" where
  "bmap_from_iter cmp xs = fold (\<lambda>(k, v). bmap_insert cmp k v) xs []"

text \<open>The pairs of an element and the position of its group, as \<open>enumerate\<close> and \<open>flat_map\<close> give them.\<close>

definition positions :: "'a list list \<Rightarrow> ('a \<times> nat) list" where
  "positions groups = concat (map (\<lambda>(idx, group). map (\<lambda>k. (k, idx)) group) (enumerate 0 groups))"

definition scc_indices :: "symbol list list \<Rightarrow> (symbol, nat) btree" where
  "scc_indices sccs = bmap_from_iter cmp_bytes (positions sccs)"

definition reduced_edge ::
  "(symbol, nat) btree \<Rightarrow> nat \<Rightarrow> symbol \<times> bool \<Rightarrow> (nat, bool) btree \<Rightarrow> (nat, bool) btree" where
  "reduced_edge indices from_idx edge cur_entry =
     (case edge of (to, poisoned) \<Rightarrow>
        (case bmap_get cmp_bytes indices to of
           None \<Rightarrow> cur_entry
         | Some to_idx \<Rightarrow>
             if from_idx = to_idx then cur_entry
             else (case bmap_get cmp_ord cur_entry to_idx of
                     None \<Rightarrow> bmap_insert cmp_ord to_idx poisoned cur_entry
                   | Some old_p \<Rightarrow> bmap_insert cmp_ord to_idx (old_p \<or> poisoned) cur_entry)))"

text \<open>The unwrapping of the index of a source is \<open>None\<close> where it would panic.\<close>

definition reduced_node ::
  "(symbol, nat) btree \<Rightarrow> symbol \<times> (symbol, bool) btree \<Rightarrow> nat stratified_graph \<Rightarrow> nat stratified_graph option" where
  "reduced_node indices node reduced =
     (case node of (frm, tos) \<Rightarrow>
        (case bmap_get cmp_bytes indices frm of
           None \<Rightarrow> None
         | Some from_idx \<Rightarrow>
             let cur_entry = (case bmap_get cmp_ord reduced from_idx of Some e \<Rightarrow> e | None \<Rightarrow> [])
             in Some (bmap_insert cmp_ord from_idx (fold (reduced_edge indices from_idx) tos cur_entry) reduced)))"

definition make_scc_reduced_graph ::
  "symbol list list \<Rightarrow> symbol stratified_graph \<Rightarrow> ((symbol, nat) btree \<times> nat stratified_graph) option" where
  "make_scc_reduced_graph sccs graph =
     (let indices = scc_indices sccs in
      map_option (\<lambda>ret. (indices, ret))
        (fold (\<lambda>node ret. Option.bind ret (reduced_node indices node)) graph (Some [])))"

text \<open>The last stratum, counted from the query, in which a store is used.\<close>

definition add_lifetime :: "nat \<Rightarrow> symbol \<Rightarrow> (symbol, nat) btree \<Rightarrow> (symbol, nat) btree" where
  "add_lifetime used_in to lifetimes =
     (case bmap_get cmp_bytes lifetimes to of
        None \<Rightarrow> bmap_insert cmp_bytes to used_in lifetimes
      | Some existing \<Rightarrow> if existing < used_in then bmap_insert cmp_bytes to used_in lifetimes else lifetimes)"

definition store_lifetimes ::
  "nat \<Rightarrow> (symbol \<Rightarrow> nat option) \<Rightarrow> symbol stratified_graph \<Rightarrow> (symbol, nat) btree" where
  "store_lifetimes n_strata stratum graph =
     fold (\<lambda>(fr, tos) lifetimes.
         case stratum fr of
           None \<Rightarrow> lifetimes
         | Some fr_stratum \<Rightarrow> fold (\<lambda>(to, _). add_lifetime (n_strata - 1 - fr_stratum) to) tos lifetimes)
       graph []"

definition assign_stratum ::
  "(symbol \<Rightarrow> nat option) \<Rightarrow> symbol \<times> ('m, 'f) normal_form_rules_or_fixed \<Rightarrow>
   ('m, 'f) normal_form_program list \<Rightarrow> ('m, 'f) normal_form_program list" where
  "assign_stratum stratum entry strata =
     (case entry of (name, ruleset) \<Rightarrow>
        (case stratum name of
           None \<Rightarrow> strata
         | Some i \<Rightarrow> strata[i := (strata ! i)\<lparr>prog := bmap_insert cmp_bytes name ruleset (prog (strata ! i))\<rparr>]))"

datatype stratify_error = UnStratifiableProgram | StratifyPanic

definition into_stratified_program ::
  "('m, 'f) normal_form_program \<Rightarrow>
   stratify_error + ('m, 'f) normal_form_program list \<times> (symbol, nat) btree" where
  "into_stratified_program self =
     (let stratified_graph = convert_normal_form_program_to_graph self;
          graph = reduce_to_graph stratified_graph
      in
      and_then (ok_or (reachable_components cmp_bytes graph PROG_ENTRY) StratifyPanic) (\<lambda>reachable.
      let stratified_graph = filter (\<lambda>(k, _). bset_contains cmp_bytes k reachable) stratified_graph;
          graph = filter (\<lambda>(k, _). bset_contains cmp_bytes k reachable) graph
      in
      and_then (ok_or (strongly_connected_components cmp_bytes graph) StratifyPanic) (\<lambda>sccs.
      let sccs = map (bset_from_iter cmp_bytes) sccs in
      if \<not> verify_no_cycle stratified_graph sccs then Inl UnStratifiableProgram
      else
        and_then (ok_or (make_scc_reduced_graph sccs stratified_graph) StratifyPanic) (\<lambda>(invert_indices, reduced_graph).
        and_then (ok_or (generalized_kahn reduced_graph (length stratified_graph)) StratifyPanic) (\<lambda>sort_result.
        let n_strata = length sort_result;
            invert_sort_result = bmap_from_iter cmp_ord (positions sort_result);
            stratum = (\<lambda>name. Option.bind (bmap_get cmp_bytes invert_indices name) (bmap_get cmp_ord invert_sort_result));
            ret = replicate n_strata \<lparr>prog = [], disable_magic_rewrite = disable_magic_rewrite self\<rparr>
        in Inr (fold (assign_stratum stratum) (prog self) ret, store_lifetimes n_strata stratum stratified_graph)))))) "

section \<open>Maps built from lists\<close>

context linear_cmp
begin

lemma bmap_get_insert_eq: "bmap_get cmp (bmap_insert cmp k v m) z = (if z = k then Some v else bmap_get cmp m z)"
  by (simp add: bmap_get_insert cmp_Equal_iff)

lemma bmap_wf_fold:
  assumes "\<And>x m. bmap_wf cmp m \<Longrightarrow> bmap_wf cmp (f x m)" and "bmap_wf cmp m"
  shows "bmap_wf cmp (fold f xs m)"
  using assms(2) by (induction xs arbitrary: m) (simp_all add: assms(1))

lemma bmap_get_from_iter:
  assumes "\<And>k v w. (k, v) \<in> set xs \<Longrightarrow> (k, w) \<in> set xs \<Longrightarrow> v = w"
  shows "bmap_get cmp (bmap_from_iter cmp xs) k = Some v \<longleftrightarrow> (k, v) \<in> set xs"
proof -
  have "bmap_get cmp (fold (\<lambda>(k, v). bmap_insert cmp k v) xs m) k =
      (if \<exists>v. (k, v) \<in> set xs then Some (THE v. (k, v) \<in> set xs) else bmap_get cmp m k)" for m
    using assms
  proof (induction xs rule: rev_induct)
    case (snoc x xs)
    obtain k' v' where x: "x = (k', v')" by force
    have "(THE v. (k', v) \<in> set (xs @ [x])) = v'"
      using snoc.prems x by (intro the_equality) auto
    moreover have "(THE v. (k, v) \<in> set (xs @ [x])) = (THE v. (k, v) \<in> set xs)" if "k \<noteq> k'"
      using that x by simp
    moreover have "bmap_get cmp (fold (\<lambda>(k, v). bmap_insert cmp k v) xs m) k =
      (if \<exists>v. (k, v) \<in> set xs then Some (THE v. (k, v) \<in> set xs) else bmap_get cmp m k)"
    proof (rule snoc.IH)
      fix k v w
      assume "(k, v) \<in> set xs" "(k, w) \<in> set xs"
      then show "v = w" using snoc.prems [of k v w] by simp
    qed
    ultimately show ?case using x by (auto simp: bmap_get_insert_eq)
  qed simp
  note get = this [of "[]"]
  have "(THE v. (k, v) \<in> set xs) = w" if "(k, w) \<in> set xs" for w
    using that assms by (intro the_equality) auto
  then show ?thesis
    using assms by (auto simp: bmap_from_iter_def get)
qed

end

lemma set_positions: "set (positions groups) = {(x, i). i < length groups \<and> x \<in> set (groups ! i)}"
  by (force simp: positions_def in_set_enumerate_eq)

text \<open>Looking up the position of an element in disjoint groups.\<close>

definition disjoint_groups :: "'a list list \<Rightarrow> bool" where
  "disjoint_groups groups \<longleftrightarrow>
     (\<forall>i < length groups. \<forall>j < length groups. \<forall>x. x \<in> set (groups ! i) \<and> x \<in> set (groups ! j) \<longrightarrow> i = j)"

lemma positions_functional:
  "disjoint_groups groups \<Longrightarrow> (x, i) \<in> set (positions groups) \<Longrightarrow> (x, j) \<in> set (positions groups) \<Longrightarrow> i = j"
  by (auto simp: set_positions disjoint_groups_def)

lemma distinct_concat_disjoint: "distinct (concat groups) \<Longrightarrow> disjoint_groups groups"
proof (induction groups)
  case (Cons g groups)
  then have IH: "disjoint_groups groups" by simp
  have apart: "x \<notin> set (groups ! n)" if "n < length groups" "x \<in> set g" for n x
  proof -
    have "set g \<inter> \<Union> (set ` set groups) = {}" using Cons.prems by simp
    with that(2) nth_mem [OF that(1)] show ?thesis by blast
  qed
  show ?case
    unfolding disjoint_groups_def
  proof (intro allI impI, elim conjE)
    fix i j x
    assume "i < length (g # groups)" "j < length (g # groups)" "x \<in> set ((g # groups) ! i)" "x \<in> set ((g # groups) ! j)"
    then show "i = j"
      using IH apart
      by (cases i; cases j) (auto simp: disjoint_groups_def)
  qed
qed (simp add: disjoint_groups_def)

lemma disjoint_groups_map:
  assumes "disjoint_groups groups" and "\<And>g. set (f g) = set g"
  shows "disjoint_groups (map f groups)"
  using assms by (simp add: disjoint_groups_def)

section \<open>What the dependency graph holds\<close>

text \<open>The applications of rules in the bodies, with whether they are negated.\<close>

definition mentions :: "'m normal_form_inline_rule list \<Rightarrow> (symbol \<times> bool) list" where
  "mentions ruleset = concat (map contained_rules (concat (map nf_body ruleset)))"

text \<open>
  A dependency of rule \<open>u\<close> on rule \<open>v\<close> forbids recursion when it is negated or on a fixed rule, when \<open>u\<close>
  aggregates, except for a meet aggregation over itself, and when \<open>v\<close> is a meet aggregation other than \<open>u\<close>.
\<close>

definition forbids_recursion ::
  "('m, 'f) normal_form_program \<Rightarrow> symbol \<Rightarrow> 'm normal_form_inline_rule list \<Rightarrow> symbol \<Rightarrow> bool \<Rightarrow> bool" where
  "forbids_recursion p u ruleset v negated \<longleftrightarrow>
     negated \<or> v \<in> set (fixed_rules p) \<or>
     (if ruleset_has_aggr ruleset then \<not> (ruleset_is_meet ruleset \<and> u = v) else v \<in> set (meet_rules p) \<and> v \<noteq> u)"

definition depends :: "('m, 'f) normal_form_program \<Rightarrow> symbol \<Rightarrow> symbol \<Rightarrow> bool \<Rightarrow> bool" where
  "depends p u v strict =
     (case bmap_get cmp_bytes (prog p) u of
        None \<Rightarrow> False
      | Some (Rules ruleset) \<Rightarrow>
          (\<exists>negated. (v, negated) \<in> set (mentions ruleset)) \<and>
          strict = (\<exists>negated. (v, negated) \<in> set (mentions ruleset) \<and> forbids_recursion p u ruleset v negated)
      | Some (Fixed fixed) \<Rightarrow> strict \<and> (\<exists>bindings. InMem v bindings \<in> set (rule_args fixed)))"

lemma add_dependency_get:
  "bmap_get cmp_bytes (add_dependency p u rs (w, negated) m) v =
     (if v = w then Some (bmap_get cmp_bytes m v = Some True \<or> forbids_recursion p u rs v negated)
      else bmap_get cmp_bytes m v)"
  by (auto simp: add_dependency_def forbids_recursion_def Let_def bytes_ord.bmap_get_insert_eq bytes_ord.bset_contains_iff
      split: option.splits)

lemma add_dependencies_get:
  "bmap_get cmp_bytes (fold (add_dependency p u rs) xs m) v =
     (if \<exists>n. (v, n) \<in> set xs
      then Some (bmap_get cmp_bytes m v = Some True \<or> (\<exists>n. (v, n) \<in> set xs \<and> forbids_recursion p u rs v n))
      else bmap_get cmp_bytes m v)"
proof (induction xs arbitrary: m)
  case (Cons x xs)
  obtain w n where "x = (w, n)" by force
  with Cons.IH [of "add_dependency p u rs x m"] show ?case by (auto simp: add_dependency_get)
qed simp

lemma add_dependency_wf: "bmap_wf cmp_bytes m \<Longrightarrow> bmap_wf cmp_bytes (add_dependency p u rs dep m)"
  by (auto simp: add_dependency_def Let_def bytes_ord.bmap_wf_insert split: prod.splits option.splits)

lemma fixed_dependencies_get:
  "bmap_get cmp_bytes (fold (\<lambda>rel ret. case rel of InMem name _ \<Rightarrow> bmap_insert cmp_bytes name True ret | _ \<Rightarrow> ret) xs m) v =
     (if \<exists>bs. InMem v bs \<in> set xs then Some True else bmap_get cmp_bytes m v)"
  by (induction xs arbitrary: m) (auto simp: bytes_ord.bmap_get_insert_eq split: fixed_rule_arg.split)

lemma rule_dependencies_wf: "bmap_wf cmp_bytes (rule_dependencies p u rs)"
  by (auto simp: rule_dependencies_def bytes_ord.bmap_wf_insert add_dependency_wf intro!: bytes_ord.bmap_wf_fold
      split: normal_form_rules_or_fixed.split fixed_rule_arg.split)

lemma bmap_get_map: "bmap_get cmp (map (\<lambda>(k, v). (k, f k v)) m) k = map_option (f' k) (bmap_get cmp m k)"
  if "\<And>k' v. (k', v) \<in> set m \<Longrightarrow> cmp k k' = Equal \<Longrightarrow> f k' v = f' k v"
  using that by (induction m) auto

lemma graph_get:
  "bmap_get cmp_bytes (convert_normal_form_program_to_graph p) u =
     map_option (rule_dependencies p u) (bmap_get cmp_bytes (prog p) u)"
  unfolding convert_normal_form_program_to_graph_def
  by (rule bmap_get_map) (simp add: bytes_ord.cmp_Equal_iff)

lemma depends_graph:
  "depends p u v strict \<longleftrightarrow>
     (\<exists>tos. bmap_get cmp_bytes (convert_normal_form_program_to_graph p) u = Some tos \<and> bmap_get cmp_bytes tos v = Some strict)"
  by (auto simp: depends_def graph_get rule_dependencies_def mentions_def add_dependencies_get fixed_dependencies_get
      split: option.splits normal_form_rules_or_fixed.splits)

section \<open>The graph of components\<close>

lemma reduced_edge_get:
  "bmap_get cmp_ord (reduced_edge ind i (v, q) m) j =
     (if i \<noteq> j \<and> bmap_get cmp_bytes ind v = Some j then Some (bmap_get cmp_ord m j = Some True \<or> q)
      else bmap_get cmp_ord m j)"
  by (auto simp: reduced_edge_def ord.bmap_get_insert_eq split: option.splits)

lemma reduced_edges_get:
  "bmap_get cmp_ord (fold (reduced_edge ind i) tos m) j =
     (if i \<noteq> j \<and> (\<exists>v q. (v, q) \<in> set tos \<and> bmap_get cmp_bytes ind v = Some j)
      then Some (bmap_get cmp_ord m j = Some True \<or> (\<exists>v. (v, True) \<in> set tos \<and> bmap_get cmp_bytes ind v = Some j))
      else bmap_get cmp_ord m j)"
proof (induction tos arbitrary: m)
  case (Cons e tos)
  obtain v q where "e = (v, q)" by force
  with Cons.IH [of "reduced_edge ind i e m"] show ?case by (auto simp: reduced_edge_get)
qed simp

lemma reduced_edge_wf: "bmap_wf cmp_ord m \<Longrightarrow> bmap_wf cmp_ord (reduced_edge ind i e m)"
  by (auto simp: reduced_edge_def ord.bmap_wf_insert split: prod.splits option.splits)

text \<open>The edges of the handled part of the graph, between the components of their ends.\<close>

definition comp_edge :: "(symbol, nat) btree \<Rightarrow> symbol stratified_graph \<Rightarrow> nat \<Rightarrow> nat \<Rightarrow> bool \<Rightarrow> bool" where
  "comp_edge ind g i j q \<longleftrightarrow>
     (\<exists>u tos v. (u, tos) \<in> set g \<and> (v, q) \<in> set tos \<and> bmap_get cmp_bytes ind u = Some i \<and> bmap_get cmp_bytes ind v = Some j)"

definition reduced_ok :: "(symbol, nat) btree \<Rightarrow> symbol stratified_graph \<Rightarrow> nat stratified_graph \<Rightarrow> bool" where
  "reduced_ok ind g r \<longleftrightarrow>
     bmap_wf cmp_ord r \<and>
     (\<forall>i es. bmap_get cmp_ord r i = Some es \<longrightarrow> bmap_wf cmp_ord es \<and> (\<exists>u. bmap_get cmp_bytes ind u = Some i)) \<and>
     (\<forall>i j q. (\<exists>es. bmap_get cmp_ord r i = Some es \<and> bmap_get cmp_ord es j = Some q) \<longleftrightarrow>
        i \<noteq> j \<and> (\<exists>q. comp_edge ind g i j q) \<and> q = comp_edge ind g i j True)"

lemma comp_edge_snoc:
  "comp_edge ind (g @ [(u, tos)]) i j q \<longleftrightarrow>
     comp_edge ind g i j q \<or>
     (bmap_get cmp_bytes ind u = Some i \<and> (\<exists>v. (v, q) \<in> set tos \<and> bmap_get cmp_bytes ind v = Some j))"
  by (auto simp: comp_edge_def)

lemma reduced_node_ok:
  assumes ok: "reduced_ok ind g r" and ind: "bmap_get cmp_bytes ind u = Some i"
  shows "\<exists>r'. reduced_node ind (u, tos) r = Some r' \<and> reduced_ok ind (g @ [(u, tos)]) r'"
proof -
  define cur where "cur = (case bmap_get cmp_ord r i of Some e \<Rightarrow> e | None \<Rightarrow> [])"
  define new where "new = fold (reduced_edge ind i) tos cur"
  define r' where "r' = bmap_insert cmp_ord i new r"
  have node: "reduced_node ind (u, tos) r = Some r'"
    by (simp add: reduced_node_def ind cur_def new_def r'_def)
  have cur: "bmap_wf cmp_ord cur" using ok by (auto simp: reduced_ok_def cur_def split: option.split)
  then have wf: "bmap_wf cmp_ord new" unfolding new_def by (intro ord.bmap_wf_fold reduced_edge_wf)
  have get: "bmap_get cmp_ord r' k = (if k = i then Some new else bmap_get cmp_ord r k)" for k
    by (simp add: r'_def ord.bmap_get_insert_eq)
  have cur_get: "bmap_get cmp_ord cur j = Some q \<longleftrightarrow> i \<noteq> j \<and> (\<exists>q. comp_edge ind g i j q) \<and> q = comp_edge ind g i j True" for j q
  proof -
    have "(\<exists>es. bmap_get cmp_ord r i = Some es \<and> bmap_get cmp_ord es j = Some q) \<longleftrightarrow>
        i \<noteq> j \<and> (\<exists>q. comp_edge ind g i j q) \<and> q = comp_edge ind g i j True"
      using ok unfolding reduced_ok_def by blast
    then show ?thesis by (cases "bmap_get cmp_ord r i") (simp_all add: cur_def)
  qed
  define T where "T = (\<lambda>j q. \<exists>v. (v, q) \<in> set tos \<and> bmap_get cmp_bytes ind v = Some j)"
  have snoc: "comp_edge ind (g @ [(u, tos)]) i j q \<longleftrightarrow> comp_edge ind g i j q \<or> T j q" for j q
    by (simp add: comp_edge_snoc ind T_def)
  have edges: "bmap_get cmp_ord new j =
      (if i \<noteq> j \<and> (T j True \<or> T j False) then Some (bmap_get cmp_ord cur j = Some True \<or> T j True) else bmap_get cmp_ord cur j)" for j
    unfolding new_def reduced_edges_get T_def by (rule if_cong) (auto, metis (full_types))
  have new_get: "bmap_get cmp_ord new j = Some q \<longleftrightarrow>
      i \<noteq> j \<and> (\<exists>q. comp_edge ind (g @ [(u, tos)]) i j q) \<and> q = comp_edge ind (g @ [(u, tos)]) i j True" for j q
  proof -
    have ex: "(\<exists>q. comp_edge ind (g @ [(u, tos)]) i j q) \<longleftrightarrow> (\<exists>q. comp_edge ind g i j q) \<or> T j True \<or> T j False"
      unfolding snoc by (metis (full_types))
    have "comp_edge ind g i j True \<Longrightarrow> \<exists>q. comp_edge ind g i j q" by blast
    then show ?thesis unfolding ex snoc [of j True] edges by (cases "T j True"; cases "T j False") (simp_all add: cur_get, blast+)
  qed
  have other: "comp_edge ind (g @ [(u, tos)]) k j q = comp_edge ind g k j q" if "k \<noteq> i" for k j q
    using that ind by (auto simp: comp_edge_snoc)
  have "reduced_ok ind (g @ [(u, tos)]) r'"
    unfolding reduced_ok_def
  proof (intro conjI allI impI)
    show "bmap_wf cmp_ord r'" using ok by (simp add: r'_def reduced_ok_def ord.bmap_wf_insert)
  next
    fix k es
    assume "bmap_get cmp_ord r' k = Some es"
    then show "bmap_wf cmp_ord es" "\<exists>u. bmap_get cmp_bytes ind u = Some k"
      using ok wf ind by (auto simp: get reduced_ok_def split: if_splits)
  next
    fix k j q
    show "(\<exists>es. bmap_get cmp_ord r' k = Some es \<and> bmap_get cmp_ord es j = Some q) \<longleftrightarrow>
        k \<noteq> j \<and> (\<exists>q. comp_edge ind (g @ [(u, tos)]) k j q) \<and> q = comp_edge ind (g @ [(u, tos)]) k j True"
      using ok by (cases "k = i") (simp_all add: get new_get other reduced_ok_def)
  qed
  with node show ?thesis by blast
qed

lemma make_scc_reduced_graph_ok:
  assumes "\<And>u tos. (u, tos) \<in> set g \<Longrightarrow> \<exists>i. bmap_get cmp_bytes (scc_indices sccs) u = Some i"
  shows "\<exists>r. make_scc_reduced_graph sccs g = Some (scc_indices sccs, r) \<and> reduced_ok (scc_indices sccs) g r"
proof -
  let ?ind = "scc_indices sccs"
  have "\<exists>r'. fold (\<lambda>node ret. Option.bind ret (reduced_node ?ind node)) ys (Some r) = Some r' \<and> reduced_ok ?ind (xs @ ys) r'"
    if "reduced_ok ?ind xs r" "set ys \<subseteq> set g" for xs ys r
    using that
  proof (induction ys arbitrary: xs r)
    case (Cons y ys)
    obtain u tos where y: "y = (u, tos)" by force
    then obtain i where "bmap_get cmp_bytes ?ind u = Some i" using assms [of u tos] Cons.prems(2) by auto
    from reduced_node_ok [OF Cons.prems(1) this, of tos]
    obtain r' where r': "reduced_node ?ind y r = Some r'" "reduced_ok ?ind (xs @ [y]) r'" using y by blast
    from Cons.IH [OF r'(2)] Cons.prems(2) r'(1) show ?case by simp
  qed simp
  moreover have "reduced_ok ?ind [] []" by (simp add: reduced_ok_def comp_edge_def)
  ultimately obtain r' where "fold (\<lambda>node ret. Option.bind ret (reduced_node ?ind node)) g (Some []) = Some r'"
    "reduced_ok ?ind ([] @ g) r'" by blast
  then show ?thesis by (simp add: make_scc_reduced_graph_def)
qed

section \<open>The part the query reaches\<close>

text \<open>The rules the query reaches along dependencies, and the graph of them.\<close>

definition dep_rel :: "('m, 'f) normal_form_program \<Rightarrow> (symbol \<times> symbol) set" where
  "dep_rel p = {(u, v). \<exists>strict. depends p u v strict}"

definition reached :: "('m, 'f) normal_form_program \<Rightarrow> symbol \<Rightarrow> bool" where
  "reached p u \<longleftrightarrow> (PROG_ENTRY, u) \<in> (dep_rel p)\<^sup>*"

definition reached_graph :: "('m, 'f) normal_form_program \<Rightarrow> symbol stratified_graph" where
  "reached_graph p = filter (\<lambda>(k, _). reached p k) (convert_normal_form_program_to_graph p)"

lemma convert_wf: "bmap_wf cmp_bytes (prog p) \<Longrightarrow> bmap_wf cmp_bytes (convert_normal_form_program_to_graph p)"
  by (simp add: bmap_wf_def convert_normal_form_program_to_graph_def comp_def split_beta)

lemma reduce_get: "bmap_get cmp (reduce_to_graph g) u = map_option (map fst) (bmap_get cmp g u)"
  by (induction g) (auto simp: reduce_to_graph_def)

lemma reduce_wf: "bmap_wf cmp (reduce_to_graph g) = bmap_wf cmp g"
  by (simp add: bmap_wf_def reduce_to_graph_def comp_def split_beta)

lemma reduce_filter: "filter (\<lambda>(k, _). P k) (reduce_to_graph g) = reduce_to_graph (filter (\<lambda>(k, _). P k) g)"
  by (induction g) (auto simp: reduce_to_graph_def)

lemma bmap_get_filter_key:
  "bmap_get cmp_bytes (filter (\<lambda>(k, _). P k) m) u = (if P u then bmap_get cmp_bytes m u else None)"
  by (induction m) (auto simp: bytes_ord.cmp_Equal_iff)

lemma reached_graph_get:
  "bmap_get cmp_bytes (reached_graph p) u =
     (if reached p u then map_option (rule_dependencies p u) (bmap_get cmp_bytes (prog p) u) else None)"
  by (simp add: reached_graph_def bmap_get_filter_key graph_get)

lemma depends_Some:
  "depends p u v strict \<longleftrightarrow> (\<exists>rs. bmap_get cmp_bytes (prog p) u = Some rs \<and> (v, strict) \<in> set (rule_dependencies p u rs))"
  by (auto simp: depends_graph graph_get bytes_ord.bmap_get_Some_iff [OF rule_dependencies_wf])

lemma in_fst: "v \<in> fst ` set xs \<longleftrightarrow> (\<exists>b. (v, b) \<in> set xs)"
  by force

lemma edges_dep_rel: "graph_edges cmp_bytes (reduce_to_graph (convert_normal_form_program_to_graph p)) = dep_rel p"
  by (auto simp: graph_edges_def dep_rel_def depends_Some reduce_get graph_get in_fst)

lemma edges_reached: "graph_edges cmp_bytes (reduce_to_graph (reached_graph p)) = {(u, v) \<in> dep_rel p. reached p u}"
  by (auto simp: graph_edges_def dep_rel_def depends_Some reduce_get reached_graph_get in_fst split: if_splits) blast

lemma reached_step: "reached p u \<Longrightarrow> (u, v) \<in> (dep_rel p)\<^sup>* \<Longrightarrow> reached p v"
  unfolding reached_def by (rule rtrancl_trans)

lemma reached_paths:
  assumes "reached p u"
  shows "(u, v) \<in> (graph_edges cmp_bytes (reduce_to_graph (reached_graph p)))\<^sup>* \<longleftrightarrow> (u, v) \<in> (dep_rel p)\<^sup>*"
proof
  assume "(u, v) \<in> (dep_rel p)\<^sup>*"
  then show "(u, v) \<in> (graph_edges cmp_bytes (reduce_to_graph (reached_graph p)))\<^sup>*"
  proof (induction rule: rtrancl_induct)
    case (step w v)
    moreover have "reached p w" using assms step.hyps(1) by (rule reached_step)
    ultimately show ?case by (auto simp: edges_reached intro: rtrancl_into_rtrancl)
  qed simp
next
  show "(u, v) \<in> (graph_edges cmp_bytes (reduce_to_graph (reached_graph p)))\<^sup>* \<Longrightarrow> (u, v) \<in> (dep_rel p)\<^sup>*"
    by (rule rev_subsetD [OF _ rtrancl_mono]) (auto simp: edges_reached)
qed

lemma reached_graph_wf: "bmap_wf cmp_bytes (prog p) \<Longrightarrow> bmap_wf cmp_bytes (reached_graph p)"
  unfolding reached_graph_def by (intro bytes_ord.bmap_wf_filter convert_wf)

lemma reached_keys:
  assumes "bmap_wf cmp_bytes (prog p)"
  shows "u \<in> fst ` set (reached_graph p) \<longleftrightarrow> reached p u \<and> bmap_get cmp_bytes (prog p) u \<noteq> None"
  unfolding in_fst bytes_ord.bmap_get_Some_iff [OF reached_graph_wf [OF assms], symmetric] reached_graph_get by auto

section \<open>The components\<close>

text \<open>
  What the index of components says: exactly the reached rules that are defined have one, and two have
  the same if and only if each depends on the other.
\<close>

definition comps :: "('m, 'f) normal_form_program \<Rightarrow> (symbol \<Rightarrow> nat option) \<Rightarrow> bool" where
  "comps p ind \<longleftrightarrow>
     (\<forall>u i. ind u = Some i \<longrightarrow> i < length (reached_graph p)) \<and>
     (\<forall>u. ind u \<noteq> None \<longleftrightarrow> reached p u \<and> bmap_get cmp_bytes (prog p) u \<noteq> None) \<and>
     (\<forall>u v i j. ind u = Some i \<longrightarrow> ind v = Some j \<longrightarrow>
        (i = j \<longleftrightarrow> (u, v) \<in> (dep_rel p)\<^sup>* \<and> (v, u) \<in> (dep_rel p)\<^sup>*))"

lemma scc_indices_get:
  "disjoint_groups sccs \<Longrightarrow>
   bmap_get cmp_bytes (scc_indices sccs) u = Some i \<longleftrightarrow> i < length sccs \<and> u \<in> set (sccs ! i)"
  using bytes_ord.bmap_get_from_iter [of "positions sccs" u i] positions_functional [of sccs]
  by (auto simp: scc_indices_def set_positions)

lemma set_bset_from_iter: "set (bset_from_iter cmp_bytes xs) = set xs"
proof -
  have "set (fold (bset_insert cmp_bytes) xs ys) = set xs \<union> set ys" for ys
    by (induction xs arbitrary: ys) (auto simp: bytes_ord.set_bset_insert)
  then show ?thesis by (simp add: bset_from_iter_def bset_extend_def)
qed

lemma length_le_concat: "[] \<notin> set cs \<Longrightarrow> length cs \<le> length (concat cs)"
proof (induction cs)
  case (Cons c cs)
  then have "1 \<le> length c" by (cases c) auto
  with Cons show ?case by simp
qed simp

lemma components_ok:
  assumes wf: "bmap_wf cmp_bytes (prog p)"
  obtains cs where "strongly_connected_components cmp_bytes (reduce_to_graph (reached_graph p)) = Some cs"
    and "disjoint_groups (map (bset_from_iter cmp_bytes) cs)"
    and "comps p (bmap_get cmp_bytes (scc_indices (map (bset_from_iter cmp_bytes) cs)))"
proof -
  let ?g = "reduce_to_graph (reached_graph p)" and ?R = "dep_rel p"
  have gwf: "bmap_wf cmp_bytes ?g" using reached_graph_wf [OF wf] by (simp add: reduce_wf)
  have keys: "fst ` set ?g = fst ` set (reached_graph p)" by (auto simp: reduce_to_graph_def image_image split_beta)
  obtain cs where cs: "strongly_connected_components cmp_bytes ?g = Some cs" "distinct (concat cs)"
    "set (concat cs) = fst ` set ?g" "[] \<notin> set cs"
    "\<And>c u. c \<in> set cs \<Longrightarrow> u \<in> set c \<Longrightarrow>
      set c = {v \<in> fst ` set ?g. (u, v) \<in> (graph_edges cmp_bytes ?g)\<^sup>* \<and> (v, u) \<in> (graph_edges cmp_bytes ?g)\<^sup>*}"
    by (rule bytes_ord.strongly_connected_components_ok [OF gwf]) blast
  let ?sccs = "map (bset_from_iter cmp_bytes) cs"
  have dis: "disjoint_groups ?sccs"
    by (intro disjoint_groups_map distinct_concat_disjoint cs(2) set_bset_from_iter)
  note get = scc_indices_get [OF dis]
  have get: "bmap_get cmp_bytes (scc_indices ?sccs) u = Some i \<longleftrightarrow> i < length cs \<and> u \<in> set (cs ! i)" for u i
    by (auto simp: get set_bset_from_iter)
  have mem: "u \<in> set (concat cs) \<longleftrightarrow> reached p u \<and> bmap_get cmp_bytes (prog p) u \<noteq> None" for u
    unfolding cs(3) keys by (rule reached_keys [OF wf])
  have "length cs \<le> length (concat cs)" by (rule length_le_concat [OF cs(4)])
  also have "\<dots> = card (fst ` set ?g)" using distinct_card [OF cs(2)] cs(3) by simp
  also have "\<dots> \<le> length (reached_graph p)"
    unfolding keys by (metis card_length set_map length_map)
  finally have len: "length cs \<le> length (reached_graph p)" .
  have same: "i = j \<longleftrightarrow> (u, v) \<in> ?R\<^sup>* \<and> (v, u) \<in> ?R\<^sup>*"
    if ij: "i < length cs" "u \<in> set (cs ! i)" "j < length cs" "v \<in> set (cs ! j)" for u v i j
  proof -
    have "u \<in> set (concat cs)" "v \<in> set (concat cs)" using ij by auto
    then have r: "reached p u" "reached p v" "v \<in> fst ` set ?g" using mem cs(3) by auto
    have "v \<in> set (cs ! i) \<longleftrightarrow> (u, v) \<in> ?R\<^sup>* \<and> (v, u) \<in> ?R\<^sup>*"
      using cs(5) [OF nth_mem [OF ij(1)] ij(2)] r reached_paths [OF r(1)] reached_paths [OF r(2)] by auto
    moreover have "v \<in> set (cs ! i) \<longleftrightarrow> i = j"
      using distinct_concat_disjoint [OF cs(2)] ij by (auto simp: disjoint_groups_def)
    ultimately show ?thesis by blast
  qed
  have "comps p (bmap_get cmp_bytes (scc_indices ?sccs))"
    unfolding comps_def
  proof (intro conjI allI impI)
    fix u i
    assume "bmap_get cmp_bytes (scc_indices ?sccs) u = Some i"
    then show "i < length (reached_graph p)" using len by (simp add: get)
  next
    fix u
    have "bmap_get cmp_bytes (scc_indices ?sccs) u \<noteq> None \<longleftrightarrow> u \<in> set (concat cs)"
      by (simp add: get not_None_eq) (metis in_set_conv_nth)
    then show "bmap_get cmp_bytes (scc_indices ?sccs) u \<noteq> None \<longleftrightarrow> reached p u \<and> bmap_get cmp_bytes (prog p) u \<noteq> None"
      by (simp only: mem)
  qed (use same in \<open>simp add: get\<close>)
  with cs(1) dis show thesis by (rule that)
qed


lemma depends_closed:
  "depends p u v strict \<Longrightarrow> (v, u) \<in> (dep_rel p)\<^sup>* \<Longrightarrow> bmap_get cmp_bytes (prog p) v \<noteq> None"
proof (erule converse_rtranclE)
  show "depends p u v strict \<Longrightarrow> v = u \<Longrightarrow> bmap_get cmp_bytes (prog p) v \<noteq> None" by (auto simp: depends_Some)
qed (auto simp: dep_rel_def depends_Some)

lemma depends_rel: "depends p u v strict \<Longrightarrow> (u, v) \<in> (dep_rel p)\<^sup>*"
  by (auto simp: dep_rel_def)

text \<open>A dependency that forbids recursion closes a cycle among the reached rules.\<close>

definition forbidden_cycle :: "('m, 'f) normal_form_program \<Rightarrow> bool" where
  "forbidden_cycle p \<longleftrightarrow> (\<exists>u v. reached p u \<and> depends p u v True \<and> (v, u) \<in> (dep_rel p)\<^sup>*)"

lemma reached_graph_edge:
  assumes "bmap_wf cmp_bytes (prog p)"
  shows "(\<exists>tos. (u, tos) \<in> set (reached_graph p) \<and> (v, q) \<in> set tos) \<longleftrightarrow> reached p u \<and> depends p u v q"
  unfolding bytes_ord.bmap_get_Some_iff [OF reached_graph_wf [OF assms], symmetric] reached_graph_get depends_Some
  by auto

lemma verify_no_cycle_iff:
  assumes wf: "bmap_wf cmp_bytes (prog p)" and dis: "disjoint_groups sccs"
    and comps: "comps p (bmap_get cmp_bytes (scc_indices sccs))"
  shows "verify_no_cycle (reached_graph p) sccs \<longleftrightarrow> \<not> forbidden_cycle p"
proof -
  have "verify_no_cycle (reached_graph p) sccs \<longleftrightarrow>
      (\<forall>u v i. (\<exists>tos. (u, tos) \<in> set (reached_graph p) \<and> (v, True) \<in> set tos) \<longrightarrow>
        i < length sccs \<longrightarrow> u \<in> set (sccs ! i) \<longrightarrow> v \<notin> set (sccs ! i))"
    by (fastforce simp: verify_no_cycle_def list_all_iff bytes_ord.bset_contains_iff in_set_conv_nth [of _ sccs])
  also have "\<dots> \<longleftrightarrow> (\<forall>u v i. reached p u \<and> depends p u v True \<longrightarrow>
      bmap_get cmp_bytes (scc_indices sccs) u = Some i \<longrightarrow> bmap_get cmp_bytes (scc_indices sccs) v \<noteq> Some i)"
    unfolding reached_graph_edge [OF wf] scc_indices_get [OF dis] by blast
  also have "\<dots> \<longleftrightarrow> \<not> forbidden_cycle p"
  proof -
    have "(\<exists>i. bmap_get cmp_bytes (scc_indices sccs) u = Some i \<and> bmap_get cmp_bytes (scc_indices sccs) v = Some i) \<longleftrightarrow>
        (v, u) \<in> (dep_rel p)\<^sup>*" if "reached p u" "depends p u v True" for u v
    proof
      assume "(v, u) \<in> (dep_rel p)\<^sup>*"
      moreover have "(u, v) \<in> (dep_rel p)\<^sup>*" using that(2) by (rule depends_rel)
      moreover have "bmap_get cmp_bytes (prog p) u \<noteq> None" using that(2) by (auto simp: depends_Some)
      moreover have "bmap_get cmp_bytes (prog p) v \<noteq> None" using that(2) calculation(1) by (rule depends_closed)
      moreover have "reached p v" using that(1) calculation(2) by (rule reached_step)
      ultimately show "\<exists>i. bmap_get cmp_bytes (scc_indices sccs) u = Some i \<and> bmap_get cmp_bytes (scc_indices sccs) v = Some i"
        using comps that(1) unfolding comps_def by (metis option.exhaust)
    next
      show "\<exists>i. bmap_get cmp_bytes (scc_indices sccs) u = Some i \<and> bmap_get cmp_bytes (scc_indices sccs) v = Some i \<Longrightarrow>
          (v, u) \<in> (dep_rel p)\<^sup>*"
        using comps unfolding comps_def by blast
    qed
    then show ?thesis unfolding forbidden_cycle_def by blast
  qed
  finally show ?thesis .
qed

lemma comp_edge_depends:
  assumes "bmap_wf cmp_bytes (prog p)" and "comps p (bmap_get cmp_bytes ind)"
  shows "comp_edge ind (reached_graph p) i j q \<longleftrightarrow>
    (\<exists>u v. depends p u v q \<and> bmap_get cmp_bytes ind u = Some i \<and> bmap_get cmp_bytes ind v = Some j)"
proof -
  have "comp_edge ind (reached_graph p) i j q \<longleftrightarrow> (\<exists>u v. (\<exists>tos. (u, tos) \<in> set (reached_graph p) \<and> (v, q) \<in> set tos) \<and>
      bmap_get cmp_bytes ind u = Some i \<and> bmap_get cmp_bytes ind v = Some j)"
    unfolding comp_edge_def by blast
  also have "\<dots> \<longleftrightarrow> (\<exists>u v. depends p u v q \<and> bmap_get cmp_bytes ind u = Some i \<and> bmap_get cmp_bytes ind v = Some j)"
    unfolding reached_graph_edge [OF assms(1)] using assms(2) unfolding comps_def by (metis option.distinct(1))
  finally show ?thesis .
qed

lemma reduced_kahn_edge:
  assumes "reduced_ok ind g r"
  shows "kahn_edge r i j q \<longleftrightarrow> i \<noteq> j \<and> (\<exists>q. comp_edge ind g i j q) \<and> q = comp_edge ind g i j True"
proof -
  have wf: "bmap_wf cmp_ord r" "\<And>i es. bmap_get cmp_ord r i = Some es \<Longrightarrow> bmap_wf cmp_ord es"
    using assms by (auto simp: reduced_ok_def)
  have "kahn_edge r i j q \<longleftrightarrow> (\<exists>es. bmap_get cmp_ord r i = Some es \<and> bmap_get cmp_ord es j = Some q)"
    unfolding kahn_edge_def ord.bmap_get_Some_iff [OF wf(1), symmetric]
    using ord.bmap_get_Some_iff [OF wf(2)] by blast
  also have "\<dots> \<longleftrightarrow> i \<noteq> j \<and> (\<exists>q. comp_edge ind g i j q) \<and> q = comp_edge ind g i j True"
    using assms unfolding reduced_ok_def by blast
  finally show ?thesis .
qed

lemma reduced_kahn_wf:
  assumes ok: "reduced_ok ind g r" and ind: "\<And>u i. bmap_get cmp_bytes ind u = Some i \<Longrightarrow> i < n"
  shows "kahn_wf r n"
proof -
  have wf: "bmap_wf cmp_ord r" using ok by (simp add: reduced_ok_def)
  have "i < n" "distinct (map fst es)" if "(i, es) \<in> set r" for i es
  proof -
    have "bmap_get cmp_ord r i = Some es" using that by (simp add: ord.bmap_get_Some_iff [OF wf])
    then have "bmap_wf cmp_ord es" "\<exists>u. bmap_get cmp_bytes ind u = Some i" using ok by (auto simp: reduced_ok_def)
    with ind show "i < n" "distinct (map fst es)" by (auto intro: ord.bmap_wf_distinct)
  qed
  moreover have "j < n" if "(i, es) \<in> set r" "(j, q) \<in> set es" for i es j q
  proof -
    have "kahn_edge r i j q" using that by (auto simp: kahn_edge_def)
    then show ?thesis using ind by (auto simp: reduced_kahn_edge [OF ok] comp_edge_def)
  qed
  ultimately show ?thesis
    using ord.bmap_wf_distinct [OF wf] by (auto simp: kahn_wf_def)
qed

lemma reduced_acyclic:
  assumes wf: "bmap_wf cmp_bytes (prog p)" and comps: "comps p (bmap_get cmp_bytes ind)"
    and ok: "reduced_ok ind (reached_graph p) r"
  shows "acyclic {(i, j). \<exists>q. kahn_edge r i j q}"
proof (rule acyclicI, intro allI notI)
  let ?K = "{(i, j). \<exists>q. kahn_edge r i j q}" and ?ind = "bmap_get cmp_bytes ind"
  have edge: "\<exists>u v. ?ind u = Some i \<and> ?ind v = Some j \<and> (u, v) \<in> (dep_rel p)\<^sup>* \<and> i \<noteq> j" if "(i, j) \<in> ?K" for i j
    using that by (auto simp: reduced_kahn_edge [OF ok] comp_edge_depends [OF wf comps] dest: depends_rel)
  have same: "(u, v) \<in> (dep_rel p)\<^sup>*" if "?ind u = Some i" "?ind v = Some i" for u v i
    using comps that unfolding comps_def by blast
  have path: "(u, v) \<in> (dep_rel p)\<^sup>*" if "(i, j) \<in> ?K\<^sup>*" "?ind u = Some i" "?ind v = Some j" for u v i j
    using that
  proof (induction arbitrary: v rule: rtrancl_induct)
    case (step j k)
    obtain a b where ab: "?ind a = Some j" "?ind b = Some k" "(a, b) \<in> (dep_rel p)\<^sup>*" using edge [OF step.hyps(2)] by blast
    have "(u, a) \<in> (dep_rel p)\<^sup>*" using step.IH step.prems(1) ab(1) by blast
    also note ab(3)
    also have "(b, v) \<in> (dep_rel p)\<^sup>*" using same ab(2) step.prems(2) by blast
    finally show ?case .
  qed (rule same)
  fix i
  assume "(i, i) \<in> ?K\<^sup>+"
  then obtain j where j: "(i, j) \<in> ?K" "(j, i) \<in> ?K\<^sup>*" by (meson tranclD)
  obtain u v where uv: "?ind u = Some i" "?ind v = Some j" "(u, v) \<in> (dep_rel p)\<^sup>*" "i \<noteq> j" using edge [OF j(1)] by blast
  have "(v, u) \<in> (dep_rel p)\<^sup>*" using path [OF j(2) uv(2,1)] .
  with uv comps show False unfolding comps_def by blast
qed

section \<open>The strata\<close>

text \<open>
  A stratification of a program into \<open>n\<close> strata, listed from the query down: the reached rules that are
  defined have a stratum, no rule has an earlier one than a rule that depends on it, and over a dependency
  that forbids recursion it is a later one.
\<close>

definition stratification :: "('m, 'f) normal_form_program \<Rightarrow> nat \<Rightarrow> (symbol \<Rightarrow> nat option) \<Rightarrow> bool" where
  "stratification p n stratum \<longleftrightarrow>
     (\<forall>u. stratum u \<noteq> None \<longleftrightarrow> reached p u \<and> bmap_get cmp_bytes (prog p) u \<noteq> None) \<and>
     (\<forall>u i. stratum u = Some i \<longrightarrow> i < n) \<and>
     (\<forall>u v i j strict. depends p u v strict \<and> stratum u = Some i \<and> stratum v = Some j \<longrightarrow>
        (if strict then i < j else i \<le> j))"

lemma sort_positions_get:
  "distinct (concat strata) \<Longrightarrow>
   bmap_get cmp_ord (bmap_from_iter cmp_ord (positions strata)) k = Some i \<longleftrightarrow> i < length strata \<and> k \<in> set (strata ! i)"
  using ord.bmap_get_from_iter [of "positions strata" k i] positions_functional [OF distinct_concat_disjoint, of strata]
  by (auto simp: set_positions)

lemma strata_ok:
  assumes wf: "bmap_wf cmp_bytes (prog p)" and comps: "comps p (bmap_get cmp_bytes ind)"
    and ok: "reduced_ok ind (reached_graph p) r" and cyc: "\<not> forbidden_cycle p"
  obtains strata where "generalized_kahn r (length (reached_graph p)) = Some strata"
    and "stratification p (length strata)
      (\<lambda>name. Option.bind (bmap_get cmp_bytes ind name) (bmap_get cmp_ord (bmap_from_iter cmp_ord (positions strata))))"
proof -
  let ?n = "length (reached_graph p)" and ?ind = "bmap_get cmp_bytes ind"
  have "kahn_wf r ?n" by (rule reduced_kahn_wf [OF ok]) (use comps in \<open>auto simp: comps_def\<close>)
  then obtain strata where strata: "generalized_kahn r ?n = Some strata" "distinct (concat strata)"
    "\<forall>i < length strata. \<forall>v \<in> set (strata ! i). \<forall>u p. kahn_edge r u v p \<longrightarrow>
       (\<exists>j \<le> i. u \<in> set (strata ! j) \<and> (p \<longrightarrow> j < i))"
    "set (concat strata) = {..<?n}"
    using generalized_kahn_strata [of r ?n] reduced_acyclic [OF wf comps ok] by blast
  let ?inv = "bmap_get cmp_ord (bmap_from_iter cmp_ord (positions strata))"
  note get = sort_positions_get [OF strata(2)]
  have all: "\<exists>i. ?inv k = Some i" if "k < ?n" for k
  proof -
    have "k \<in> set (concat strata)" using that strata(4) by simp
    then show ?thesis by (simp add: get) (metis in_set_conv_nth)
  qed
  have edge: "if strict then i < j else i \<le> j"
    if dep: "depends p u v strict" and u: "?ind u = Some a" "?inv a = Some i" and v: "?ind v = Some b" "?inv b = Some j"
    for u v strict a b i j
  proof (cases "a = b")
    case True
    then have "(v, u) \<in> (dep_rel p)\<^sup>*" "reached p u" using comps u(1) v(1) unfolding comps_def by blast+
    with cyc dep have "\<not> strict" by (auto simp: forbidden_cycle_def)
    with True u(2) v(2) show ?thesis by simp
  next
    case False
    have "comp_edge ind (reached_graph p) a b strict"
      using dep u(1) v(1) by (auto simp: comp_edge_depends [OF wf comps])
    with False have "kahn_edge r a b (comp_edge ind (reached_graph p) a b True)"
      by (auto simp: reduced_kahn_edge [OF ok])
    moreover have "j < length strata" "b \<in> set (strata ! j)" using v(2) by (simp_all add: get)
    ultimately obtain k where k: "k \<le> j" "a \<in> set (strata ! k)" "comp_edge ind (reached_graph p) a b True \<longrightarrow> k < j"
      using strata(3) by blast
    then have "?inv a = Some k" using \<open>j < length strata\<close> by (simp add: get)
    with u(2) k \<open>comp_edge ind (reached_graph p) a b strict\<close> show ?thesis by auto
  qed
  have "stratification p (length strata) (\<lambda>name. Option.bind (?ind name) ?inv)"
    unfolding stratification_def
  proof (intro conjI allI impI)
    fix u
    have "Option.bind (?ind u) ?inv \<noteq> None \<longleftrightarrow> ?ind u \<noteq> None"
      using comps all by (cases "?ind u") (auto simp: comps_def)
    then show "Option.bind (?ind u) ?inv \<noteq> None \<longleftrightarrow> reached p u \<and> bmap_get cmp_bytes (prog p) u \<noteq> None"
      using comps by (simp add: comps_def)
  next
    fix u i
    assume "Option.bind (?ind u) ?inv = Some i"
    then show "i < length strata" by (auto simp: bind_eq_Some_conv get)
  next
    fix u v i j strict
    assume "depends p u v strict \<and> Option.bind (?ind u) ?inv = Some i \<and> Option.bind (?ind v) ?inv = Some j"
    then show "if strict then i < j else i \<le> j" using edge by (auto simp only: bind_eq_Some_conv)
  qed
  with strata(1) show thesis by (rule that)
qed

lemma assign_strata:
  "distinct (map fst xs) \<Longrightarrow> \<forall>u i. stratum u = Some i \<longrightarrow> i < length strata \<Longrightarrow>
   length (fold (assign_stratum stratum) xs strata) = length strata \<and>
   (\<forall>i < length strata. \<forall>u. bmap_get cmp_bytes (prog (fold (assign_stratum stratum) xs strata ! i)) u =
      (if stratum u = Some i \<and> bmap_get cmp_bytes xs u \<noteq> None then bmap_get cmp_bytes xs u
       else bmap_get cmp_bytes (prog (strata ! i)) u))"
proof (induction xs arbitrary: strata)
  case (Cons x xs)
  obtain name rs where x: "x = (name, rs)" by force
  let ?s = "assign_stratum stratum (name, rs) strata"
  have len: "length ?s = length strata" by (simp add: assign_stratum_def split: option.split)
  have get: "bmap_get cmp_bytes (prog (?s ! i)) u =
      (if stratum u = Some i \<and> u = name then Some rs else bmap_get cmp_bytes (prog (strata ! i)) u)" if "i < length strata" for i u
    using that Cons.prems(2)
    by (auto simp: assign_stratum_def bytes_ord.bmap_get_insert_eq nth_list_update split: option.split)
  have fresh: "bmap_get cmp_bytes xs name = None"
    using Cons.prems(1) x bmap_get_Some_in [of cmp_bytes xs name]
    by (cases "bmap_get cmp_bytes xs name") (force simp: bytes_ord.cmp_Equal_iff)+
  have "length (fold (assign_stratum stratum) xs ?s) = length ?s \<and>
   (\<forall>i < length ?s. \<forall>u. bmap_get cmp_bytes (prog (fold (assign_stratum stratum) xs ?s ! i)) u =
      (if stratum u = Some i \<and> bmap_get cmp_bytes xs u \<noteq> None then bmap_get cmp_bytes xs u
       else bmap_get cmp_bytes (prog (?s ! i)) u))"
    by (rule Cons.IH) (use Cons.prems len in simp_all)
  then show ?case using fresh by (auto simp: len get x bytes_ord.cmp_Equal_iff)
qed simp

section \<open>Lifetimes\<close>

lemma add_lifetime_get:
  "bmap_get cmp_bytes (add_lifetime a w m) v =
     (if v = w then Some (case bmap_get cmp_bytes m v of None \<Rightarrow> a | Some e \<Rightarrow> max e a) else bmap_get cmp_bytes m v)"
  by (auto simp: add_lifetime_def bytes_ord.bmap_get_insert_eq max_def split: option.split)

lemma Max_insert_max: "finite A \<Longrightarrow> Max (insert (max e a) A) = Max (insert a (insert e A))" for a e :: nat
  by (cases "A = {}") (auto simp: max.commute max.left_commute)

lemma add_lifetimes_get:
  "bmap_get cmp_bytes (fold (\<lambda>(a, to). add_lifetime a to) uses m) v =
     (let S = {a. (a, v) \<in> set uses} \<union> set_option (bmap_get cmp_bytes m v) in if S = {} then None else Some (Max S))"
proof (induction uses arbitrary: m)
  case (Cons x uses)
  obtain a w where x: "x = (a, w)" by force
  let ?A = "{a. (a, v) \<in> set uses}"
  have fin: "finite ?A" by (rule finite_subset [of _ "fst ` set uses"]) force+
  have set: "{b. (b, v) \<in> set (x # uses)} = (if v = w then insert a ?A else ?A)" by (auto simp: x)
  have "bmap_get cmp_bytes (fold (\<lambda>(a, to). add_lifetime a to) (x # uses) m) v =
     (let S = ?A \<union> set_option (bmap_get cmp_bytes (add_lifetime a w m) v) in if S = {} then None else Some (Max S))"
    using Cons.IH by (simp add: x)
  then show ?case
    unfolding set add_lifetime_get
    using fin by (cases "v = w"; cases "bmap_get cmp_bytes m v") (simp_all add: Let_def Max_insert_max insert_commute)
qed (auto simp: Let_def split: option.split)

lemma store_lifetimes_uses:
  "store_lifetimes n stratum g = fold (\<lambda>(a, to). add_lifetime a to)
     (concat (map (\<lambda>(fr, tos). case stratum fr of None \<Rightarrow> [] | Some i \<Rightarrow> map (\<lambda>(to, _). (n - 1 - i, to)) tos) g)) []"
proof -
  have tos: "fold (\<lambda>(to, _). add_lifetime a to) tos m = fold (\<lambda>(a, to). add_lifetime a to) (map (\<lambda>(to, _). (a, to)) tos) m"
    for a m and tos :: "(symbol \<times> bool) list"
    by (induction tos arbitrary: m) auto
  have "fold (\<lambda>(fr, tos) lifetimes.
         case stratum fr of
           None \<Rightarrow> lifetimes
         | Some fr_stratum \<Rightarrow> fold (\<lambda>(to, _). add_lifetime (n - 1 - fr_stratum) to) tos lifetimes) g m =
      fold (\<lambda>(a, to). add_lifetime a to)
     (concat (map (\<lambda>(fr, tos). case stratum fr of None \<Rightarrow> [] | Some i \<Rightarrow> map (\<lambda>(to, _). (n - 1 - i, to)) tos) g)) m" for m
    by (induction g arbitrary: m) (auto simp: tos split: option.split)
  then show ?thesis by (simp add: store_lifetimes_def)
qed

lemma store_lifetimes_get:
  assumes "bmap_wf cmp_bytes (prog p)" and "\<forall>u i. stratum u = Some i \<longrightarrow> reached p u"
  shows "bmap_get cmp_bytes (store_lifetimes n stratum (reached_graph p)) v =
    (let uses = {n - 1 - i | u i strict. depends p u v strict \<and> stratum u = Some i} in
     if uses = {} then None else Some (Max uses))"
proof -
  let ?uses = "concat (map (\<lambda>(fr, tos). case stratum fr of None \<Rightarrow> [] | Some i \<Rightarrow> map (\<lambda>(to, _). (n - 1 - i, to)) tos)
    (reached_graph p))"
  have "(a, v) \<in> set ?uses \<longleftrightarrow> (\<exists>u i strict. (\<exists>tos. (u, tos) \<in> set (reached_graph p) \<and> (v, strict) \<in> set tos) \<and>
      stratum u = Some i \<and> a = n - 1 - i)" for a
    by (force split: option.splits)
  then have "{a. (a, v) \<in> set ?uses} = {n - 1 - i | u i strict. depends p u v strict \<and> stratum u = Some i}"
    unfolding reached_graph_edge [OF assms(1)] using assms(2) by blast
  then show ?thesis
    unfolding store_lifetimes_uses add_lifetimes_get by simp
qed

section \<open>Properties\<close>

lemma reachable_reached:
  obtains c where "reachable_components cmp_bytes (reduce_to_graph (convert_normal_form_program_to_graph p)) PROG_ENTRY = Some c"
    and "\<And>k. bset_contains cmp_bytes k c \<longleftrightarrow> reached p k"
  using bytes_ord.reachable_components_closure [of "reduce_to_graph (convert_normal_form_program_to_graph p)" PROG_ENTRY]
  by (auto simp: edges_dep_rel reached_def bytes_ord.bset_contains_iff)

text \<open>What remains to be done once the graph of the reached rules and its components are known.\<close>

definition stratify_components ::
  "('m, 'f) normal_form_program \<Rightarrow> symbol list list \<Rightarrow>
   stratify_error + ('m, 'f) normal_form_program list \<times> (symbol, nat) btree" where
  "stratify_components p sccs =
     (if \<not> verify_no_cycle (reached_graph p) sccs then Inl UnStratifiableProgram
      else
        and_then (ok_or (make_scc_reduced_graph sccs (reached_graph p)) StratifyPanic) (\<lambda>(invert_indices, reduced_graph).
        and_then (ok_or (generalized_kahn reduced_graph (length (reached_graph p))) StratifyPanic) (\<lambda>sort_result.
        let n_strata = length sort_result;
            invert_sort_result = bmap_from_iter cmp_ord (positions sort_result);
            stratum = (\<lambda>name. Option.bind (bmap_get cmp_bytes invert_indices name) (bmap_get cmp_ord invert_sort_result));
            ret = replicate n_strata \<lparr>prog = [], disable_magic_rewrite = disable_magic_rewrite p\<rparr>
        in Inr (fold (assign_stratum stratum) (prog p) ret, store_lifetimes n_strata stratum (reached_graph p)))))"

lemma into_stratified_components:
  assumes "bmap_wf cmp_bytes (prog p)"
  obtains sccs where "into_stratified_program p = stratify_components p sccs" and "disjoint_groups sccs"
    and "comps p (bmap_get cmp_bytes (scc_indices sccs))"
proof -
  obtain c where c: "reachable_components cmp_bytes (reduce_to_graph (convert_normal_form_program_to_graph p)) PROG_ENTRY = Some c"
    "\<And>k. bset_contains cmp_bytes k c \<longleftrightarrow> reached p k" by (rule reachable_reached) blast
  obtain cs where cs: "strongly_connected_components cmp_bytes (reduce_to_graph (reached_graph p)) = Some cs"
    "disjoint_groups (map (bset_from_iter cmp_bytes) cs)"
    "comps p (bmap_get cmp_bytes (scc_indices (map (bset_from_iter cmp_bytes) cs)))"
    by (rule components_ok [OF assms]) blast
  have "into_stratified_program p = stratify_components p (map (bset_from_iter cmp_bytes) cs)"
    unfolding into_stratified_program_def stratify_components_def Let_def c(1) ok_or_def option.case and_then_simps c(2)
      reduce_filter reached_graph_def [symmetric] cs(1) ..
  then show thesis using cs(2,3) by (rule that)
qed

lemma stratify_components_runs:
  fixes p :: "('m, 'f) normal_form_program"
  assumes wf: "bmap_wf cmp_bytes (prog p)" and dis: "disjoint_groups sccs"
    and comps: "comps p (bmap_get cmp_bytes (scc_indices sccs))" and cyc: "\<not> forbidden_cycle p"
  obtains n stratum where "stratification p n stratum" and "stratify_components p sccs =
    Inr (fold (assign_stratum stratum) (prog p) (replicate n \<lparr>prog = [], disable_magic_rewrite = disable_magic_rewrite p\<rparr>),
      store_lifetimes n stratum (reached_graph p))"
proof -
  let ?ind = "scc_indices sccs"
  have "\<exists>i. bmap_get cmp_bytes ?ind u = Some i" if "(u, tos) \<in> set (reached_graph p)" for u tos
  proof -
    have "u \<in> fst ` set (reached_graph p)" using that by force
    then show ?thesis using comps reached_keys [OF wf] by (auto simp: comps_def)
  qed
  then obtain r where r: "make_scc_reduced_graph sccs (reached_graph p) = Some (?ind, r)" "reduced_ok ?ind (reached_graph p) r"
    using make_scc_reduced_graph_ok by blast
  obtain sorted where sorted: "generalized_kahn r (length (reached_graph p)) = Some sorted"
    and strat: "stratification p (length sorted)
      (\<lambda>name. Option.bind (bmap_get cmp_bytes ?ind name) (bmap_get cmp_ord (bmap_from_iter cmp_ord (positions sorted))))"
    by (rule strata_ok [OF wf comps r(2) cyc]) blast
  from strat show thesis
  proof (rule that)
    show "stratify_components p sccs = Inr (fold (assign_stratum
        (\<lambda>name. Option.bind (bmap_get cmp_bytes ?ind name) (bmap_get cmp_ord (bmap_from_iter cmp_ord (positions sorted)))))
        (prog p) (replicate (length sorted) \<lparr>prog = [], disable_magic_rewrite = disable_magic_rewrite p\<rparr>),
      store_lifetimes (length sorted)
        (\<lambda>name. Option.bind (bmap_get cmp_bytes ?ind name) (bmap_get cmp_ord (bmap_from_iter cmp_ord (positions sorted))))
        (reached_graph p))"
      using cyc by (simp add: stratify_components_def verify_no_cycle_iff [OF wf dis comps] r(1) sorted Let_def)
  qed
qed

text \<open>
  C10: Stratification is correct. Take any program whose rules are kept in an ordered map. The conversion
  fails exactly when some rule the query reaches depends on another through negation, an aggregation or a
  fixed rule (see \<open>forbids_recursion\<close>) and lies on a cycle with it; it never panics. Otherwise each reached rule
  that is defined is put, with its whole rule set, into exactly one stratum and nothing else is: a rule comes
  in the same or an earlier stratum than every rule it depends on, strictly earlier over a dependency that
  forbids recursion (strata are listed from the query down). The lifetime of a store is the number of the last
  stratum, counted from the other end, in which some rule uses it.
\<close>

theorem into_stratified_program_correct:
  assumes "bmap_wf cmp_bytes (prog p)"
  shows "case into_stratified_program p of
      Inl e \<Rightarrow> e = UnStratifiableProgram \<and> forbidden_cycle p
    | Inr (strata, lifetimes) \<Rightarrow> \<not> forbidden_cycle p \<and>
        (\<exists>stratum. stratification p (length strata) stratum \<and>
          (\<forall>i < length strata. \<forall>u. bmap_get cmp_bytes (prog (strata ! i)) u =
             (if stratum u = Some i then bmap_get cmp_bytes (prog p) u else None)) \<and>
          (\<forall>v. bmap_get cmp_bytes lifetimes v =
             (let uses = {length strata - 1 - i | u i strict. depends p u v strict \<and> stratum u = Some i} in
              if uses = {} then None else Some (Max uses))))"
proof -
  obtain sccs where sccs: "into_stratified_program p = stratify_components p sccs" "disjoint_groups sccs"
    "comps p (bmap_get cmp_bytes (scc_indices sccs))"
    by (rule into_stratified_components [OF assms]) blast
  show ?thesis
  proof (cases "forbidden_cycle p")
    case True
    then show ?thesis by (simp add: sccs(1) stratify_components_def verify_no_cycle_iff [OF assms sccs(2,3)])
  next
    case False
    then obtain n stratum where strat: "stratification p n stratum" and run: "stratify_components p sccs =
      Inr (fold (assign_stratum stratum) (prog p) (replicate n \<lparr>prog = [], disable_magic_rewrite = disable_magic_rewrite p\<rparr>),
        store_lifetimes n stratum (reached_graph p))"
      by (rule stratify_components_runs [OF assms sccs(2,3)]) blast
    let ?strata = "fold (assign_stratum stratum) (prog p)
      (replicate n \<lparr>prog = [], disable_magic_rewrite = disable_magic_rewrite p\<rparr>)"
    have "distinct (map fst (prog p))" using bytes_ord.bmap_wf_distinct [OF assms] .
    then have assign: "length ?strata = n" "\<forall>i < n. \<forall>u. bmap_get cmp_bytes (prog (?strata ! i)) u =
        (if stratum u = Some i then bmap_get cmp_bytes (prog p) u else None)"
      using assign_strata [of "prog p" stratum "replicate n \<lparr>prog = [], disable_magic_rewrite = disable_magic_rewrite p\<rparr>"] strat
      by (auto simp: stratification_def)
    have "\<forall>u i. stratum u = Some i \<longrightarrow> reached p u" using strat by (auto simp: stratification_def)
    from store_lifetimes_get [where stratum = stratum, OF assms this]
    have life: "\<forall>v. bmap_get cmp_bytes (store_lifetimes n stratum (reached_graph p)) v =
      (let uses = {n - 1 - i | u i strict. depends p u v strict \<and> stratum u = Some i} in
       if uses = {} then None else Some (Max uses))" by blast
    show ?thesis
      unfolding sccs(1) run sum.case prod.case assign(1)
      by (intro conjI exI [of _ stratum] False strat assign(2) life)
  qed
qed

theorem into_stratified_program_correct_witness:
  "let entry = (\<lambda>body. \<lparr>prog = [(PROG_ENTRY, Rules [\<lparr>nf_head = [], nf_aggr = [], nf_body = body\<rparr>] ::
        (unit, unit) normal_form_rules_or_fixed)], disable_magic_rewrite = False\<rparr>) in
   into_stratified_program (entry [NegatedRule \<lparr>nr_name = PROG_ENTRY, nr_args = []\<rparr>]) = Inl UnStratifiableProgram \<and>
   (\<exists>strata lifetimes. into_stratified_program (entry [Rule \<lparr>nr_name = PROG_ENTRY, nr_args = []\<rparr>]) = Inr (strata, lifetimes))"
proof -
  let ?entry = "\<lambda>body. \<lparr>prog = [(PROG_ENTRY, Rules [\<lparr>nf_head = [], nf_aggr = [], nf_body = body\<rparr>] ::
        (unit, unit) normal_form_rules_or_fixed)], disable_magic_rewrite = False\<rparr>"
  let ?bad = "?entry [NegatedRule \<lparr>nr_name = PROG_ENTRY, nr_args = []\<rparr>]"
  let ?good = "?entry [Rule \<lparr>nr_name = PROG_ENTRY, nr_args = []\<rparr>]"
  note dep = depends_def mentions_def contained_rules_def forbids_recursion_def bytes_ord.cmp_refl fixed_rules_def
    meet_rules_def ruleset_has_aggr_def ruleset_is_meet_def
  have "depends ?bad PROG_ENTRY PROG_ENTRY True" by (auto simp: dep)
  then have bad: "forbidden_cycle ?bad" by (auto simp: forbidden_cycle_def reached_def)
  have "\<not> depends ?good u v True" for u v by (auto simp: dep)
  then have good: "\<not> forbidden_cycle ?good" by (auto simp: forbidden_cycle_def)
  have "bmap_wf cmp_bytes (prog (?entry body))" for body by (simp add: bmap_wf_def bset_wf_def)
  from into_stratified_program_correct [OF this] into_stratified_program_correct [OF this] bad good show ?thesis
    unfolding Let_def by (fastforce split: sum.splits prod.splits)
qed

end
