(* ===== verification/Bounds.thy ===== *)
theory Bounds
  imports Expr
begin

text \<open>
  The bounds that \<open>compute_bounds\<close> (\<open>retia-core/src/data/expr.rs\<close>) derives from filters, which limit a scan of
  a stored relation: a row that passes the filters lies within them. The code turns a lower bound into an
  integer and an upper bound into a float where it can; the theorem names the values for which that is
  sound, and a second one shows rows that are lost otherwise.
\<close>

section \<open>Integers as floats\<close>

lemma i64_key_not_minus_one: "i64_key i \<noteq> - 1"
proof -
  have "f64_magnitude 0 0 < f64_magnitude (nat (- sint i)) 0" if "sint i < 0"
    using that nat_sint_bound [of i] by (intro f64_magnitude_strict) auto
  then show ?thesis by (auto simp: i64_key_eq)
qed

lemma f64_total_key_SIGN_MARK: "sint (f64_total_key b) = - 1 \<longleftrightarrow> b = SIGN_MARK"
proof -
  have "sint (f64_total_key SIGN_MARK) = - 1" by (simp add: sint_f64_total_key SIGN_MARK_def)
  then show ?thesis using f64_total_key_inj [of b SIGN_MARK] by simp
qed

lemma ieee_key_eq_total:
  assumes "b \<noteq> SIGN_MARK"
  shows "f64_ieee_key b = sint (f64_total_key b)"
  using zero_total_key [of b] f64_total_key_SIGN_MARK [of b] assms by (auto simp: f64_ieee_key_def)

lemma total_le_ieee_key: "sint (f64_total_key b) \<le> f64_ieee_key b"
  using zero_total_key [of b] by (auto simp: f64_ieee_key_def)

lemma i64_as_f64_not_SIGN_MARK: "i64_as_f64 i \<noteq> SIGN_MARK"
  using i64_key_not_minus_one [of i] f64_total_key_SIGN_MARK [of "i64_as_f64 i"] by (auto simp: i64_key_def)

lemma i64_ieee_key: "f64_ieee_key (i64_as_f64 i) = i64_key i"
  by (simp add: ieee_key_eq_total i64_as_f64_not_SIGN_MARK i64_key_def)

lemma f64_of_dyadic_not_nan: "\<not> f64_is_nan (f64_of_dyadic s m x)"
proof -
  define g where "g = f64_magnitude m x"
  have g: "g \<le> 2047 * 2 ^ 52" unfolding g_def by (rule f64_magnitude_bound)
  have "g = (g div 2 ^ 52) * 2 ^ 52 + g mod 2 ^ 52" by simp
  moreover have "g div 2 ^ 52 < 2048" using g by (simp add: less_mult_imp_div_less)
  ultimately have fields: "f64_exp (f64_of_dyadic s m x) = g div 2 ^ 52" "f64_frac (f64_of_dyadic s m x) = g mod 2 ^ 52"
    using f64_fields_of_dyadic [of m x "g div 2 ^ 52" "g mod 2 ^ 52" s] by (simp_all add: g_def)
  show ?thesis
  proof
    assume "f64_is_nan (f64_of_dyadic s m x)"
    then have nan: "g div 2 ^ 52 = 2047" "g mod 2 ^ 52 \<noteq> 0" by (simp_all add: f64_is_nan_def fields)
    from div_mult_mod_eq [of g "2 ^ 52"] have "2047 * 2 ^ 52 + g mod 2 ^ 52 = g" unfolding nan(1) .
    with g nan(2) show False by linarith
  qed
qed

lemma i64_as_f64_not_nan: "\<not> f64_is_nan (i64_as_f64 i)"
  by (simp add: i64_as_f64_def f64_of_dyadic_not_nan)

text \<open>An integer converted to a float is integral.\<close>

lemma f64_exp_large_int:
  assumes "2 ^ 53 \<le> n" and "n < 2 ^ 64"
  shows "1076 \<le> f64_exp (f64_of_dyadic s n 0)"
proof -
  let ?l = "bit_len n" and ?q = "rne_shift n (53 - int (bit_len n))"
  have n: "0 < n" using assms(1) by (rule less_le_trans [rotated]) simp
  have "\<not> ?l \<le> 53"
  proof
    assume "?l \<le> 53"
    then have "(2 :: nat) ^ ?l \<le> 2 ^ 53" by (intro power_increasing) auto
    with bit_len_upper [OF n] assms(1) show False by linarith
  qed
  moreover have "?l \<le> 64" using bit_len_le [OF n assms(2)] .
  ultimately have l: "54 \<le> ?l" "?l \<le> 64" by auto
  define g where "g = f64_magnitude n 0"
  have "g = (?l + 1021) * 2 ^ 52 + ?q" unfolding g_def by (rule f64_magnitude_int [OF n assms(2)])
  then have lo: "1076 * 2 ^ 52 \<le> g" and hi: "g < 2048 * 2 ^ 52"
    using rne_shift_norm [OF n] l by auto
  have "g div 2 ^ 52 < 2048" using hi by (simp add: less_mult_imp_div_less)
  moreover have "1076 \<le> g div 2 ^ 52" using div_le_mono [OF lo, of "2 ^ 52"] by simp
  moreover have "f64_magnitude n 0 = (g div 2 ^ 52) * 2 ^ 52 + g mod 2 ^ 52" by (simp add: g_def)
  ultimately show ?thesis using f64_fields_of_dyadic(1) [of n 0 "g div 2 ^ 52" "g mod 2 ^ 52" s] by simp
qed

lemma f64_round_int:
  assumes "n < 2 ^ 64"
  shows "f64_round (f64_of_dyadic s n 0) = f64_of_dyadic s n 0"
proof (cases "n < 2 ^ 53")
  case True
  note f = f64_of_small_int [OF True, of s]
  show ?thesis
  proof (cases "n = 0")
    case False
    define d where "d = 53 - bit_len n"
    have len: "bit_len n \<le> 53" using bit_len_le [OF _ True] False by simp
    show ?thesis
    proof (cases "d = 0")
      case zero: True
      then have "bit_len n = 53" using len by (simp add: d_def)
      then show ?thesis using f False by (simp add: f64_round_def f64_is_finite_def)
    next
      case pos: False
      then have x: "int (bit_len n) - 53 < 0" "nat (- (int (bit_len n) - 53)) = d" using len by (auto simp: d_def)
      have "(2 :: nat) ^ (d - 1) < 2 ^ d" using pos by simp
      then have "(n * 2 ^ d + 2 ^ (d - 1)) div 2 ^ d = n" by (simp add: div_add1_eq)
      then show ?thesis using f False x by (simp add: f64_round_def f64_is_finite_def d_def [symmetric])
    qed
  qed (use f in \<open>simp add: f64_round_def f64_is_finite_def\<close>)
next
  case False
  then have "1076 \<le> f64_exp (f64_of_dyadic s n 0)" using f64_exp_large_int assms by simp
  then show ?thesis by (simp add: f64_round_def f64_dyadic_def)
qed

lemma int_float_integral: "num_get_int (FloatN (i64_as_f64 i)) \<noteq> None"
  using f64_round_int [of "nat \<bar>sint i\<bar>" "sint i < 0"] nat_sint_bound [of i] i64_as_f64_not_nan [of i]
  by (simp add: num_get_int_def f64_eq_def flip: i64_as_f64_def)

text \<open>Conversely, an integral float of small magnitude is the conversion of the integer the code makes of it.\<close>

lemma small_int_roundtrip:
  assumes "q < 2 ^ 53" and "f64_of_dyadic s q 0 \<noteq> SIGN_MARK"
  shows "i64_as_f64 (f64_as_i64 (f64_of_dyadic s q 0)) = f64_of_dyadic s q 0"
proof -
  define v where "v = (if s then - int q else int q)"
  define i where "i = (word_of_int v :: i64)"
  have "int q < 2 ^ 53" using assms(1) by (metis of_nat_less_iff of_nat_numeral of_nat_power)
  then have i: "sint i = v" "\<bar>sint i\<bar> < 2 ^ 53"
    unfolding i_def v_def by (auto simp: sint_word_of_int_64)
  have "q \<noteq> 0 \<or> \<not> s"
    using assms(2) by (auto simp: f64_of_dyadic_def f64_zero_def f64_magnitude_def)
  then have "i64_as_f64 i = f64_of_dyadic s q 0"
    by (auto simp: i64_as_f64_def i(1) v_def)
  with f64_as_i64_of_exact [OF i(2)] show ?thesis by metis
qed

lemma f64_as_i64_saturates:
  assumes "f64_is_infinite f \<or> (f64_is_finite f \<and> (case f64_dyadic f of (m, x) \<Rightarrow> 2 ^ 53 \<le> dyadic_trunc m x))"
  shows "\<not> \<bar>sint (f64_as_i64 f)\<bar> < 2 ^ 53"
proof (cases "f64_is_infinite f")
  case True
  then have "\<not> f64_is_nan f" by (simp add: f64_is_nan_def f64_is_infinite_def)
  with True show ?thesis by (simp add: f64_as_i64_def)
next
  case False
  define t where "t = (case f64_dyadic f of (m, x) \<Rightarrow> dyadic_trunc m x)"
  define v where "v = (if f64_sign f then - int t else int t)"
  have "2 ^ 53 \<le> t" "f64_is_finite f" using assms False by (auto simp: t_def split: prod.splits)
  then have t: "2 ^ 53 \<le> int t" by (metis of_nat_le_iff of_nat_numeral of_nat_power)
  have "f64_as_i64 f = word_of_int (max (- (2 ^ 63)) (min (2 ^ 63 - 1) v))"
    using False \<open>f64_is_finite f\<close>
    by (simp add: f64_as_i64_def f64_is_nan_def f64_is_finite_def t_def v_def Let_def)
  then have "sint (f64_as_i64 f) = max (- (2 ^ 63)) (min (2 ^ 63 - 1) v)"
    by (simp add: sint_word_of_int_64)
  then show ?thesis using t by (auto simp: v_def)
qed

lemma f64_dyadic_exact_mantissa:
  assumes "f64_exp f = 1075"
  shows "f64_of_dyadic (f64_sign f) (f64_frac f + 2 ^ 52) 0 = f"
proof -
  define m where "m = f64_frac f + 2 ^ 52"
  have frac: "f64_frac f < 2 ^ 52" by (simp add: f64_frac_def)
  have m: "2 ^ 52 \<le> m" "m < 2 ^ 53" using frac by (simp_all add: m_def)
  then have pos: "0 < m" by (simp add: m_def)
  have "bit_len m \<le> 53" using bit_len_le [OF pos m(2)] .
  moreover have "\<not> bit_len m \<le> 52"
  proof
    assume "bit_len m \<le> 52"
    then have "(2 :: nat) ^ bit_len m \<le> 2 ^ 52" by (intro power_increasing) auto
    with bit_len_upper [OF pos] m(1) show False by linarith
  qed
  ultimately have "bit_len m = 53" by simp
  then have mag: "f64_magnitude m 0 = 1075 * 2 ^ 52 + f64_frac f"
    using f64_magnitude_int [OF pos] m(2) rne_shift_exact [OF pos m(2)] by (simp add: m_def)
  define q where "q = unat f div 2 ^ 52"
  have u: "unat f = q * 2 ^ 52 + f64_frac f" by (simp add: q_def f64_frac_def)
  have "q mod 2048 = 1075" using assms by (simp add: f64_exp_def q_def)
  moreover have "q < 4096" unfolding q_def using unat_64 [of f] by (simp add: less_mult_imp_div_less)
  moreover have "q = q div 2048 * 2048 + q mod 2048" by simp
  moreover have "q div 2048 < 2" using \<open>q < 4096\<close> by (simp add: less_mult_imp_div_less)
  then have "q div 2048 = 0 \<or> q div 2048 = 1" by linarith
  ultimately have "q = 1075 \<or> q = 3123" by (elim disjE) simp_all
  moreover have "f64_sign f \<longleftrightarrow> 9223372036854775808 \<le> unat f" unfolding f64_sign_def by (rule bit_63_iff)
  ultimately have "unat f = (if f64_sign f then 9223372036854775808 else 0) + (1075 * 2 ^ 52 + f64_frac f)"
    using u frac by auto
  then have "unat (f64_of_dyadic (f64_sign f) m 0) = unat f" by (simp add: unat_f64_of_dyadic mag)
  then show ?thesis unfolding m_def by (simp only: word_unat_eq_iff)
qed

lemma integral_small_roundtrip:
  assumes "num_get_int (FloatN f) = Some i" and "f \<noteq> SIGN_MARK" and "\<bar>sint i\<bar> < 2 ^ 53"
  shows "i64_as_f64 i = f"
proof -
  have eq: "f64_eq (f64_round f) f" and i: "i = f64_as_i64 f"
    using assms(1) by (simp_all add: num_get_int_def split: if_splits)
  have small: "\<bar>sint (f64_as_i64 f)\<bar> < 2 ^ 53" using assms(3) i by simp
  have fin: "f64_is_finite f"
    using eq f64_as_i64_saturates [of f] small
    by (auto simp: f64_eq_def f64_is_finite_def f64_is_nan_def f64_is_infinite_def)
  obtain m x where mx: "f64_dyadic f = (m, x)" by force
  have frac: "f64_frac f < 2 ^ 52" by (simp add: f64_frac_def)
  have m: "m < 2 ^ 53" using mx frac by (auto simp: f64_dyadic_def split: if_splits)
  have "\<exists>q < 2 ^ 53. f = f64_of_dyadic (f64_sign f) q 0"
  proof (cases "0 \<le> x")
    case True
    then have e: "f64_exp f \<noteq> 0" "m = f64_frac f + 2 ^ 52" "x = int (f64_exp f) - 1075"
      using mx by (auto simp: f64_dyadic_def split: if_splits)
    have "\<not> 1 \<le> x"
    proof
      assume "1 \<le> x"
      then have "(2 :: nat) ^ 1 \<le> 2 ^ nat x" by (intro power_increasing) auto
      then have "2 ^ 52 * 2 \<le> m * 2 ^ nat x" using e(2) by (intro mult_le_mono) simp_all
      then have "2 ^ 53 \<le> dyadic_trunc m x" using True by (simp add: dyadic_trunc_def)
      then show False using f64_as_i64_saturates [of f] fin mx small by simp
    qed
    then have "f64_exp f = 1075" using True e(3) by simp
    then show ?thesis using f64_dyadic_exact_mantissa [of f] e(2) m by metis
  next
    case False
    define k where "k = nat (- x)"
    define q where "q = (m + 2 ^ (k - 1)) div 2 ^ k"
    have "0 < k" using False by (simp add: k_def)
    then have k: "(2 :: nat) ^ k = 2 * 2 ^ (k - 1)" by (cases k) simp_all
    have "q \<le> m"
    proof (cases "m = 0")
      case True
      then show ?thesis by (simp add: q_def k)
    next
      case False
      have "m * 1 \<le> m * (2 * 2 ^ (k - 1))" by (intro mult_le_mono2) simp
      then have "m + 2 ^ (k - 1) < (m + 1) * 2 ^ k" unfolding k by (simp add: algebra_simps add_strict_increasing)
      then have "q < m + 1" unfolding q_def by (rule less_mult_imp_div_less)
      then show ?thesis by simp
    qed
    then have q: "q < 2 ^ 53" using m by simp
    have round: "f64_round f = f64_of_dyadic (f64_sign f) q 0"
      using fin mx False by (simp add: f64_round_def q_def k_def)
    from eq consider "f64_round f = f" | "f64_is_zero f" by (auto simp: f64_eq_def)
    then show ?thesis
    proof cases
      case 1
      with round q show ?thesis by metis
    next
      case 2
      then have "uint f = 0 \<or> uint f = 9223372036854775808" by (simp add: f64_is_zero_iff)
      moreover have "uint SIGN_MARK = 9223372036854775808" by (simp add: SIGN_MARK_def)
      ultimately have "uint f = 0" using assms(2) by (metis word_uint_eq_iff)
      then have "f = 0" by (simp only: unsigned_eq_0_iff)
      then have "f = f64_of_dyadic (f64_sign f) 0 0"
        by (simp add: f64_of_dyadic_def f64_magnitude_def f64_zero_def f64_sign_def)
      then show ?thesis by (intro exI [of _ 0]) simp
    qed
  qed
  then obtain q where q: "q < 2 ^ 53" "f = f64_of_dyadic (f64_sign f) q 0" by blast
  have "f64_of_dyadic (f64_sign f) q 0 \<noteq> SIGN_MARK" using assms(2) q(2) by simp
  from small_int_roundtrip [OF q(1) this] show ?thesis unfolding i q(2) [symmetric] .
qed

section \<open>Comparisons of numbers and the bounds taken from them\<close>

lemma num_lower_bound:
  assumes const: "\<And>g. c = FloatN g \<Longrightarrow> g \<noteq> SIGN_MARK \<and> (\<forall>i. num_get_int c = Some i \<longrightarrow> \<bar>sint i\<bar> < 2 ^ 53)"
    and val: "\<And>f. w = FloatN f \<Longrightarrow> f \<noteq> SIGN_MARK"
    and ge: "case mixed_nums (Num w) (Num c) of Some (l, r) \<Rightarrow> f64_le r l | None \<Rightarrow> cmp_num w c \<noteq> Less"
  shows "cmp_num (case num_get_int c of Some i \<Rightarrow> IntN i | None \<Rightarrow> c) w \<noteq> Greater"
proof (cases c)
  case (IntN i)
  show ?thesis
  proof (cases w)
    case (FloatN f)
    then have le: "f64_le (i64_as_f64 i) f" using ge IntN by simp
    then have "\<not> f64_is_nan f" by (auto simp: f64_le_def f64_lt_def f64_eq_def)
    then have "i64_key i \<le> sint (f64_total_key f)"
      using le f64_key_cmp(3) [of "i64_as_f64 i" f] val [OF FloatN]
      by (simp add: i64_as_f64_not_nan i64_ieee_key ieee_key_eq_total)
    then show ?thesis
      using IntN FloatN by (auto simp: num_get_int_def f64_total_cmp_def i64_key_def cmp_ord_def)
  qed (use IntN ge in \<open>auto simp: num_get_int_def cmp_ord_def split: if_splits\<close>)
next
  case (FloatN g)
  note g = const [OF FloatN]
  show ?thesis
  proof (cases "num_get_int c")
    case None
    show ?thesis
    proof (cases w)
      case (IntN j)
      then have le: "f64_le g (i64_as_f64 j)" using ge FloatN by simp
      then have "\<not> f64_is_nan g" by (auto simp: f64_le_def f64_lt_def f64_eq_def)
      then have "sint (f64_total_key g) \<le> i64_key j"
        using le f64_key_cmp(3) [of g "i64_as_f64 j"] total_le_ieee_key [of g]
        by (simp add: i64_as_f64_not_nan i64_ieee_key)
      moreover have "g \<noteq> i64_as_f64 j" using int_float_integral [of j] None FloatN by auto
      then have "sint (f64_total_key g) \<noteq> i64_key j" by (simp add: i64_key_def f64_total_key_inj)
      ultimately show ?thesis
        using None FloatN IntN by (auto simp: f64_total_cmp_def i64_key_def cmp_ord_def)
    qed (use None FloatN ge in \<open>auto simp: f64_total_cmp_def cmp_ord_def split: if_splits\<close>)
  next
    case (Some i)
    then have i: "i64_as_f64 i = g" "\<bar>sint i\<bar> < 2 ^ 53"
      using integral_small_roundtrip [of g i] g FloatN by auto
    show ?thesis
    proof (cases w)
      case (IntN j)
      then have "f64_le (i64_as_f64 i) (i64_as_f64 j)" using ge FloatN i(1) by simp
      then have "i64_key i \<le> i64_key j"
        using f64_key_cmp(3) [of "i64_as_f64 i" "i64_as_f64 j"] by (simp add: i64_as_f64_not_nan i64_ieee_key)
      then have "\<not> sint j < sint i" using i64_key_strict [of j i] i(2) by auto
      then show ?thesis using Some IntN by (simp add: cmp_ord_def)
    next
      case (FloatN f)
      then show ?thesis
        using ge \<open>c = FloatN g\<close> Some i(1) by (auto simp: f64_total_cmp_def cmp_ord_def split: if_splits)
    qed
  qed
qed

lemma num_upper_bound:
  assumes const: "\<And>g. c = FloatN g \<Longrightarrow> g \<noteq> SIGN_MARK"
    and le: "case mixed_nums (Num w) (Num c) of Some (l, r) \<Rightarrow> f64_le l r | None \<Rightarrow> cmp_num w c \<noteq> Greater"
  shows "cmp_num w (FloatN (num_get_float c)) \<noteq> Greater"
proof (cases c)
  case (IntN i)
  show ?thesis
  proof (cases w)
    case (IntN j)
    then have "sint j \<le> sint i" using le \<open>c = IntN i\<close> by (auto simp: cmp_ord_def split: if_splits)
    then show ?thesis
      using i64_key_mono [of j i] IntN \<open>c = IntN i\<close>
      by (auto simp: num_get_float_def f64_total_cmp_def i64_key_def cmp_ord_def)
  next
    case (FloatN f)
    then have fle: "f64_le f (i64_as_f64 i)" using le IntN by simp
    then have "\<not> f64_is_nan f" by (auto simp: f64_le_def f64_lt_def f64_eq_def)
    then have "sint (f64_total_key f) \<le> i64_key i"
      using fle f64_key_cmp(3) [of f "i64_as_f64 i"] total_le_ieee_key [of f]
      by (simp add: i64_as_f64_not_nan i64_ieee_key)
    then show ?thesis
      using FloatN IntN by (auto simp: num_get_float_def f64_total_cmp_def i64_key_def cmp_ord_def)
  qed
next
  case (FloatN g)
  show ?thesis
  proof (cases w)
    case (IntN j)
    then have fle: "f64_le (i64_as_f64 j) g" using le FloatN by simp
    then have "\<not> f64_is_nan g" by (auto simp: f64_le_def f64_lt_def f64_eq_def)
    then have "i64_key j \<le> sint (f64_total_key g)"
      using fle f64_key_cmp(3) [of "i64_as_f64 j" g] const [OF FloatN]
      by (simp add: i64_as_f64_not_nan i64_ieee_key ieee_key_eq_total)
    then show ?thesis
      using FloatN IntN by (auto simp: num_get_float_def f64_total_cmp_def i64_key_def cmp_ord_def)
  qed (use FloatN le in \<open>auto simp: num_get_float_def\<close>)
qed

section \<open>Rows that pass the filters lie within the bounds\<close>

text \<open>
  The constants and values for which the bounds are safe: no negative zero, no integral float of magnitude
  \<open>2\<^sup>5\<^sup>3\<close> or more as a constant, and no string that continues after the largest character.
\<close>

definition plain_const :: "data_value \<Rightarrow> bool" where
  "plain_const c \<longleftrightarrow>
     (case c of
        Num (FloatN f) \<Rightarrow>
          f \<noteq> SIGN_MARK \<and> (case num_get_int (FloatN f) of Some i \<Rightarrow> \<bar>sint i\<bar> < 2 ^ 53 | None \<Rightarrow> True)
      | _ \<Rightarrow> True)"

definition plain_value :: "data_value \<Rightarrow> bool" where
  "plain_value w \<longleftrightarrow>
     (case w of
        Num (FloatN f) \<Rightarrow> f \<noteq> SIGN_MARK
      | Str s \<Rightarrow> list_all (\<lambda>t. cmp_bytes t LARGEST_UTF_CHAR \<noteq> Greater) (suffixes s)
      | _ \<Rightarrow> True)"

definition within :: "ext \<Rightarrow> value_range \<Rightarrow> data_value \<Rightarrow> bool" where
  "within E r w \<longleftrightarrow> cmp_value E (lower r) w \<noteq> Greater \<and> cmp_value E w (upper r) \<noteq> Greater"

lemma cmp_value_Null: "cmp_value E Null w \<noteq> Greater"
  by (cases w) (simp_all add: cmp_ord_def)

lemma cmp_value_le_Bot: "cmp_value E w Bot \<noteq> Greater"
  by (cases w) (simp_all add: cmp_ord_def)

lemma within_default: "within E range_default w"
  by (simp add: within_def range_default_def cmp_value_le_Bot cmp_value_Null del: cmp_value.simps)

lemma within_merge:
  assumes "ext_ord E" and "within E a w" and "within E b w"
  shows "within E (range_merge E a b) w"
proof -
  have c: "total_cmp (cmp_value E)" using assms(1) by (rule total_cmp_value)
  let ?l = "value_max E (lower a) (lower b)" and ?u = "value_min E (upper a) (upper b)"
  have l: "cmp_value E ?l w \<noteq> Greater" and u: "cmp_value E w ?u \<noteq> Greater"
    using assms(2,3) by (simp_all add: within_def value_max_def value_min_def)
  then have "cmp_value E ?l ?u \<noteq> Greater"
    by (rule total_cmp.cmp_le_trans [OF c])
  with l u show ?thesis by (simp add: range_merge_def within_def Let_def)
qed

lemma ge_lower_bound:
  assumes "ext_ord E" and "plain_const c" and "plain_value w"
    and "op_ge E [w, c] = Inr (Bool True) \<or> op_gt E [w, c] = Inr (Bool True)"
  shows "cmp_value E (as_lower c) w \<noteq> Greater"
proof -
  have c: "total_cmp (cmp_value E)" using assms(1) by (rule total_cmp_value)
  have ge: "case mixed_nums w c of Some (l, r) \<Rightarrow> f64_le r l | None \<Rightarrow> cmp_value E w c \<noteq> Less"
    using assms(4) by (auto simp: map_ok_Inr f64_le_def split: option.splits)
  have same: "variant_idx w = variant_idx c"
    using assms(4) by (auto simp: map_ok_Inr ensure_same_value_type_def split: if_splits)
  show ?thesis
  proof (cases c)
    case (Num n)
    then obtain m where m: "w = Num m" using same variant_idx_inv(2) by fastforce
    have "cmp_num (case num_get_int n of Some i \<Rightarrow> IntN i | None \<Rightarrow> n) m \<noteq> Greater"
      by (rule num_lower_bound)
        (use assms(2,3) ge Num m in \<open>auto simp: plain_const_def plain_value_def split: option.splits\<close>)
    then show ?thesis using Num m by (auto simp: as_lower_def get_int_def split: option.splits)
  qed (use ge total_cmp.cmp_Greater [OF c, of c w] in \<open>simp_all add: as_lower_def get_int_def del: cmp_value.simps\<close>)
qed

lemma le_upper_bound:
  assumes "ext_ord E" and "plain_const c"
    and "op_le E [w, c] = Inr (Bool True) \<or> op_lt E [w, c] = Inr (Bool True)"
  shows "cmp_value E w (as_upper c) \<noteq> Greater"
proof -
  have le: "case mixed_nums w c of Some (l, r) \<Rightarrow> f64_le l r | None \<Rightarrow> cmp_value E w c \<noteq> Greater"
    using assms(3) by (auto simp: map_ok_Inr f64_le_def split: option.splits)
  have same: "variant_idx w = variant_idx c"
    using assms(3) by (auto simp: map_ok_Inr ensure_same_value_type_def split: if_splits)
  show ?thesis
  proof (cases c)
    case (Num n)
    then obtain m where m: "w = Num m" using same variant_idx_inv(2) by fastforce
    have "cmp_num m (FloatN (num_get_float n)) \<noteq> Greater"
      by (rule num_upper_bound)
        (use assms(2) le Num m in \<open>auto simp: plain_const_def split: option.splits\<close>)
    then show ?thesis using Num m by (simp add: as_upper_def get_float_def)
  qed (use le in \<open>auto simp: as_upper_def get_float_def\<close>)
qed

text \<open>The comparisons are mirror images of each other.\<close>

lemma comparison_swap:
  assumes "ext_ord E"
  shows "op_ge E [c, w] = op_le E [w, c]" and "op_gt E [c, w] = op_lt E [w, c]"
proof -
  have c: "total_cmp (cmp_value E)" using assms by (rule total_cmp_value)
  have mixed: "mixed_nums c w = map_option (\<lambda>(l, r). (r, l)) (mixed_nums w c)"
    by (cases "(w, c)" rule: mixed_nums.cases) simp_all
  have same: "ensure_same_value_type c w = ensure_same_value_type w c"
    by (cases c; cases w; simp add: ensure_same_value_type_def)
  have swap: "cmp_value E c w = ordering_swap (cmp_value E w c)" by (rule total_cmp.cmp_swap [OF c])
  show "op_ge E [c, w] = op_le E [w, c]"
    unfolding op_ge.simps op_le.simps mixed same
    by (rule arg_cong2 [where f = map_ok]) (auto simp: swap simp del: cmp_value.simps split: option.splits)
  show "op_gt E [c, w] = op_lt E [w, c]"
    unfolding op_gt.simps op_lt.simps mixed same
    by (rule arg_cong2 [where f = map_ok]) (auto simp: swap simp del: cmp_value.simps split: option.splits)
qed

lemma starts_with_bound:
  assumes "op_starts_with [w, Str s] = Inr (Bool True)" and "plain_value w"
  shows "within E \<lparr>lower = Str s, upper = Str (s @ LARGEST_UTF_CHAR)\<rparr> w"
proof -
  obtain t where w: "w = Str (s @ t)"
    using assms(1) by (cases w) (auto elim!: prefixE)
  have "cmp_bytes t LARGEST_UTF_CHAR \<noteq> Greater"
    using assms(2) w by (auto simp: plain_value_def list_all_iff suffix_def)
  moreover have "cmp_bytes (s @ t) (s @ LARGEST_UTF_CHAR) = cmp_bytes t LARGEST_UTF_CHAR"
    by (rule lex_cmp_append_refl) simp
  moreover have "cmp_bytes (s @ []) (s @ t) = cmp_bytes [] t"
    by (rule lex_cmp_append_refl) simp
  moreover have "cmp_bytes [] t \<noteq> Greater" by (cases t) simp_all
  ultimately show ?thesis using w by (simp add: within_def)
qed

text \<open>
  What the theorem needs of a filter: the operators that the code recognises by name are the ones of that
  name and have their number of arguments, variables stand for the values of the row, constants are plain, and
  the prefix of \<open>starts_with\<close> is no byte string.
\<close>

definition named_op :: "ext \<Rightarrow> op \<Rightarrow> bool" where
  "named_op E op \<longleftrightarrow>
     (op_name op = ''OP_GE'' \<longrightarrow> op = OP_GE E) \<and> (op_name op = ''OP_GT'' \<longrightarrow> op = OP_GT E) \<and>
     (op_name op = ''OP_LE'' \<longrightarrow> op = OP_LE E) \<and> (op_name op = ''OP_LT'' \<longrightarrow> op = OP_LT E) \<and>
     (op_name op = ''OP_STARTS_WITH'' \<longrightarrow> op = OP_STARTS_WITH)"

definition operand_ok :: "(symbol \<Rightarrow> data_value) \<Rightarrow> tuple \<Rightarrow> expr \<Rightarrow> bool" where
  "operand_ok \<rho> row a \<longleftrightarrow>
     (case a of
        Binding var pos \<Rightarrow> (case pos of Some i \<Rightarrow> i < length row \<and> row ! i = \<rho> var | None \<Rightarrow> False)
      | Const c \<Rightarrow> plain_const c
      | _ \<Rightarrow> True)"

definition filter_ok :: "ext \<Rightarrow> (symbol \<Rightarrow> data_value) \<Rightarrow> tuple \<Rightarrow> expr \<Rightarrow> bool" where
  "filter_ok E \<rho> row e \<longleftrightarrow>
     (case e of
        Apply op args \<Rightarrow>
          named_op E op \<and> list_all (operand_ok \<rho> row) args \<and>
          (op_name op \<in> {''OP_GE'', ''OP_GT'', ''OP_LE'', ''OP_LT'', ''OP_STARTS_WITH''} \<longrightarrow> length args = 2) \<and>
          (op_name op = ''OP_STARTS_WITH'' \<longrightarrow> (case get_const (args ! 1) of Some (Bytes _) \<Rightarrow> False | _ \<Rightarrow> True))
      | _ \<Rightarrow> True)"

lemma constant_for_Some:
  assumes "constant_for s a b = Some c" and "operand_ok \<rho> row a" and "operand_ok \<rho> row b"
  shows "eval a row = Inr (\<rho> s)" and "eval b row = Inr c" and "plain_const c"
  using assms
  by (auto simp: constant_for_def get_binding_def get_const_def operand_ok_def read_binding_def
      split: expr.splits option.splits if_splits)

lemma comparison_bounds:
  assumes "ext_ord E" and "operand_ok \<rho> row a" and "operand_ok \<rho> row b" and "plain_value (\<rho> s)"
    and val: "\<And>x y. eval a row = Inr x \<Longrightarrow> eval b row = Inr y \<Longrightarrow>
      op_ge E [x, y] = Inr (Bool True) \<or> op_gt E [x, y] = Inr (Bool True)"
  shows "constant_for s a b = Some c \<Longrightarrow> within E (range_lower_bound (as_lower c)) (\<rho> s)"
    and "constant_for s b a = Some c \<Longrightarrow> within E (range_upper_bound (as_upper c)) (\<rho> s)"
proof -
  assume "constant_for s a b = Some c"
  from constant_for_Some [OF this assms(2,3)] ge_lower_bound [OF assms(1) _ assms(4) val]
  show "within E (range_lower_bound (as_lower c)) (\<rho> s)"
    by (simp add: within_def range_lower_bound_def cmp_value_le_Bot del: cmp_value.simps)
next
  assume "constant_for s b a = Some c"
  note c = constant_for_Some [OF this assms(3,2)]
  have "op_le E [\<rho> s, c] = Inr (Bool True) \<or> op_lt E [\<rho> s, c] = Inr (Bool True)"
    using val [OF c(2,1)] unfolding comparison_swap [OF assms(1)] .
  from le_upper_bound [OF assms(1) c(3) this]
  show "within E (range_upper_bound (as_upper c)) (\<rho> s)"
    by (simp add: within_def range_upper_bound_def cmp_value_Null del: cmp_value.simps)
qed

lemma eval_apply_two:
  assumes "eval (Apply op [a, b]) row = Inr v" and "eval a row = Inr x" and "eval b row = Inr y"
  shows "op_inner op [x, y] = Inr v"
  using assms by (simp add: lift_op_Inr)

lemma extract_bound_covers:
  assumes "ext_ord E" and "filter_ok E \<rho> row e" and "eval e row = Inr (Bool True)" and "plain_value (\<rho> s)"
  shows "\<exists>r. extract_bound e s = Inr r \<and> within E r (\<rho> s)"
proof (cases e)
  case (Apply op args)
  have ok: "named_op E op" "list_all (operand_ok \<rho> row) args"
    using assms(2) Apply by (simp_all add: filter_ok_def)
  consider (other) "op_name op \<notin> {''OP_GE'', ''OP_GT'', ''OP_LE'', ''OP_LT'', ''OP_STARTS_WITH''}"
    | (two) a b where "args = [a, b]"
      "op_name op \<in> {''OP_GE'', ''OP_GT'', ''OP_LE'', ''OP_LT'', ''OP_STARTS_WITH''}"
    using assms(2) Apply by (auto simp: filter_ok_def length_Suc_conv numeral_2_eq_2)
  then show ?thesis
  proof cases
    case other
    then show ?thesis using Apply within_default by (auto simp: extract_bound_def)
  next
    case (two a b)
    have ab: "operand_ok \<rho> row a" "operand_ok \<rho> row b" using ok(2) two(1) by simp_all
    note val = eval_apply_two [OF assms(3) [unfolded Apply two(1)]]
    from two(2) consider (ge) "op = OP_GE E \<or> op = OP_GT E" | (le) "op = OP_LE E \<or> op = OP_LT E"
      | (sw) "op = OP_STARTS_WITH"
      using ok(1) by (auto simp: named_op_def)
    then show ?thesis
    proof cases
      case ge
      have "op_ge E [x, y] = Inr (Bool True) \<or> op_gt E [x, y] = Inr (Bool True)"
        if "eval a row = Inr x" "eval b row = Inr y" for x y
        using val [OF that] ge by (auto simp: OP_GE_def OP_GT_def)
      note bounds = comparison_bounds [OF assms(1) ab assms(4) this]
      have "extract_bound e s = Inr (case constant_for s a b of
          Some c \<Rightarrow> range_lower_bound (as_lower c)
        | None \<Rightarrow> (case constant_for s b a of Some c \<Rightarrow> range_upper_bound (as_upper c) | None \<Rightarrow> range_default))"
        using ge Apply two(1) by (auto simp: extract_bound_def OP_GE_def OP_GT_def split: option.splits)
      then show ?thesis using bounds within_default by (auto split: option.splits)
    next
      case le
      have "op_ge E [x, y] = Inr (Bool True) \<or> op_gt E [x, y] = Inr (Bool True)"
        if "eval b row = Inr x" "eval a row = Inr y" for x y
        unfolding comparison_swap [OF assms(1)]
        using val [OF that(2,1)] le by (auto simp: OP_LE_def OP_LT_def)
      note bounds = comparison_bounds [OF assms(1) ab(2,1) assms(4) this]
      have "extract_bound e s = Inr (case constant_for s a b of
          Some c \<Rightarrow> range_upper_bound (as_upper c)
        | None \<Rightarrow> (case constant_for s b a of Some c \<Rightarrow> range_lower_bound (as_lower c) | None \<Rightarrow> range_default))"
        using le Apply two(1) by (auto simp: extract_bound_def OP_LE_def OP_LT_def split: option.splits)
      then show ?thesis using bounds within_default by (auto split: option.splits)
    next
      case sw
      show ?thesis
      proof (cases "constant_for s a b")
        case None
        then show ?thesis
          using sw Apply two(1) within_default by (simp add: extract_bound_def OP_STARTS_WITH_def)
      next
        case (Some c)
        note c = constant_for_Some [OF Some ab]
        have true: "op_starts_with [\<rho> s, c] = Inr (Bool True)"
          using val [OF c(1,2)] sw by (simp add: OP_STARTS_WITH_def)
        moreover have "get_const b = Some c" using Some by (auto simp: constant_for_def split: option.splits if_splits)
        then have "case c of Bytes _ \<Rightarrow> False | _ \<Rightarrow> True"
          using assms(2) Apply two(1) sw by (auto simp: filter_ok_def OP_STARTS_WITH_def split: data_value.splits)
        ultimately obtain t where t: "c = Str t"
          by (cases "\<rho> s"; cases c) auto
        then show ?thesis
          using starts_with_bound true assms(4) sw Apply two(1) Some
          by (simp add: extract_bound_def OP_STARTS_WITH_def get_str_def)
      qed
    qed
  qed
qed (use assms within_default in \<open>auto simp: extract_bound_def\<close>)

lemma bound_of_covers:
  assumes "ext_ord E" and "\<forall>e \<in> set filters. filter_ok E \<rho> row e \<and> eval e row = Inr (Bool True)"
    and "plain_value (\<rho> s)"
  shows "\<exists>r. bound_of E filters s = Inr r \<and> within E r (\<rho> s)"
proof -
  have "\<exists>r. try_fold (\<lambda>cur f. map_ok (range_merge E cur) (extract_bound f s)) r0 filters = Inr r \<and> within E r (\<rho> s)"
    if "within E r0 (\<rho> s)" for r0
    using assms(2) that
  proof (induction filters arbitrary: r0)
    case (Cons e es)
    then obtain r where r: "extract_bound e s = Inr r" "within E r (\<rho> s)"
      using extract_bound_covers [of E \<rho> row e s] assms(1,3) by auto
    with Cons.prems(2) have "within E (range_merge E r0 r) (\<rho> s)" by (intro within_merge assms(1))
    with Cons r(1) show ?case by simp
  qed simp
  then show ?thesis unfolding bound_of_def using within_default by blast
qed

text \<open>
  C37: Bounds are safe: when every filter holds of a row, \<open>compute_bounds\<close> returns for each requested variable a
  lower and an upper bound between which the value of the variable lies. The constants must not be negative
  zero or integral floats of magnitude \<open>2\<^sup>5\<^sup>3\<close> or more, the values not negative zero or strings that continue
  after the largest character.
\<close>

theorem bounds_cover:
  assumes "ext_ord E"
    and "\<forall>e \<in> set filters. filter_ok E \<rho> row e \<and> eval e row = Inr (Bool True)"
    and "\<forall>s \<in> set symbols. plain_value (\<rho> s)"
  shows "\<exists>lowers uppers. compute_bounds E filters symbols = Inr (lowers, uppers) \<and>
    list_all2 (\<lambda>l s. cmp_value E l (\<rho> s) \<noteq> Greater) lowers symbols \<and>
    list_all2 (\<lambda>s u. cmp_value E (\<rho> s) u \<noteq> Greater) symbols uppers"
proof -
  have "\<exists>rs. try_collect (bound_of E filters) symbols = Inr rs \<and> list_all2 (\<lambda>r s. within E r (\<rho> s)) rs symbols"
    using assms(3)
  proof (induction symbols)
    case (Cons s ss)
    then show ?case using bound_of_covers [OF assms(1,2), of s] by auto
  qed simp
  then obtain rs where rs: "try_collect (bound_of E filters) symbols = Inr rs"
    "list_all2 (\<lambda>r s. within E r (\<rho> s)) rs symbols" by blast
  then show ?thesis
    by (auto simp: compute_bounds_def list.rel_map list_all2_conv_all_nth within_def simp del: cmp_value.simps)
qed

text \<open>Evaluation of floating-point numbers by rewriting.\<close>

lemmas f64_eval = f64_round_def f64_eq_def f64_le_def f64_lt_def f64_is_finite_def f64_exp_def f64_dyadic_def
  f64_sign_def f64_frac_def f64_of_dyadic_def f64_magnitude_def rne_shift_def f64_zero_def f64_is_zero_def f64_is_nan_def
  f64_is_infinite_def i64_as_f64_def f64_total_cmp_def f64_total_key_def Let_def f64_as_i64_def dyadic_trunc_def
  bit_len.simps

lemma named_ops:
  "named_op E (OP_GE E)" "named_op E (OP_GT E)" "named_op E (OP_LE E)" "named_op E (OP_LT E)" "named_op E OP_STARTS_WITH"
  by (simp_all add: named_op_def OP_GE_def OP_GT_def OP_LE_def OP_LT_def OP_STARTS_WITH_def)

lemma op_fields:
  "op_name (OP_GE E) = ''OP_GE''" "op_name (OP_LT E) = ''OP_LT''" "op_name OP_STARTS_WITH = ''OP_STARTS_WITH''"
  "op_inner (OP_GE E) = op_ge E" "op_inner (OP_LT E) = op_lt E" "op_inner OP_STARTS_WITH = op_starts_with"
  by (simp_all add: OP_GE_def OP_LT_def OP_STARTS_WITH_def)

lemma float_55:
  "num_get_int (FloatN 0x4016000000000000) = None" "0x4016000000000000 \<noteq> SIGN_MARK"
  "f64_lt (i64_as_f64 3) 0x4016000000000000"
  by (simp_all add: num_get_int_def SIGN_MARK_def f64_eval)

lemma example_filter_ge:
  assumes "\<rho> [120] = Num (IntN 3)"
  shows "filter_ok E \<rho> [Num (IntN 3), w] (Apply (OP_GE E) [Binding [120] (Some 0), Const (Num (IntN 1))])"
    and "eval (Apply (OP_GE E) [Binding [120] (Some 0), Const (Num (IntN 1))]) [Num (IntN 3), w] = Inr (Bool True)"
proof -
  have "op_ge E [Num (IntN 3), Num (IntN 1)] = Inr (Bool True)" by (simp add: ensure_same_value_type_def cmp_ord_def)
  then show "eval (Apply (OP_GE E) [Binding [120] (Some 0), Const (Num (IntN 1))]) [Num (IntN 3), w] = Inr (Bool True)"
    by (simp add: op_fields read_binding_def del: op_ge.simps)
qed (simp add: assms filter_ok_def named_ops op_fields operand_ok_def plain_const_def)

lemma example_filter_lt:
  assumes "\<rho> [120] = Num (IntN 3)"
  shows "filter_ok E \<rho> [Num (IntN 3), w]
      (Apply (OP_LT E) [Binding [120] (Some 0), Const (Num (FloatN 0x4016000000000000))])"
    and "eval (Apply (OP_LT E) [Binding [120] (Some 0), Const (Num (FloatN 0x4016000000000000))])
      [Num (IntN 3), w] = Inr (Bool True)"
proof -
  have "op_lt E [Num (IntN 3), Num (FloatN 0x4016000000000000)] = Inr (Bool True)"
    using float_55(3) by (simp add: ensure_same_value_type_def)
  then show "eval (Apply (OP_LT E) [Binding [120] (Some 0), Const (Num (FloatN 0x4016000000000000))])
      [Num (IntN 3), w] = Inr (Bool True)"
    by (simp add: op_fields read_binding_def del: op_lt.simps)
qed (use float_55(1,2) in \<open>simp add: assms filter_ok_def named_ops op_fields operand_ok_def plain_const_def\<close>)

lemma example_filter_starts_with:
  assumes "\<rho> [121] = Str [97, 98]"
  shows "filter_ok E \<rho> [w, Str [97, 98]] (Apply OP_STARTS_WITH [Binding [121] (Some 1), Const (Str [97])])"
    and "eval (Apply OP_STARTS_WITH [Binding [121] (Some 1), Const (Str [97])]) [w, Str [97, 98]] = Inr (Bool True)"
  by (simp_all add: assms filter_ok_def named_ops op_fields operand_ok_def plain_const_def get_const_def read_binding_def)

theorem bounds_cover_witness:
  "\<exists>lowers uppers. compute_bounds ext_example
      [Apply (OP_GE ext_example) [Binding [120] (Some 0), Const (Num (IntN 1))],
       Apply (OP_LT ext_example) [Binding [120] (Some 0), Const (Num (FloatN 0x4016000000000000))],
       Apply OP_STARTS_WITH [Binding [121] (Some 1), Const (Str [97])]] [[120], [121]] = Inr (lowers, uppers) \<and>
    list_all2 (\<lambda>l s. cmp_value ext_example l (if s = [120 :: u8] then Num (IntN 3) else Str [97, 98]) \<noteq> Greater)
      lowers [[120], [121]] \<and>
    list_all2 (\<lambda>s u. cmp_value ext_example (if s = [120 :: u8] then Num (IntN 3) else Str [97, 98]) u \<noteq> Greater)
      [[120], [121]] uppers"
proof (rule bounds_cover [where row = "[Num (IntN 3), Str [97, 98]]"])
  have "plain_value (Num (IntN 3))" "plain_value (Str [97, 98])"
    by (simp_all add: plain_value_def LARGEST_UTF_CHAR_def cmp_ord_def)
  then show "\<forall>s \<in> set [[120], [121]]. plain_value (if s = [120 :: u8] then Num (IntN 3) else Str [97, 98])" by simp
  show "\<forall>e \<in> set
      [Apply (OP_GE ext_example) [Binding [120] (Some 0), Const (Num (IntN 1))],
       Apply (OP_LT ext_example) [Binding [120] (Some 0), Const (Num (FloatN 0x4016000000000000))],
       Apply OP_STARTS_WITH [Binding [121] (Some 1), Const (Str [97])]].
      filter_ok ext_example (\<lambda>s. if s = [120] then Num (IntN 3) else Str [97, 98]) [Num (IntN 3), Str [97, 98]] e \<and>
      eval e [Num (IntN 3), Str [97, 98]] = Inr (Bool True)"
    unfolding list.set ball_simps
    by (intro conjI TrueI example_filter_ge example_filter_lt example_filter_starts_with) simp_all
qed (rule ext_ord_example)

lemmas bounds_eval = compute_bounds_def bound_of_def extract_bound_def constant_for_def get_binding_def get_const_def
  as_lower_def get_int_def get_str_def range_lower_bound_def range_default_def range_merge_def value_max_def value_min_def

text \<open>Negative zero passes the filter \<open>x >= 0\<close> and lies below its bound.\<close>

lemma lost_zero:
  "eval (Apply (OP_GE E) [Binding x (Some 0), Const (Num (IntN 0))]) [Num (FloatN SIGN_MARK)] = Inr (Bool True)"
  "compute_bounds E [Apply (OP_GE E) [Binding x (Some 0), Const (Num (IntN 0))]] [x] = Inr ([Num (IntN 0)], [Bot])"
  "cmp_value E (Num (IntN 0)) (Num (FloatN SIGN_MARK)) = Greater"
proof -
  have "f64_le (i64_as_f64 0) SIGN_MARK" by (simp add: f64_eval SIGN_MARK_def)
  then have "op_ge E [Num (FloatN SIGN_MARK), Num (IntN 0)] = Inr (Bool True)"
    by (simp only: op_ge.simps mixed_nums.simps ensure_same_value_type_def variant_idx.simps data_value.case
        option.case prod.case simp_thms if_True map_ok_simps)
  then show "eval (Apply (OP_GE E) [Binding x (Some 0), Const (Num (IntN 0))]) [Num (FloatN SIGN_MARK)] = Inr (Bool True)"
    by (simp add: op_fields read_binding_def del: op_ge.simps)
  have "num_get_int (IntN 0) = Some 0" by (simp add: num_get_int_def)
  then show "compute_bounds E [Apply (OP_GE E) [Binding x (Some 0), Const (Num (IntN 0))]] [x] = Inr ([Num (IntN 0)], [Bot])"
    by (simp add: op_fields bounds_eval)
  have "cmp_num (IntN 0) (FloatN SIGN_MARK) = Greater" by (simp add: f64_eval cmp_ord_def SIGN_MARK_def)
  then show "cmp_value E (Num (IntN 0)) (Num (FloatN SIGN_MARK)) = Greater"
    by (simp only: cmp_value.simps data_value.case)
qed

text \<open>An integer that rounds up to a bound passes the filter and lies below the bound.\<close>

lemma lost_rounded:
  assumes "sint i < sint j" and "i64_as_f64 i = i64_as_f64 j" and "num_get_int (FloatN (i64_as_f64 j)) = Some j"
  shows "eval (Apply (OP_GE E) [Binding x (Some 0), Const (Num (FloatN (i64_as_f64 j)))]) [Num (IntN i)] = Inr (Bool True)"
    "compute_bounds E [Apply (OP_GE E) [Binding x (Some 0), Const (Num (FloatN (i64_as_f64 j)))]] [x] =
       Inr ([Num (IntN j)], [Bot])"
    "cmp_value E (Num (IntN j)) (Num (IntN i)) = Greater"
proof -
  have "f64_le (i64_as_f64 j) (i64_as_f64 i)"
    using i64_as_f64_not_nan [of j] by (simp add: assms(2) f64_le_def f64_eq_def)
  then have "op_ge E [Num (IntN i), Num (FloatN (i64_as_f64 j))] = Inr (Bool True)"
    by (simp only: op_ge.simps mixed_nums.simps ensure_same_value_type_def variant_idx.simps data_value.case
        option.case prod.case simp_thms if_True map_ok_simps)
  then show "eval (Apply (OP_GE E) [Binding x (Some 0), Const (Num (FloatN (i64_as_f64 j)))]) [Num (IntN i)] = Inr (Bool True)"
    by (simp add: op_fields read_binding_def del: op_ge.simps)
  show "compute_bounds E [Apply (OP_GE E) [Binding x (Some 0), Const (Num (FloatN (i64_as_f64 j)))]] [x] =
       Inr ([Num (IntN j)], [Bot])"
    using assms(3) by (simp add: op_fields bounds_eval)
  show "cmp_value E (Num (IntN j)) (Num (IntN i)) = Greater"
    using assms(1) by (simp add: cmp_ord_def)
qed

text \<open>A string that continues after the largest character passes \<open>starts_with\<close> and lies above the bound.\<close>

lemma lost_prefix:
  assumes "t \<noteq> []"
  shows "eval (Apply OP_STARTS_WITH [Binding x (Some 0), Const (Str s)]) [Str (s @ LARGEST_UTF_CHAR @ t)] = Inr (Bool True)"
    "compute_bounds E [Apply OP_STARTS_WITH [Binding x (Some 0), Const (Str s)]] [x] =
       Inr ([Str s], [Str (s @ LARGEST_UTF_CHAR)])"
    "cmp_value E (Str (s @ LARGEST_UTF_CHAR @ t)) (Str (s @ LARGEST_UTF_CHAR)) = Greater"
proof -
  show "eval (Apply OP_STARTS_WITH [Binding x (Some 0), Const (Str s)]) [Str (s @ LARGEST_UTF_CHAR @ t)] = Inr (Bool True)"
    by (simp add: op_fields read_binding_def)
  have le: "cmp_bytes s (s @ LARGEST_UTF_CHAR) = Less"
    using lex_cmp_append_refl [of cmp_ord s "[]" LARGEST_UTF_CHAR] by (simp add: LARGEST_UTF_CHAR_def)
  then show "compute_bounds E [Apply OP_STARTS_WITH [Binding x (Some 0), Const (Str s)]] [x] =
       Inr ([Str s], [Str (s @ LARGEST_UTF_CHAR)])"
    by (simp add: op_fields bounds_eval)
  show "cmp_value E (Str (s @ LARGEST_UTF_CHAR @ t)) (Str (s @ LARGEST_UTF_CHAR)) = Greater"
    using lex_cmp_append_refl [of cmp_ord "s @ LARGEST_UTF_CHAR" t "[]"] assms by (cases t) simp_all
qed

text \<open>
  C38: The bounds can lose rows, that is, exclude rows for which the filter holds. Negative zero passes
  \<open>x >= 0\<close> and lies below the bound. Whenever a smaller integer \<open>i\<close> rounds to the same float as an integer \<open>j\<close>
  that is exactly a float, \<open>i\<close> passes \<open>x >= j\<close> with \<open>j\<close> given as a float, since the comparison rounds, and
  lies below the bound, which is the integer \<open>j\<close>. For every prefix, every string that has the prefix, then the
  largest character and then anything more passes \<open>starts_with\<close> and lies above the bound.
\<close>

theorem bounds_lose_rows:
  assumes "sint i < sint j" and "i64_as_f64 i = i64_as_f64 j" and "num_get_int (FloatN (i64_as_f64 j)) = Some j"
    and "t \<noteq> []"
  shows "eval (Apply (OP_GE E) [Binding x (Some 0), Const (Num (IntN 0))]) [Num (FloatN SIGN_MARK)] = Inr (Bool True) \<and>
   compute_bounds E [Apply (OP_GE E) [Binding x (Some 0), Const (Num (IntN 0))]] [x] = Inr ([Num (IntN 0)], [Bot]) \<and>
   cmp_value E (Num (IntN 0)) (Num (FloatN SIGN_MARK)) = Greater \<and>
   eval (Apply (OP_GE E) [Binding x (Some 0), Const (Num (FloatN (i64_as_f64 j)))]) [Num (IntN i)] = Inr (Bool True) \<and>
   compute_bounds E [Apply (OP_GE E) [Binding x (Some 0), Const (Num (FloatN (i64_as_f64 j)))]] [x] =
     Inr ([Num (IntN j)], [Bot]) \<and>
   cmp_value E (Num (IntN j)) (Num (IntN i)) = Greater \<and>
   eval (Apply OP_STARTS_WITH [Binding x (Some 0), Const (Str s)]) [Str (s @ LARGEST_UTF_CHAR @ t)] = Inr (Bool True) \<and>
   compute_bounds E [Apply OP_STARTS_WITH [Binding x (Some 0), Const (Str s)]] [x] =
     Inr ([Str s], [Str (s @ LARGEST_UTF_CHAR)]) \<and>
   cmp_value E (Str (s @ LARGEST_UTF_CHAR @ t)) (Str (s @ LARGEST_UTF_CHAR)) = Greater"
  using lost_zero lost_rounded [OF assms(1-3)] lost_prefix [OF assms(4)] by blast

theorem bounds_lose_rows_witness:
  "\<exists>f. eval (Apply (OP_GE ext_example) [Binding [120] (Some 0), Const (Num (FloatN f))]) [Num (IntN 9007199254740995)] =
     Inr (Bool True) \<and>
   compute_bounds ext_example [Apply (OP_GE ext_example) [Binding [120] (Some 0), Const (Num (FloatN f))]] [[120]] =
     Inr ([Num (IntN 9007199254740996)], [Bot]) \<and>
   cmp_value ext_example (Num (IntN 9007199254740996)) (Num (IntN 9007199254740995)) = Greater"
proof -
  have i: "i64_as_f64 9007199254740995 = 0x4340000000000002" and j: "i64_as_f64 9007199254740996 = 0x4340000000000002"
    by (simp_all add: f64_eval)
  have "num_get_int (FloatN 0x4340000000000002) = Some 9007199254740996" by (simp add: num_get_int_def f64_eval)
  then have "sint (9007199254740995 :: i64) < sint (9007199254740996 :: i64)"
    "i64_as_f64 9007199254740995 = i64_as_f64 9007199254740996"
    "num_get_int (FloatN (i64_as_f64 9007199254740996)) = Some 9007199254740996" "[0] \<noteq> ([] :: bytes)"
    by (simp_all only: i j) simp_all
  from bounds_lose_rows [OF this, of ext_example "[120]"] show ?thesis by blast
qed

end
