(* ===== verification/Reorder.thy ===== *)
theory Reorder
  imports Program "HOL-Library.Multiset"
begin

text \<open>
  \<open>retia-core/src/query/reorder.rs\<close>: the body of a rule is brought into an order in which every variable
  that an atom needs is bound before it. A first round collects the atoms that bind variables, a second round
  inserts the others where their variables are bound.
\<close>

section \<open>The conversion\<close>

datatype reorder_error =
    UnsafeNegation
  | AtomUnbound
  | BadExpr eval_error
  | ReorderPanic

definition lift_bindings :: "eval_error + symbol list \<Rightarrow> reorder_error + symbol list" where
  "lift_bindings r = (case r of Inl e \<Rightarrow> Inl (BadExpr e) | Inr vs \<Rightarrow> Inr vs)"

text \<open>\<open>is_subset\<close> of two sets of symbols.\<close>

definition all_seen :: "symbol list \<Rightarrow> symbol list \<Rightarrow> bool" where
  "all_seen seen vs = list_all (\<lambda>v. bset_contains cmp_bytes v seen) vs"

type_synonym 'm reorder_state = "symbol list \<times> 'm normal_form_atom list \<times> 'm normal_form_atom list"

text \<open>A state is the set of seen variables, the collected and the pending atoms.\<close>

definition collect_atom :: "'m reorder_state \<Rightarrow> symbol list \<Rightarrow> 'm normal_form_atom \<Rightarrow> 'm reorder_state" where
  "collect_atom s vs atom =
     (case s of (seen, collected, pending) \<Rightarrow> (bset_extend cmp_bytes seen vs, collected @ [atom], pending))"

definition postpone :: "'m reorder_state \<Rightarrow> 'm normal_form_atom \<Rightarrow> 'm reorder_state" where
  "postpone s atom = (case s of (seen, collected, pending) \<Rightarrow> (seen, collected, pending @ [atom]))"

definition round_1_step :: "'m reorder_state \<Rightarrow> 'm normal_form_atom \<Rightarrow> reorder_error + 'm reorder_state" where
  "round_1_step s atom =
     (let seen = fst s in
      case atom of
        Unification u \<Rightarrow>
          if unif_is_const u then Inr (collect_atom s [binding u] atom)
          else map_ok (\<lambda>unif_vars. if all_seen seen unif_vars then collect_atom s [binding u] atom else postpone s atom)
                 (lift_bindings (bindings_in_expr u))
      | Rule r \<Rightarrow> Inr (collect_atom s (nr_args r) atom)
      | Relation v \<Rightarrow> Inr (collect_atom s (nrel_args v) atom)
      | NegatedRule r \<Rightarrow> Inr (postpone s atom)
      | NegatedRelation v \<Rightarrow> Inr (postpone s atom)
      | Predicate p \<Rightarrow> Inr (postpone s atom)
      | HnswSearch h \<Rightarrow>
          Inr (if bset_contains cmp_bytes (hnsw_query h) seen then collect_atom s (hnsw_all_bindings h) atom else postpone s atom)
      | FtsSearch f \<Rightarrow>
          Inr (if bset_contains cmp_bytes (fts_query f) seen then collect_atom s (fts_all_bindings f) atom else postpone s atom)
      | LshSearch l \<Rightarrow>
          Inr (if bset_contains cmp_bytes (lsh_query l) seen then collect_atom s (lsh_all_bindings l) atom else postpone s atom))"

text \<open>The second round adds an atom of the first round, then goes through the pending atoms.\<close>

definition add_collected :: "'m reorder_state \<Rightarrow> 'm normal_form_atom \<Rightarrow> reorder_error + 'm reorder_state" where
  "add_collected s atom =
     (case atom of
        Rule r \<Rightarrow> Inr (collect_atom s (nr_args r) atom)
      | Relation v \<Rightarrow> Inr (collect_atom s (nrel_args v) atom)
      | NegatedRule _ \<Rightarrow> Inl ReorderPanic
      | NegatedRelation _ \<Rightarrow> Inl ReorderPanic
      | Predicate _ \<Rightarrow> Inl ReorderPanic
      | Unification u \<Rightarrow> Inr (collect_atom s [binding u] atom)
      | HnswSearch h \<Rightarrow> Inr (collect_atom s (hnsw_all_bindings h) atom)
      | FtsSearch f \<Rightarrow> Inr (collect_atom s (fts_all_bindings f) atom)
      | LshSearch l \<Rightarrow> Inr (collect_atom s (lsh_all_bindings l) atom))"

definition pending_step :: "'m reorder_state \<Rightarrow> 'm normal_form_atom \<Rightarrow> reorder_error + 'm reorder_state" where
  "pending_step s atom =
     (let seen = fst s in
      case atom of
        Rule _ \<Rightarrow> Inl ReorderPanic
      | Relation _ \<Rightarrow> Inl ReorderPanic
      | NegatedRule r \<Rightarrow> Inr (if all_seen seen (nr_args r) then collect_atom s [] atom else postpone s atom)
      | NegatedRelation v \<Rightarrow> Inr (if all_seen seen (nrel_args v) then collect_atom s [] atom else postpone s atom)
      | HnswSearch h \<Rightarrow>
          Inr (if bset_contains cmp_bytes (hnsw_query h) seen then collect_atom s (hnsw_all_bindings h) atom else postpone s atom)
      | FtsSearch f \<Rightarrow>
          Inr (if bset_contains cmp_bytes (fts_query f) seen then collect_atom s (fts_all_bindings f) atom else postpone s atom)
      | LshSearch l \<Rightarrow>
          Inr (if bset_contains cmp_bytes (lsh_query l) seen then collect_atom s (lsh_all_bindings l) atom else postpone s atom)
      | Predicate p \<Rightarrow>
          map_ok (\<lambda>vs. if all_seen seen vs then collect_atom s [] atom else postpone s atom) (lift_bindings (bindings_of p))
      | Unification u \<Rightarrow>
          map_ok (\<lambda>vs. if all_seen seen vs then collect_atom s [] atom else postpone s atom)
            (lift_bindings (bindings_in_expr u)))"

definition round_2_step :: "'m reorder_state \<Rightarrow> 'm normal_form_atom \<Rightarrow> reorder_error + 'm reorder_state" where
  "round_2_step s atom =
     (case s of (seen, collected, last_pending) \<Rightarrow>
        and_then (add_collected (seen, collected, []) atom) (\<lambda>s. try_fold pending_step s last_pending))"

text \<open>What is still pending at the end: only negated applications that are partly bound are left.\<close>

definition final_step :: "symbol list \<Rightarrow> 'm normal_form_atom list \<Rightarrow> 'm normal_form_atom \<Rightarrow>
    reorder_error + 'm normal_form_atom list" where
  "final_step seen collected atom =
     (case atom of
        Rule _ \<Rightarrow> Inl ReorderPanic
      | Relation _ \<Rightarrow> Inl ReorderPanic
      | NegatedRule r \<Rightarrow>
          if list_ex (\<lambda>a. bset_contains cmp_bytes a seen) (nr_args r) then Inr (collected @ [atom]) else Inl UnsafeNegation
      | NegatedRelation v \<Rightarrow>
          if list_ex (\<lambda>a. bset_contains cmp_bytes a seen) (nrel_args v) then Inr (collected @ [atom]) else Inl UnsafeNegation
      | _ \<Rightarrow> Inl AtomUnbound)"

definition convert_to_well_ordered_rule :: "'m normal_form_inline_rule \<Rightarrow> reorder_error + 'm normal_form_inline_rule" where
  "convert_to_well_ordered_rule rule =
     and_then (try_fold round_1_step ([], [], []) (nf_body rule)) (\<lambda>(_, round_1_collected, pending).
     and_then (try_fold round_2_step ([], [], pending) round_1_collected) (\<lambda>(seen, collected, pending).
     map_ok (\<lambda>body. rule\<lparr>nf_body := body\<rparr>) (try_fold (final_step seen) collected pending)))"

section \<open>Safe orders\<close>

text \<open>The variables that an atom binds, and whether the variables it needs are bound.\<close>

definition binds :: "'m normal_form_atom \<Rightarrow> symbol list" where
  "binds atom =
     (case atom of
        Rule r \<Rightarrow> nr_args r | Relation v \<Rightarrow> nrel_args v | Unification u \<Rightarrow> [binding u]
      | HnswSearch h \<Rightarrow> hnsw_all_bindings h | FtsSearch f \<Rightarrow> fts_all_bindings f | LshSearch l \<Rightarrow> lsh_all_bindings l
      | _ \<Rightarrow> [])"

definition bound_in :: "symbol set \<Rightarrow> eval_error + symbol list \<Rightarrow> bool" where
  "bound_in B r = (case r of Inr vs \<Rightarrow> set vs \<subseteq> B | Inl _ \<Rightarrow> False)"

definition partly_bound :: "symbol set \<Rightarrow> symbol list \<Rightarrow> bool" where
  "partly_bound B vs \<longleftrightarrow> vs = [] \<or> (\<exists>v \<in> set vs. v \<in> B)"

definition atom_safe :: "symbol set \<Rightarrow> 'm normal_form_atom \<Rightarrow> bool" where
  "atom_safe B atom =
     (case atom of
        Rule _ \<Rightarrow> True | Relation _ \<Rightarrow> True
      | NegatedRule r \<Rightarrow> partly_bound B (nr_args r) | NegatedRelation v \<Rightarrow> partly_bound B (nrel_args v)
      | Predicate p \<Rightarrow> bound_in B (bindings_of p)
      | Unification u \<Rightarrow> unif_is_const u \<or> bound_in B (bindings_in_expr u)
      | HnswSearch h \<Rightarrow> hnsw_query h \<in> B | FtsSearch f \<Rightarrow> fts_query f \<in> B | LshSearch l \<Rightarrow> lsh_query l \<in> B)"

definition bound_by :: "'m normal_form_atom list \<Rightarrow> symbol set" where
  "bound_by atoms = (\<Union>a \<in> set atoms. set (binds a))"

fun safe_order :: "symbol set \<Rightarrow> 'm normal_form_atom list \<Rightarrow> bool" where
  "safe_order B [] = True"
| "safe_order B (a # atoms) \<longleftrightarrow> atom_safe B a \<and> safe_order (B \<union> set (binds a)) atoms"

lemma bound_by_simps [simp]: "bound_by [] = {}" "bound_by (a # as) = set (binds a) \<union> bound_by as"
  "bound_by (as @ bs) = bound_by as \<union> bound_by bs"
  by (auto simp: bound_by_def)

lemma safe_order_append [simp]:
  "safe_order B (as @ bs) \<longleftrightarrow> safe_order B as \<and> safe_order (B \<union> bound_by as) bs"
  by (induction as arbitrary: B) (auto simp: Un_assoc)

lemma bound_in_mono: "bound_in B r \<Longrightarrow> B \<subseteq> C \<Longrightarrow> bound_in C r"
  by (auto simp: bound_in_def split: sum.splits)

lemma atom_safe_mono: "atom_safe B a \<Longrightarrow> B \<subseteq> C \<Longrightarrow> atom_safe C a"
  by (cases a) (auto simp: atom_safe_def partly_bound_def intro: bound_in_mono)

lemma all_seen_iff [simp]: "all_seen seen vs \<longleftrightarrow> set vs \<subseteq> set seen"
  by (auto simp: all_seen_def list_all_iff bytes_ord.bset_contains_iff)

lemma set_bset_extend [simp]: "set (bset_extend cmp_bytes seen vs) = set seen \<union> set vs"
proof -
  have "set (fold (bset_insert cmp_bytes) vs seen) = set seen \<union> set vs"
    by (induction vs arbitrary: seen) (auto simp: bytes_ord.set_bset_insert)
  then show ?thesis by (simp add: bset_extend_def)
qed

lemma lift_bindings_Inr [simp]: "lift_bindings r = Inr vs \<longleftrightarrow> r = Inr vs"
  by (simp add: lift_bindings_def split: sum.splits)

section \<open>The result is a safe order of the body\<close>

lemmas step_defs = round_1_step_def add_collected_def pending_step_def round_2_step_def final_step_def
  collect_atom_def postpone_def Let_def

definition is_binder :: "'m normal_form_atom \<Rightarrow> bool" where
  "is_binder atom \<longleftrightarrow>
     (case atom of NegatedRule _ \<Rightarrow> False | NegatedRelation _ \<Rightarrow> False | Predicate _ \<Rightarrow> False | _ \<Rightarrow> True)"

definition round_1_inv :: "'m normal_form_atom list \<Rightarrow> 'm reorder_state \<Rightarrow> bool" where
  "round_1_inv handled s \<longleftrightarrow>
     (case s of (seen, collected, pending) \<Rightarrow>
        set seen = bound_by collected \<and> safe_order {} collected \<and> (\<forall>a \<in> set collected. is_binder a) \<and>
        mset collected + mset pending = mset handled)"

lemma round_1_step_inv:
  assumes "round_1_inv handled s" and "round_1_step s a = Inr s'"
  shows "round_1_inv (handled @ [a]) s'"
  using assms
  by (cases a; cases s)
    (auto simp: round_1_inv_def step_defs binds_def atom_safe_def is_binder_def bound_in_def bytes_ord.bset_contains_iff
      split: if_splits)

lemma try_fold_inv:
  assumes "try_fold f s xs = Inr s'" and "P [] s"
    and "\<And>handled s a s' rest. xs = handled @ a # rest \<Longrightarrow> P handled s \<Longrightarrow> f s a = Inr s' \<Longrightarrow> P (handled @ [a]) s'"
  shows "P xs s'"
proof -
  have "P (handled @ ys) s'" if "P handled s" "xs = handled @ ys" "try_fold f s ys = Inr s'" for handled s ys
    using that
  proof (induction ys arbitrary: handled s)
    case (Cons y ys)
    then obtain t where t: "f s y = Inr t" "try_fold f t ys = Inr s'" by (auto split: sum.splits)
    with Cons.prems assms(3) have "P (handled @ [y]) t" by blast
    with Cons.IH [of "handled @ [y]" t] Cons.prems t(2) show ?case by simp
  qed simp
  from this [of "[]" s xs] assms(1,2) show ?thesis by simp
qed

definition round_2_inv :: "'m normal_form_atom list \<Rightarrow> 'm normal_form_atom list \<Rightarrow> 'm reorder_state \<Rightarrow> bool" where
  "round_2_inv P handled s \<longleftrightarrow>
     (case s of (seen, collected, pending) \<Rightarrow>
        bound_by handled \<subseteq> set seen \<and> set seen \<subseteq> bound_by collected \<and> safe_order {} collected \<and>
        mset collected + mset pending = mset handled + mset P)"

lemma add_collected_inv:
  assumes "round_2_inv P handled (seen, collected, pending)" and "atom_safe (bound_by handled) a"
    and "add_collected (seen, collected, []) a = Inr (seen', collected', pending')"
  shows "pending' = []" and "round_2_inv P (handled @ [a]) (seen', collected', pending)"
proof -
  have eq: "pending' = []" "set seen' = set seen \<union> set (binds a)" "collected' = collected @ [a]"
    using assms(3) by (cases a; auto simp: step_defs binds_def)+
  then show "pending' = []" by simp
  have "atom_safe (bound_by collected) a"
    using assms(1,2) by (auto simp: round_2_inv_def elim!: atom_safe_mono)
  then show "round_2_inv P (handled @ [a]) (seen', collected', pending)"
    using assms(1) eq by (auto simp: round_2_inv_def)
qed

text \<open>One pending atom is collected, where it is safe, or stays pending.\<close>

lemma pending_step_inv:
  assumes "pending_step (seen, collected, pending) a = Inr (seen', collected', pending')"
    and "set seen \<subseteq> bound_by collected" and "safe_order {} collected"
  shows "set seen \<subseteq> set seen' \<and> set seen' \<subseteq> bound_by collected' \<and> safe_order {} collected' \<and>
    mset collected' + mset pending' = mset collected + mset pending + {#a#}"
  using assms
  by (cases a)
    (auto simp: step_defs binds_def atom_safe_def partly_bound_def bound_in_def bytes_ord.bset_contains_iff
      subset_iff neq_Nil_conv split: if_splits)

lemma pending_fold_inv:
  assumes "try_fold pending_step (seen, collected, pending) xs = Inr (seen', collected', pending')"
    and "set seen \<subseteq> bound_by collected" and "safe_order {} collected"
  shows "set seen \<subseteq> set seen' \<and> set seen' \<subseteq> bound_by collected' \<and> safe_order {} collected' \<and>
    mset collected' + mset pending' = mset collected + mset pending + mset xs"
  using assms
proof (induction xs arbitrary: seen collected pending)
  case (Cons x xs)
  then obtain s c p where st: "pending_step (seen, collected, pending) x = Inr (s, c, p)"
    "try_fold pending_step (s, c, p) xs = Inr (seen', collected', pending')" by (auto split: sum.splits)
  note step = pending_step_inv [OF st(1) Cons.prems(2,3)]
  with Cons.IH [OF st(2)] show ?case by auto
qed simp

lemma round_2_step_inv:
  assumes "round_2_inv P handled s" and "atom_safe (bound_by handled) a" and "round_2_step s a = Inr s'"
  shows "round_2_inv P (handled @ [a]) s'"
proof -
  obtain seen collected pending where s: "s = (seen, collected, pending)" by (cases s)
  obtain seen' collected' pending' where s': "s' = (seen', collected', pending')" by (cases s')
  obtain t c q where t: "add_collected (seen, collected, []) a = Inr (t, c, q)"
    "try_fold pending_step (t, c, q) pending = Inr s'"
    using assms(3) s by (auto simp: round_2_step_def and_then_Inr)
  note add = add_collected_inv [OF assms(1) [unfolded s] assms(2) t(1)]
  then have inv: "bound_by (handled @ [a]) \<subseteq> set t" "set t \<subseteq> bound_by c" "safe_order {} c"
    "mset c + mset pending = mset (handled @ [a]) + mset P"
    by (auto simp: round_2_inv_def)
  from pending_fold_inv [OF t(2) [unfolded s'] inv(2,3)] inv(1,4) add(1)
  show ?thesis by (auto simp: round_2_inv_def s' ac_simps)
qed

lemma final_fold_inv:
  assumes "try_fold (final_step seen) collected xs = Inr body" and "set seen \<subseteq> bound_by collected"
    and "safe_order {} collected"
  shows "safe_order {} body \<and> mset body = mset collected + mset xs"
  using assms
proof (induction xs arbitrary: collected)
  case (Cons x xs)
  from Cons.prems(1) obtain c where c: "final_step seen collected x = Inr c" "try_fold (final_step seen) c xs = Inr body"
    by (auto split: sum.splits)
  have eq: "c = collected @ [x]" "atom_safe (set seen) x"
    using c(1) by (cases x; auto simp: step_defs atom_safe_def partly_bound_def list_ex_iff bytes_ord.bset_contains_iff
        split: if_splits)+
  then have "atom_safe (bound_by collected) x" using Cons.prems(2) by (auto elim: atom_safe_mono)
  then have "set seen \<subseteq> bound_by c" "safe_order {} c" using eq(1) Cons.prems(2,3) by auto
  with Cons.IH [OF c(2)] eq(1) show ?case by auto
qed simp

lemma convert_sound:
  assumes "convert_to_well_ordered_rule rule = Inr rule'"
  shows "rule' = rule\<lparr>nf_body := nf_body rule'\<rparr> \<and> mset (nf_body rule') = mset (nf_body rule) \<and> safe_order {} (nf_body rule')"
proof -
  obtain seen1 round1 pending seen2 collected pending2 body where
    r1: "try_fold round_1_step ([], [], []) (nf_body rule) = Inr (seen1, round1, pending)" and
    r2: "try_fold round_2_step ([], [], pending) round1 = Inr (seen2, collected, pending2)" and
    r3: "try_fold (final_step seen2) collected pending2 = Inr body" and rule': "rule' = rule\<lparr>nf_body := body\<rparr>"
    using assms by (auto simp: convert_to_well_ordered_rule_def and_then_Inr)
  have i1: "round_1_inv (nf_body rule) (seen1, round1, pending)"
    by (rule try_fold_inv [OF r1, where P = round_1_inv])
      (simp add: round_1_inv_def, erule round_1_step_inv)
  then have "safe_order {} round1" by (simp add: round_1_inv_def)
  then have "round_2_inv pending round1 (seen2, collected, pending2)"
    by (intro try_fold_inv [OF r2, where P = "round_2_inv pending"])
      (simp add: round_2_inv_def, erule round_2_step_inv, simp_all)
  then have "set seen2 \<subseteq> bound_by collected" "safe_order {} collected"
    "mset collected + mset pending2 = mset round1 + mset pending"
    by (simp_all add: round_2_inv_def)
  with final_fold_inv [OF r3 this(1,2)] i1 rule' show ?thesis by (auto simp: round_1_inv_def)
qed

section \<open>A body in a safe order is accepted\<close>

lemma bset_extend_Nil [simp]: "bset_extend cmp_bytes seen [] = seen"
  by (simp add: bset_extend_def)

lemma round_1_accepts:
  assumes "safe_order (set seen) atoms"
  shows "\<exists>seen'. set seen' = set seen \<union> bound_by atoms \<and>
    try_fold round_1_step (seen, collected, pending) atoms =
      Inr (seen', collected @ filter is_binder atoms, pending @ filter (\<lambda>a. \<not> is_binder a) atoms)"
  using assms
proof (induction atoms arbitrary: seen collected pending)
  case (Cons a atoms)
  let ?seen = "bset_extend cmp_bytes seen (binds a)"
  have "round_1_step (seen, collected, pending) a =
    Inr (?seen, if is_binder a then collected @ [a] else collected, if is_binder a then pending else pending @ [a])"
    using Cons.prems
    by (cases a)
      (auto simp: step_defs binds_def atom_safe_def is_binder_def bound_in_def lift_bindings_def
        bytes_ord.bset_contains_iff split: sum.splits)
  moreover have "safe_order (set ?seen) atoms" using Cons.prems by simp
  ultimately show ?case
    using Cons.IH [of ?seen "if is_binder a then collected @ [a] else collected"
        "if is_binder a then pending else pending @ [a]"] by (auto simp: Un_assoc)
qed simp

definition placeable :: "symbol set \<Rightarrow> 'm normal_form_atom \<Rightarrow> bool" where
  "placeable B a =
     (case a of
        NegatedRule r \<Rightarrow> set (nr_args r) \<subseteq> B | NegatedRelation v \<Rightarrow> set (nrel_args v) \<subseteq> B
      | Predicate p \<Rightarrow> bound_in B (bindings_of p) | _ \<Rightarrow> False)"

definition test_atom :: "'m normal_form_atom \<Rightarrow> bool" where
  "test_atom a \<longleftrightarrow> \<not> is_binder a \<and> (\<forall>p. a = Predicate p \<longrightarrow> (\<exists>vs. bindings_of p = Inr vs))"

lemma pending_accepts:
  assumes "\<forall>a \<in> set atoms. test_atom a"
  shows "try_fold pending_step (seen, collected, pending) atoms =
    Inr (seen, collected @ filter (placeable (set seen)) atoms, pending @ filter (\<lambda>a. \<not> placeable (set seen) a) atoms)"
  using assms
proof (induction atoms arbitrary: collected pending)
  case (Cons a atoms)
  then have "test_atom a" by simp
  then have "pending_step (seen, collected, pending) a =
    Inr (if placeable (set seen) a then (seen, collected @ [a], pending) else (seen, collected, pending @ [a]))"
    by (cases a) (auto simp: step_defs placeable_def test_atom_def is_binder_def bound_in_def lift_bindings_def
        simp del: map_ok_Inr)
  with Cons show ?case by simp
qed simp

lemma round_2_accepts:
  assumes "\<forall>a \<in> set atoms. is_binder a" and "\<forall>a \<in> set pending. test_atom a"
  shows "\<exists>seen' collected' pending'. try_fold round_2_step (seen, collected, pending) atoms = Inr (seen', collected', pending') \<and>
    set seen' = set seen \<union> bound_by atoms \<and> set pending' \<subseteq> set pending \<and>
    (atoms \<noteq> [] \<longrightarrow> (\<forall>a \<in> set pending'. \<not> placeable (set seen') a))"
  using assms
proof (induction atoms arbitrary: seen collected pending)
  case (Cons a atoms)
  let ?seen = "bset_extend cmp_bytes seen (binds a)"
  let ?pending = "filter (\<lambda>x. \<not> placeable (set ?seen) x) pending"
  have "add_collected (seen, collected, []) a = Inr (?seen, collected @ [a], [])"
    using Cons.prems(1) by (cases a) (auto simp: step_defs binds_def is_binder_def)
  then have step: "round_2_step (seen, collected, pending) a =
      Inr (?seen, (collected @ [a]) @ filter (placeable (set ?seen)) pending, ?pending)"
    using pending_accepts [OF Cons.prems(2), of ?seen] by (simp add: round_2_step_def)
  have "\<forall>a \<in> set atoms. is_binder a" "\<forall>a \<in> set ?pending. test_atom a" using Cons.prems by auto
  from Cons.IH [OF this, of ?seen "(collected @ [a]) @ filter (placeable (set ?seen)) pending"]
  obtain seen' collected' pending' where IH:
    "try_fold round_2_step (?seen, (collected @ [a]) @ filter (placeable (set ?seen)) pending, ?pending) atoms =
       Inr (seen', collected', pending')"
    "set seen' = set ?seen \<union> bound_by atoms" "set pending' \<subseteq> set ?pending"
    "atoms \<noteq> [] \<longrightarrow> (\<forall>a \<in> set pending'. \<not> placeable (set seen') a)"
    by blast
  then show ?case using step by (cases "atoms = []") auto
qed simp

lemma binds_non_binder: "\<not> is_binder a \<Longrightarrow> binds a = []"
  by (cases a) (simp_all add: is_binder_def binds_def)

lemma convert_accepts:
  assumes "safe_order {} (nf_body rule)" and "\<exists>a \<in> set (nf_body rule). is_binder a"
  shows "\<exists>rule'. convert_to_well_ordered_rule rule = Inr rule'"
proof -
  let ?body = "nf_body rule"
  let ?binders = "filter is_binder ?body" and ?tests = "filter (\<lambda>a. \<not> is_binder a) ?body"
  obtain seen1 where r1: "try_fold round_1_step ([], [], []) ?body = Inr (seen1, ?binders, ?tests)"
    using round_1_accepts [of "[]" ?body "[]" "[]"] assms(1) by auto
  have bound: "bound_by ?binders = bound_by ?body"
    using binds_non_binder by (fastforce simp: bound_by_def)
  have safe: "atom_safe (bound_by ?body) a" if "a \<in> set ?body" for a
    using split_list [OF that] assms(1) by (auto elim!: atom_safe_mono)
  have "\<exists>vs. bindings_of q = Inr vs" if "Predicate q \<in> set ?body" for q
    using safe [OF that] by (auto simp: atom_safe_def bound_in_def split: sum.splits)
  then have tests: "\<forall>a \<in> set ?tests. test_atom a" by (auto simp: test_atom_def)
  obtain seen2 collected pending where r2:
    "try_fold round_2_step ([], [], ?tests) ?binders = Inr (seen2, collected, pending)"
    "set seen2 = bound_by ?body" "set pending \<subseteq> set ?tests" "\<forall>a \<in> set pending. \<not> placeable (set seen2) a"
    using round_2_accepts [of ?binders ?tests "[]" "[]"] tests assms(2) bound by (auto simp: filter_empty_conv)
  have final: "final_step seen2 c a = Inr (c @ [a])" if "a \<in> set pending" for a c
  proof -
    have "\<not> is_binder a" "atom_safe (set seen2) a" "\<not> placeable (set seen2) a"
      using r2(2-4) that safe [of a] by auto
    then show ?thesis
      by (cases a)
        (auto simp: step_defs atom_safe_def is_binder_def placeable_def partly_bound_def list_ex_iff
          bytes_ord.bset_contains_iff)
  qed
  have "\<exists>body. try_fold (final_step seen2) c pending = Inr body" for c
    using final by (induction pending arbitrary: c) auto
  then show ?thesis using r1 r2(1) by (auto simp: convert_to_well_ordered_rule_def)
qed

text \<open>
  C39: Reordering the body of a rule returns the same atoms in an order in which every predicate, unification and
  index search comes after the atoms that bind its variables and every negated application is at least partly
  bound. A body that is already in such an order and binds anything is accepted.
\<close>

theorem well_ordered_rule_correct:
  "(convert_to_well_ordered_rule rule = Inr rule' \<longrightarrow>
      rule' = rule\<lparr>nf_body := nf_body rule'\<rparr> \<and> mset (nf_body rule') = mset (nf_body rule) \<and>
      safe_order {} (nf_body rule')) \<and>
   (safe_order {} (nf_body rule) \<and> (\<exists>a \<in> set (nf_body rule). is_binder a) \<longrightarrow>
      (\<exists>rule'. convert_to_well_ordered_rule rule = Inr rule'))"
  using convert_sound convert_accepts by blast

lemmas reorder_eval = convert_to_well_ordered_rule_def step_defs unif_is_const_def is_const_def bindings_in_expr_def
  bindings_of_def collect_bindings_def lift_bindings_def all_seen_def bset_contains_def bset_extend_def cmp_ord_def

theorem well_ordered_rule_correct_witness:
  "(\<exists>rule' :: unit normal_form_inline_rule.
      convert_to_well_ordered_rule \<lparr>nf_head = [[120]], nf_aggr = [None],
        nf_body = [Predicate (Binding [120] None), Rule \<lparr>nr_name = [114], nr_args = [[120]]\<rparr>]\<rparr> = Inr rule' \<and>
      mset (nf_body rule') = mset [Predicate (Binding [120] None), Rule \<lparr>nr_name = [114], nr_args = [[120]]\<rparr>] \<and>
      safe_order {} (nf_body rule')) \<and>
   (\<exists>rule' :: unit normal_form_inline_rule.
      convert_to_well_ordered_rule \<lparr>nf_head = [[120]], nf_aggr = [None],
        nf_body = [Rule \<lparr>nr_name = [114], nr_args = [[120]]\<rparr>, Predicate (Binding [120] None)]\<rparr> = Inr rule')"
proof -
  let ?p = "Predicate (Binding [120] None) :: unit normal_form_atom" and ?r = "Rule \<lparr>nr_name = [114], nr_args = [[120]]\<rparr>"
  let ?rule = "\<lparr>nf_head = [[120]], nf_aggr = [None], nf_body = [?p, ?r]\<rparr>"
  have "convert_to_well_ordered_rule ?rule = Inr (?rule\<lparr>nf_body := [?r, ?p]\<rparr>)"
    by (simp add: reorder_eval)
  moreover have "safe_order {} [?r, ?p]" "is_binder ?r"
    by (simp_all add: atom_safe_def binds_def bound_in_def bindings_of_def collect_bindings_def is_binder_def)
  ultimately show ?thesis
    using well_ordered_rule_correct [of ?rule "?rule\<lparr>nf_body := [?r, ?p]\<rparr>"]
      well_ordered_rule_correct [of "?rule\<lparr>nf_body := [?r, ?p]\<rparr>"] by auto
qed

text \<open>
  C40: Acceptance depends on the order in which the body is written. Take any rule application, any
  unification of a new variable with an expression over the arguments of the application, and any predicate
  that uses the new variable and no variable that neither of them binds. Written in this order the body is
  accepted as it is; with the unification before the application it is rejected, because a unification
  placed in the second round does not count as binding its variable.
\<close>

theorem reorder_order_dependent:
  assumes "\<not> unif_is_const u" and "bindings_in_expr u = Inr vs" and "vs \<noteq> []" and "set vs \<subseteq> set (nr_args r)"
    and "bindings_of p = Inr ps" and "binding u \<in> set ps" and "binding u \<notin> set (nr_args r)"
    and "set ps \<subseteq> insert (binding u) (set (nr_args r))"
  shows "convert_to_well_ordered_rule (rule\<lparr>nf_body := [Rule r, Unification u, Predicate p]\<rparr>) =
      Inr (rule\<lparr>nf_body := [Rule r, Unification u, Predicate p]\<rparr>) \<and>
    convert_to_well_ordered_rule (rule\<lparr>nf_body := [Unification u, Rule r, Predicate p]\<rparr>) = Inl AtomUnbound"
proof -
  have lift: "lift_bindings (bindings_in_expr u) = Inr vs" "lift_bindings (bindings_of p) = Inr ps"
    using assms(2,5) by simp_all
  have sub: "\<not> set ps \<subseteq> set (nr_args r)" "vs \<noteq> []" using assms(3,6,7) by auto
  then show ?thesis
    using assms(1,4,8) by (simp add: convert_to_well_ordered_rule_def step_defs lift)
qed

theorem reorder_order_dependent_witness:
  "convert_to_well_ordered_rule (\<lparr>nf_head = [[121]], nf_aggr = [None],
      nf_body = [Unification \<lparr>binding = [121], uexpr = Binding [120] None, one_many_unif = False\<rparr>,
        Rule \<lparr>nr_name = [114], nr_args = [[120]]\<rparr>, Predicate (Binding [121] None)]\<rparr> :: unit normal_form_inline_rule) = Inl AtomUnbound"
  using reorder_order_dependent [of "\<lparr>binding = [121], uexpr = Binding [120] None, one_many_unif = False\<rparr>" "[[120]]"
      "\<lparr>nr_name = [114], nr_args = [[120]]\<rparr>" "Binding [121] None" "[[121]]" "\<lparr>nf_head = [[121]], nf_aggr = [None], nf_body = []\<rparr>"]
  by (simp add: reorder_eval)

end
