(* ===== verification/Spec2Isabelle.thy ===== *)
theory Spec2Isabelle
  imports Relation_Handle TempStore Stratify Bounds Reorder
begin

text \<open>
  A verification development of the database engine in \<open>src/retia-core/src\<close>: an embeddable Datalog
  engine over an ordered key-value store.

  \<^bold>\<open>The program.\<close> A query is parsed into rules, normalised, stratified and compiled to relational
  algebra; evaluation derives rows into temporary stores, epoch by epoch, until nothing new appears.
  Stored relations live in an ordered key-value store: a row becomes a key, by an encoding of values
  that keeps their order, and a value. Relations whose last key column is a validity keep versions of a
  row, and a query at a time skips from key to key to the version it wants. Rows written by a user are
  coerced to the types of the columns first.

  \<^bold>\<open>The theories.\<close> Paths are relative to \<open>src/retia-core/src\<close>.

  \<^item> \<open>Prelude\<close>: comparison functions as Rust's \<open>Ord\<close> (the contracts \<open>total_cmp\<close> and \<open>linear_cmp\<close>),
    lexicographic comparison, big-endian bytes, error propagation (\<open>try_collect\<close>, \<open>and_then\<close>).
  \<^item> \<open>Float64\<close>: \<open>f64\<close> and \<open>i64\<close> as 64-bit words; classification, total and IEEE order, arithmetic with
    correct rounding computed on integers.
  \<^item> \<open>BTree\<close>: \<open>BTreeMap\<close> and \<open>BTreeSet\<close> of the standard library as sorted lists.
  \<^item> \<open>Value\<close> (\<open>data/value.rs\<close>): \<open>data_value\<close> with its derived order \<open>cmp_value\<close> and the accessors.
  \<^item> \<open>Memcmp\<close> (\<open>data/memcmp.rs\<close>): the key encoding \<open>encode_datavalue\<close> and its decoder. Comparing keys
    byte by byte is comparing values, and decoding inverts encoding.
  \<^item> \<open>Tuple\<close> (\<open>data/tuple.rs\<close>, codec part of \<open>runtime/relation.rs\<close>): keys of rows, prefixes, bounds, and the
    check \<open>check_key_for_validity\<close> of a version against a time.
  \<^item> \<open>Storage\<close> (\<open>storage/mem.rs\<close>, \<open>storage/temp.rs\<close>): the memory store with its transactions and
    merging iterators, and the temporary store. The contract \<open>store_tx\<close> states what a transaction
    promises as a finite map; both stores are interpretations.
  \<^item> \<open>TimeTravel\<close> (\<open>SkipIterator\<close>, \<open>SkipDualIterator\<close> of the two stores): scans at a time.
  \<^item> \<open>Coltype\<close> (\<open>data/relation.rs\<close>): column types, coercion and the checks between an input and a stored
    relation.
  \<^item> \<open>Relation_Handle\<close> (\<open>runtime/relation.rs\<close>): keys, values, scans and lookups of a stored relation, proved
    in the context of the storage contract, and the choice of an index.
  \<^item> \<open>Aggr\<close> (\<open>data/aggr.rs\<close>): all normal and meet aggregations. The contract \<open>meet_semilattice\<close> says
    that merging is a join on abstract values; \<open>same_result\<close> spells out per aggregation what it means
    for two results to stand for the same.
  \<^item> \<open>TempStore\<close> (\<open>runtime/temp_store.rs\<close>): the stores of derived rows, with the merge of an epoch and its
    delta.
  \<^item> \<open>Graph\<close> (\<open>query/graph.rs\<close>): reachability, the generalised Kahn algorithm, Tarjan's algorithm;
    \<open>Scc\<close> proves the latter.
  \<^item> \<open>Functions\<close> (\<open>data/functions.rs\<close>): the functions callable in expressions, except those that only
    forward to another library.
  \<^item> \<open>Expr\<close> (\<open>data/expr.rs\<close>, \<open>data/symb.rs\<close> and the calls of \<open>parse/expr.rs\<close>): expressions, their
    evaluator, the compiler to bytecode and the stack machine, proved to agree, constant folding and the
    bounds that filters put on a scan; \<open>Bounds\<close> proves when the bounds cover all rows that pass.
  \<^item> \<open>Program\<close> (\<open>data/program.rs\<close>): atoms, rules and programs before and after normalisation.
  \<^item> \<open>Reorder\<close> (\<open>query/reorder.rs\<close>): the order of the atoms of a rule body, proved safe.
  \<^item> \<open>Stratify\<close> (\<open>query/stratify.rs\<close>): the dependency graph of a program and its division into strata, which
    composes the three algorithms of \<open>Graph\<close>; proved to reject exactly the programs with a forbidden cycle
    and to order the strata of all others.

  \<^bold>\<open>State and operations.\<close> A Rust struct is a record, an enum a datatype, a \<open>&mut self\<close> method a
  function that returns the updated value, an error a left injection, a panic \<open>None\<close> or an error of its
  own. Strings are their UTF-8 bytes. Integers keep their width. Iterators are state machines with one
  step function; a scan runs the step until it ends.

  \<^bold>\<open>Code outside the repository.\<close> The record \<open>ext\<close> of \<open>Value\<close> holds what the code calls of other crates
  (JSON text and comparison, regular expressions, MessagePack, and so on); a theorem names the law it
  needs as a hypothesis, and \<open>ext_example\<close> satisfies the laws.

  \<^bold>\<open>Fuel.\<close> Loops and recursions without a structural measure take fuel and return \<open>None\<close> without it.
  The entry points supply an amount computed from the input (the length of the bytes to decode, the
  number of stored rows, the number of nodes or edges), and the theorems show a result. Where the code can
  also panic, the outcome of running out of fuel is a value of its own: the key decoder returns \<open>None\<close>
  for it and \<open>Some None\<close> for a panic, and is shown never to return \<open>None\<close> with the fuel it is given. The time-travel scan is the exception: \<open>terminal_retraction_diverges\<close> shows that it
  can loop for ever, and \<open>skip_scan_correct\<close> excludes that case.

  \<^bold>\<open>Not modelled.\<close> The parser walks trees produced by a generated grammar. Relational algebra plans and
  their compilation, the transcendental, JSON, random and date functions, the public database object with its threads and channels, the disk engines, the
  proximity and full-text indices, the graph algorithms callable from queries, the server and the language
  bindings are outside the development, as are \<open>Display\<close>, \<open>Debug\<close> and serde implementations.
\<close>

end
